(* ===== verification/QM_Prelude.thy ===== *)
theory QM_Prelude
  imports Main "HOL-Library.Word"
begin

text \<open>
  Shared vocabulary of the development: names for the C integer types, the error codes of
  \<^verbatim>\<open>include/common/qm_errno.h\<close>, and the lemmas on circular buffers that both queue
  implementations rest on.

  C's \<open>int\<close> is modelled by \<open>int\<close>; unsigned and narrow integers keep their width as
  words, and every conversion between the two that the compiler inserts is written out
  (\<open>word_of_int\<close>, \<open>unat\<close>). A pointer argument that the code compares with \<open>NULL\<close> is an
  \<open>option\<close>.
\<close>

type_synonym u8 = "8 word"
type_synonym u16 = "16 word"
type_synonym u32 = "32 word"

named_theorems errno "the numeric error codes"

subsection \<open>Error codes\<close>

definition QM_EOK :: int where [errno]: "QM_EOK = 0"
definition QM_ERROR :: int where [errno]: "QM_ERROR = 1"
definition QM_ETIMEOUT :: int where [errno]: "QM_ETIMEOUT = 2"
definition QM_EFULL :: int where [errno]: "QM_EFULL = 3"
definition QM_EEMPTY :: int where [errno]: "QM_EEMPTY = 4"
definition QM_ENOMEM :: int where [errno]: "QM_ENOMEM = 5"
definition QM_ENOSYS :: int where [errno]: "QM_ENOSYS = 6"
definition QM_EBUSY :: int where [errno]: "QM_EBUSY = 7"
definition QM_EIO :: int where [errno]: "QM_EIO = 8"
definition QM_EINTR :: int where [errno]: "QM_EINTR = 9"
definition QM_EINVAL :: int where [errno]: "QM_EINVAL = 10"
definition QM_EINIT :: int where [errno]: "QM_EINIT = 11"
definition QM_ENOENT :: int where [errno]: "QM_ENOENT = 12"

subsection \<open>Segments of a circular buffer\<close>

text \<open>
  \<open>ring_seg buf s n\<close> reads \<open>n\<close> cells of \<open>buf\<close> from index \<open>s\<close> on, wrapping at the end.
\<close>

definition ring_seg :: "'a list \<Rightarrow> nat \<Rightarrow> nat \<Rightarrow> 'a list" where
  "ring_seg buf s n = map (\<lambda>k. buf ! ((s + k) mod length buf)) [0..<n]"

lemma length_ring_seg [simp]: "length (ring_seg buf s n) = n"
  by (simp add: ring_seg_def)

lemma ring_seg_0 [simp]: "ring_seg buf s 0 = []"
  by (simp add: ring_seg_def)

lemma ring_seg_nth [simp]:
  "k < n \<Longrightarrow> ring_seg buf s n ! k = buf ! ((s + k) mod length buf)"
  by (simp add: ring_seg_def)

lemma ring_seg_mod [simp]: "ring_seg buf (s mod length buf) n = ring_seg buf s n"
  by (rule nth_equalityI) (simp_all add: mod_add_left_eq)

lemma ring_seg_Suc: "ring_seg buf s (Suc n) = buf ! (s mod length buf) # ring_seg buf (Suc s) n"
  by (rule nth_equalityI) (auto simp: nth_Cons split: nat.splits)

lemma ring_seg_snoc: "ring_seg buf s (Suc n) = ring_seg buf s n @ [buf ! ((s + n) mod length buf)]"
  by (simp add: ring_seg_def)

lemma ring_seg_append: "ring_seg buf s (m + n) = ring_seg buf s m @ ring_seg buf (s + m) n"
  by (rule nth_equalityI) (auto simp: nth_append add.assoc)

lemma take_ring_seg: "k \<le> n \<Longrightarrow> take k (ring_seg buf s n) = ring_seg buf s k"
  by (rule nth_equalityI) auto

lemma drop_ring_seg: "k \<le> n \<Longrightarrow> drop k (ring_seg buf s n) = ring_seg buf (s + k) (n - k)"
  by (rule nth_equalityI) (auto simp: add.assoc)

lemma ring_index_inj_le:
  fixes L :: nat
  assumes "i \<le> j" and "j < L" and "(s + i) mod L = (s + j) mod L"
  shows "i = j"
proof -
  have "L dvd (s + j) - (s + i)"
    using assms(1,3) mod_eq_dvd_iff_nat [of "s + i" "s + j" L] by simp
  then have "L dvd j - i" by simp
  moreover have "j - i < L" using assms(2) by simp
  ultimately have "j - i = 0" using nat_dvd_not_less by blast
  with assms(1) show ?thesis by simp
qed

lemma ring_index_inj:
  fixes L :: nat
  assumes "i < L" and "j < L" and "(s + i) mod L = (s + j) mod L"
  shows "i = j"
  using assms ring_index_inj_le [of i j L s] ring_index_inj_le [of j i L s] by fastforce

text \<open>Writing a cell outside the segment leaves the segment; writing the next free cell extends it.\<close>

lemma ring_seg_update_other:
  assumes "n \<le> k" and "k < length buf"
  shows "ring_seg (buf[(s + k) mod length buf := x]) s n = ring_seg buf s n"
proof (rule nth_equalityI)
  fix i assume i: "i < length (ring_seg (buf[(s + k) mod length buf := x]) s n)"
  then have "(s + i) mod length buf \<noteq> (s + k) mod length buf"
    using assms ring_index_inj [of i "length buf" k s] by auto
  then show "ring_seg (buf[(s + k) mod length buf := x]) s n ! i = ring_seg buf s n ! i"
    using i by simp
qed simp

lemma ring_seg_update_end:
  assumes "n < length buf"
  shows "ring_seg (buf[(s + n) mod length buf := x]) s (Suc n) = ring_seg buf s n @ [x]"
proof -
  have "(s + n) mod length buf < length buf" using assms by (intro mod_less_divisor) linarith
  then show ?thesis
    using ring_seg_update_other [of n n buf s x] assms by (simp add: ring_seg_snoc)
qed

subsection \<open>Distances on a ring\<close>

text \<open>\<open>ring_dist n r w\<close> is the number of steps from \<open>r\<close> forward to \<open>w\<close> on a ring of \<open>n\<close> cells.\<close>

definition ring_dist :: "nat \<Rightarrow> nat \<Rightarrow> nat \<Rightarrow> nat" where
  "ring_dist n r w = (w + n - r) mod n"

lemma ring_dist_if:
  assumes "r < n" and "w < n"
  shows "ring_dist n r w = (if r \<le> w then w - r else w + n - r)"
proof (cases "r \<le> w")
  case True
  then have "(w + n - r) mod n = ((w - r) + n) mod n" by simp
  also have "\<dots> = (w - r) mod n" by (rule mod_add_self2)
  finally show ?thesis using True assms by (simp add: ring_dist_def)
next
  case False
  then show ?thesis using assms by (simp add: ring_dist_def)
qed

lemma ring_dist_less: "0 < n \<Longrightarrow> ring_dist n r w < n"
  by (simp add: ring_dist_def)

lemma ring_dist_0_iff: "r < n \<Longrightarrow> w < n \<Longrightarrow> ring_dist n r w = 0 \<longleftrightarrow> r = w"
  by (auto simp: ring_dist_if)

lemma ring_dist_reach: "r < n \<Longrightarrow> w < n \<Longrightarrow> (r + ring_dist n r w) mod n = w"
  by (auto simp: ring_dist_if)

lemma ring_dist_full_iff:
  "r < n \<Longrightarrow> w < n \<Longrightarrow> Suc w mod n = r \<longleftrightarrow> ring_dist n r w = n - 1"
  by (auto simp: ring_dist_if mod_Suc)

lemma ring_dist_write:
  "r < n \<Longrightarrow> w < n \<Longrightarrow> Suc w mod n \<noteq> r \<Longrightarrow> ring_dist n r (Suc w mod n) = Suc (ring_dist n r w)"
  by (subst ring_dist_if) (auto simp: ring_dist_if mod_Suc split: if_splits)

lemma ring_dist_read:
  "r < n \<Longrightarrow> w < n \<Longrightarrow> r \<noteq> w \<Longrightarrow> Suc (ring_dist n (Suc r mod n) w) = ring_dist n r w"
  by (subst ring_dist_if) (auto simp: ring_dist_if mod_Suc split: if_splits)

lemma ring_dist_advance:
  assumes "r < n" and "d < n"
  shows "ring_dist n r ((r + d) mod n) = d"
proof (cases "r + d < n")
  case True
  then show ?thesis using assms by (simp add: ring_dist_if)
next
  case False
  then have "(r + d) mod n = r + d - n" using assms by (simp add: mod_if)
  then show ?thesis using False assms by (simp add: ring_dist_if)
qed

lemma ring_dist_shift:
  assumes "r < n" and "w < n" and "k \<le> ring_dist n r w"
  shows "ring_dist n ((r + k) mod n) w = ring_dist n r w - k"
proof -
  let ?d = "ring_dist n r w"
  have "((r + k) mod n + (?d - k)) mod n = ((r + k) + (?d - k)) mod n"
    by (rule mod_add_left_eq)
  also have "\<dots> = (r + ?d) mod n" using assms(3) by simp
  finally have "w = ((r + k) mod n + (?d - k)) mod n"
    using ring_dist_reach [OF assms(1,2)] by simp
  moreover have "?d < n" using assms(1) by (intro ring_dist_less) simp
  ultimately show ?thesis
    using ring_dist_advance [of "(r + k) mod n" n "?d - k"] assms(1) by simp
qed

subsection \<open>Small facts on words\<close>

text \<open>\<open>int (unat x)\<close>, the promotion of an unsigned value to \<open>int\<close>, is kept as it is.\<close>

declare of_nat_unat [simp del]

lemma word_of_nat_unat [simp]: "word_of_nat (unat x) = x"
  by (simp add: of_nat_unat)

lemma unat_less_u8: "unat (x :: u8) < 256"
  using unsigned_less [of x, where ?'a = nat] by simp

lemma unat_less_u16: "unat (x :: u16) < 65536"
  using unsigned_less [of x, where ?'a = nat] by simp

lemma unat_less_u32: "unat (x :: u32) < 4294967296"
  using unsigned_less [of x, where ?'a = nat] by simp

lemma unat_word_of_int:
  assumes "0 \<le> k" and "k < 2 ^ LENGTH('a)"
  shows "unat (word_of_int k :: 'a::len word) = nat k"
proof -
  obtain m where k: "k = int m" using assms(1) by (rule nonneg_int_cases)
  then have "m < 2 ^ LENGTH('a)" using assms(2) by (metis of_nat_less_numeral_power_cancel_iff)
  then show ?thesis by (simp add: k unat_of_nat)
qed

lemma unat_inc:
  fixes x y :: "'a::len word"
  assumes "x < y"
  shows "unat (x + 1) = Suc (unat x)"
proof -
  have "unat x < unat y" using assms by (simp add: word_less_nat_alt)
  moreover have "unat y < 2 ^ LENGTH('a)" by (rule unsigned_less)
  ultimately have "Suc (unat x) < 2 ^ LENGTH('a)" by linarith
  then show ?thesis by (simp add: unat_word_ariths)
qed

lemma unat_mod_inc:
  fixes x y :: "'a::len word"
  assumes "x < y"
  shows "unat ((x + 1) mod y) = Suc (unat x) mod unat y"
  by (simp add: unat_mod unat_inc [OF assms])

lemma unat_dec:
  fixes y :: "'a::len word"
  assumes "y \<noteq> 0"
  shows "unat (y - 1) = unat y - 1"
  using assms by (simp add: unat_minus_one)

end
