(* ===== verification/Ringbuf.thy ===== *)
theory Ringbuf
  imports QM_Prelude
begin

text \<open>
  The byte ring buffer of \<^verbatim>\<open>utility/ringbuf/qm_ringbuf.c\<close>. The two indices chase each other:
  a byte is written to the cell after \<open>writepoint\<close> and read from the cell after
  \<open>readpoint\<close>, one cell stays free, and equal indices mean empty. The theory shows that the
  buffer implements a bounded FIFO of bytes and packages that as the locale \<open>byte_fifo\<close>, whose
  client lemma (whatever is read is, in order, what was accepted) the other components use.
\<close>

subsection \<open>State\<close>

record qm_ringbuf =
  rb_size :: u32
  readpoint :: u32
  writepoint :: u32
  buffer :: "u8 list option"
  full :: u8

text \<open>The cells behind the \<open>buffer\<close> pointer.\<close>

definition cells :: "qm_ringbuf \<Rightarrow> u8 list" where
  "cells rb = (case buffer rb of None \<Rightarrow> [] | Some b \<Rightarrow> b)"

subsection \<open>Operations\<close>

text \<open>\<open>memset(p, 0, n)\<close> on a buffer of at least \<open>n\<close> cells.\<close>

definition memset0 :: "u8 list \<Rightarrow> nat \<Rightarrow> u8 list" where
  "memset0 b n = replicate n 0 @ drop n b"

definition qm_ringbuf_init ::
  "qm_ringbuf option \<Rightarrow> u8 list option \<Rightarrow> u32 \<Rightarrow> int \<times> qm_ringbuf option" where
  "qm_ringbuf_init ringbuf buff sz =
     (case (ringbuf, buff) of
        (Some rb, Some b) \<Rightarrow>
          if sz = 0 then (0, ringbuf)
          else (QM_EOK, Some (rb\<lparr>buffer := Some (memset0 b (unat sz)), rb_size := sz,
                                readpoint := 0, writepoint := 0, full := 0\<rparr>))
      | _ \<Rightarrow> (0, ringbuf))"

definition qm_ringbuf_flush :: "qm_ringbuf option \<Rightarrow> int \<times> qm_ringbuf option" where
  "qm_ringbuf_flush ringbuf =
     (case ringbuf of
        None \<Rightarrow> (0, ringbuf)
      | Some rb \<Rightarrow>
          (case buffer rb of
             None \<Rightarrow> (0, ringbuf)
           | Some b \<Rightarrow> (QM_EOK, Some (rb\<lparr>readpoint := 0, writepoint := 0,
                                        buffer := Some (memset0 b (unat (rb_size rb))), full := 0\<rparr>))))"

text \<open>
  The loop of \<open>qm_ringbuf_push\<close>: the bytes still to write, and \<open>i\<close>, the number written.
\<close>

fun push_loop :: "qm_ringbuf \<Rightarrow> u8 list \<Rightarrow> nat \<Rightarrow> nat \<times> qm_ringbuf" where
  "push_loop rb [] i = (i, rb)"
| "push_loop rb (d # ds) i =
     (if (writepoint rb + 1) mod rb_size rb = readpoint rb then (i, rb\<lparr>full := 1\<rparr>)
      else
        let wp = (if writepoint rb < rb_size rb - 1 then writepoint rb + 1 else 0)
        in push_loop (rb\<lparr>writepoint := wp, buffer := map_option (\<lambda>b. b[unat wp := d]) (buffer rb)\<rparr>)
             ds (Suc i))"

text \<open>
  \<open>len > ringbuf->size\<close> compares an \<open>int\<close> with an unsigned value, so \<open>len\<close> is converted first.
\<close>

definition qm_ringbuf_push ::
  "qm_ringbuf option \<Rightarrow> u8 list option \<Rightarrow> int \<Rightarrow> int \<times> qm_ringbuf option" where
  "qm_ringbuf_push ringbuf data len =
     (case (ringbuf, data) of
        (Some rb, Some ds) \<Rightarrow>
          if len = 0 then (0, ringbuf)
          else if buffer rb = None then (0, ringbuf)
          else if (word_of_int len :: u32) > rb_size rb then (- QM_EINVAL, ringbuf)
          else (case push_loop rb (take (nat len) ds) 0 of (i, rb') \<Rightarrow> (int i, Some rb'))
      | _ \<Rightarrow> (0, ringbuf))"

text \<open>The loop of \<open>qm_ringbuf_pop\<close>, with the bytes it stores to \<open>data\<close>.\<close>

fun pop_loop :: "qm_ringbuf \<Rightarrow> nat \<Rightarrow> u8 list \<times> qm_ringbuf" where
  "pop_loop rb 0 = ([], rb)"
| "pop_loop rb (Suc k) =
     (if writepoint rb = readpoint rb then ([], rb)
      else
        let rp = (if readpoint rb = rb_size rb - 1 then 0 else readpoint rb + 1)
        in (case pop_loop (rb\<lparr>readpoint := rp, full := 0\<rparr>) k of
              (ds, rb') \<Rightarrow> (cells rb ! unat rp # ds, rb')))"

text \<open>\<open>qm_ringbuf_pop\<close> returns the count, the bytes stored to \<open>data\<close> and the buffer.\<close>

definition qm_ringbuf_pop :: "qm_ringbuf \<Rightarrow> int \<Rightarrow> int \<times> u8 list \<times> qm_ringbuf" where
  "qm_ringbuf_pop rb len = (case pop_loop rb (nat len) of (ds, rb') \<Rightarrow> (int (length ds), ds, rb'))"

definition qm_ringbuf_isempty :: "qm_ringbuf \<Rightarrow> bool" where
  "qm_ringbuf_isempty rb \<longleftrightarrow> writepoint rb = readpoint rb"

definition qm_ringbuf_isfull :: "qm_ringbuf \<Rightarrow> bool" where
  "qm_ringbuf_isfull rb \<longleftrightarrow> full rb \<noteq> 0"

subsection \<open>Invariant and abstraction\<close>

definition rb_inv :: "qm_ringbuf \<Rightarrow> bool" where
  "rb_inv rb \<longleftrightarrow> buffer rb \<noteq> None \<and> length (cells rb) = unat (rb_size rb)
     \<and> readpoint rb < rb_size rb \<and> writepoint rb < rb_size rb"

definition rb_cap :: "qm_ringbuf \<Rightarrow> nat" where
  "rb_cap rb = unat (rb_size rb) - 1"

definition rb_count :: "qm_ringbuf \<Rightarrow> nat" where
  "rb_count rb = ring_dist (unat (rb_size rb)) (unat (readpoint rb)) (unat (writepoint rb))"

definition rb_list :: "qm_ringbuf \<Rightarrow> u8 list" where
  "rb_list rb = ring_seg (cells rb) (Suc (unat (readpoint rb))) (rb_count rb)"

lemma length_rb_list [simp]: "length (rb_list rb) = rb_count rb"
  by (simp add: rb_list_def)

lemma rb_inv_unat:
  assumes "rb_inv rb"
  shows "unat (readpoint rb) < unat (rb_size rb)" and "unat (writepoint rb) < unat (rb_size rb)"
    and "length (cells rb) = unat (rb_size rb)" and "rb_size rb \<noteq> 0"
  using assms by (auto simp: rb_inv_def word_less_nat_alt)

lemma rb_count_le_cap: "rb_inv rb \<Longrightarrow> rb_count rb \<le> rb_cap rb"
  using ring_dist_less [of "unat (rb_size rb)" "unat (readpoint rb)" "unat (writepoint rb)"]
    rb_inv_unat(1) [of rb] unfolding rb_count_def rb_cap_def by linarith

lemma isempty_iff: "rb_inv rb \<Longrightarrow> qm_ringbuf_isempty rb \<longleftrightarrow> rb_list rb = []"
  using rb_inv_unat [of rb]
  by (auto simp: qm_ringbuf_isempty_def rb_list_def rb_count_def ring_dist_0_iff word_unat_eq_iff
      simp flip: length_0_conv)

subsection \<open>One byte in, one byte out\<close>

text \<open>The index step of the code, whichever branch it takes, is the successor modulo the size.\<close>

lemma wp_step:
  assumes "x < (n :: u32)"
  shows "unat (if x < n - 1 then x + 1 else 0) = Suc (unat x) mod unat n"
proof -
  have n: "n \<noteq> 0" and lt: "unat x < unat n" using assms by (auto simp: word_less_nat_alt)
  have "x < n - 1 \<longleftrightarrow> Suc (unat x) < unat n"
    using n lt by (simp add: word_less_nat_alt unat_dec) linarith
  then show ?thesis using lt unat_inc [OF assms] by (auto simp: mod_Suc)
qed

lemma rp_step:
  assumes "x < (n :: u32)"
  shows "unat (if x = n - 1 then 0 else x + 1) = Suc (unat x) mod unat n"
proof -
  have n: "n \<noteq> 0" and lt: "unat x < unat n" using assms by (auto simp: word_less_nat_alt)
  have "x = n - 1 \<longleftrightarrow> Suc (unat x) = unat n"
    using n lt by (simp add: word_unat_eq_iff unat_dec) linarith
  then show ?thesis using lt unat_inc [OF assms] by (auto simp: mod_Suc)
qed

lemma mod_below: "0 < (n::nat) \<Longrightarrow> k mod n < n"
  by simp

definition push1 :: "u8 \<Rightarrow> qm_ringbuf \<Rightarrow> qm_ringbuf" where
  "push1 d rb =
     (let wp = (if writepoint rb < rb_size rb - 1 then writepoint rb + 1 else 0)
      in rb\<lparr>writepoint := wp, buffer := map_option (\<lambda>b. b[unat wp := d]) (buffer rb)\<rparr>)"

definition pop1 :: "qm_ringbuf \<Rightarrow> qm_ringbuf" where
  "pop1 rb = rb\<lparr>readpoint := (if readpoint rb = rb_size rb - 1 then 0 else readpoint rb + 1), full := 0\<rparr>"

lemma push_guard_iff:
  assumes "rb_inv rb"
  shows "(writepoint rb + 1) mod rb_size rb = readpoint rb \<longleftrightarrow> rb_count rb = rb_cap rb"
proof -
  note u = rb_inv_unat [OF assms]
  have "(writepoint rb + 1) mod rb_size rb = readpoint rb
      \<longleftrightarrow> Suc (unat (writepoint rb)) mod unat (rb_size rb) = unat (readpoint rb)"
    using assms by (simp add: rb_inv_def unat_mod_inc word_unat_eq_iff)
  then show ?thesis using u by (simp add: ring_dist_full_iff rb_count_def rb_cap_def)
qed

lemma push1_spec:
  assumes inv: "rb_inv rb" and room: "rb_count rb < rb_cap rb"
  shows "rb_inv (push1 d rb)" and "rb_list (push1 d rb) = rb_list rb @ [d]"
    and "rb_cap (push1 d rb) = rb_cap rb" and "rb_count (push1 d rb) = Suc (rb_count rb)"
proof -
  note u = rb_inv_unat [OF inv]
  let ?n = "unat (rb_size rb)" and ?r = "unat (readpoint rb)" and ?w = "unat (writepoint rb)"
  define wp where "wp = (if writepoint rb < rb_size rb - 1 then writepoint rb + 1 else 0)"
  have wp: "unat wp = Suc ?w mod ?n"
    unfolding wp_def using inv by (intro wp_step) (simp add: rb_inv_def)
  have ne: "Suc ?w mod ?n \<noteq> ?r"
    using room u by (simp add: ring_dist_full_iff rb_count_def rb_cap_def)
  have cnt: "ring_dist ?n ?r (Suc ?w mod ?n) = Suc (rb_count rb)"
    using ne u by (simp add: ring_dist_write rb_count_def)
  have idx: "Suc ?w mod ?n = (Suc ?r + rb_count rb) mod ?n"
    using ring_dist_reach [OF u(1,2)] by (metis add_Suc mod_Suc_eq rb_count_def)
  have cells: "cells (push1 d rb) = (cells rb)[unat wp := d]"
    using inv by (auto simp: push1_def wp_def cells_def rb_inv_def Let_def)
  have flds: "rb_size (push1 d rb) = rb_size rb" "readpoint (push1 d rb) = readpoint rb"
    "writepoint (push1 d rb) = wp" "buffer (push1 d rb) \<noteq> None"
    using inv by (simp_all add: push1_def wp_def Let_def rb_inv_def)
  have "wp < rb_size rb" using wp u by (simp add: word_less_nat_alt mod_below)
  then show "rb_inv (push1 d rb)" using inv by (simp add: rb_inv_def flds cells)
  show c: "rb_count (push1 d rb) = Suc (rb_count rb)" by (simp add: rb_count_def flds wp cnt)
  show "rb_cap (push1 d rb) = rb_cap rb" by (simp add: rb_cap_def flds)
  have "rb_count rb < length (cells rb)" using room u by (simp add: rb_cap_def)
  then show "rb_list (push1 d rb) = rb_list rb @ [d]"
    unfolding rb_list_def c cells flds wp idx
    using ring_seg_update_end [of "rb_count rb" "cells rb" "Suc ?r" d] u(3) by simp
qed

lemma pop1_spec:
  assumes inv: "rb_inv rb" and ne: "rb_count rb \<noteq> 0"
  shows "rb_inv (pop1 rb)" and "rb_list rb = cells rb ! unat (readpoint (pop1 rb)) # rb_list (pop1 rb)"
    and "rb_cap (pop1 rb) = rb_cap rb" and "rb_count rb = Suc (rb_count (pop1 rb))"
proof -
  note u = rb_inv_unat [OF inv]
  let ?n = "unat (rb_size rb)" and ?r = "unat (readpoint rb)" and ?w = "unat (writepoint rb)"
  have rp: "unat (readpoint (pop1 rb)) = Suc ?r mod ?n"
    using inv rp_step [of "readpoint rb" "rb_size rb"] by (simp add: pop1_def rb_inv_def)
  have flds: "rb_size (pop1 rb) = rb_size rb" "writepoint (pop1 rb) = writepoint rb"
    "buffer (pop1 rb) = buffer rb" "cells (pop1 rb) = cells rb"
    by (simp_all add: pop1_def cells_def)
  have "?r \<noteq> ?w" using ne u by (simp add: rb_count_def ring_dist_0_iff)
  then show c: "rb_count rb = Suc (rb_count (pop1 rb))"
    using ring_dist_read [OF u(1,2)] by (simp add: rb_count_def flds rp)
  have "readpoint (pop1 rb) < rb_size rb" using rp u by (simp add: word_less_nat_alt mod_below)
  then show "rb_inv (pop1 rb)" using inv by (simp add: rb_inv_def flds)
  show "rb_cap (pop1 rb) = rb_cap rb" by (simp add: rb_cap_def flds)
  show "rb_list rb = cells rb ! unat (readpoint (pop1 rb)) # rb_list (pop1 rb)"
    unfolding rb_list_def flds rp c ring_seg_Suc u(3) [symmetric]
    using ring_seg_mod [of "cells rb" "Suc (Suc ?r)"] ring_seg_mod [of "cells rb" "Suc (Suc ?r mod length (cells rb))"]
    by (metis mod_Suc_eq)
qed

subsection \<open>The loops\<close>

lemma push_loop_Cons:
  "push_loop rb (d # ds) i =
     (if (writepoint rb + 1) mod rb_size rb = readpoint rb then (i, rb\<lparr>full := 1\<rparr>)
      else push_loop (push1 d rb) ds (Suc i))"
  by (simp add: push1_def Let_def)

lemma pop_loop_Suc:
  "pop_loop rb (Suc k) =
     (if writepoint rb = readpoint rb then ([], rb)
      else (case pop_loop (pop1 rb) k of
              (ds, rb') \<Rightarrow> (cells rb ! unat (readpoint (pop1 rb)) # ds, rb')))"
  by (simp add: pop1_def Let_def)

declare push_loop.simps(2) [simp del] pop_loop.simps(2) [simp del]

lemma full_upd [simp]:
  "rb_inv (rb\<lparr>full := x\<rparr>) = rb_inv rb" "rb_list (rb\<lparr>full := x\<rparr>) = rb_list rb"
  "rb_cap (rb\<lparr>full := x\<rparr>) = rb_cap rb" "rb_count (rb\<lparr>full := x\<rparr>) = rb_count rb"
  by (simp_all add: rb_inv_def rb_list_def rb_cap_def rb_count_def cells_def)

text \<open>The \<open>full\<close> flag is only raised on a buffer that has no room.\<close>

definition full_ok :: "qm_ringbuf \<Rightarrow> bool" where
  "full_ok rb \<longleftrightarrow> (full rb \<noteq> 0 \<longrightarrow> rb_count rb = rb_cap rb)"

lemma push_loop_spec:
  assumes "rb_inv rb" and "push_loop rb ds i = (k, rb')"
  shows "k = i + min (length ds) (rb_cap rb - rb_count rb) \<and> rb_inv rb'
    \<and> rb_list rb' = rb_list rb @ take (k - i) ds \<and> rb_cap rb' = rb_cap rb
    \<and> rb_size rb' = rb_size rb \<and> (full_ok rb \<longrightarrow> full_ok rb')"
  using assms
proof (induction ds arbitrary: rb i)
  case Nil
  then show ?case by simp
next
  case (Cons d ds)
  show ?case
  proof (cases "rb_count rb = rb_cap rb")
    case True
    then show ?thesis using Cons.prems push_guard_iff [of rb]
      by (auto simp: push_loop_Cons full_ok_def)
  next
    case False
    then have room: "rb_count rb < rb_cap rb" using rb_count_le_cap [OF Cons.prems(1)] by simp
    note p1 = push1_spec [OF Cons.prems(1) room, of d]
    have run: "push_loop (push1 d rb) ds (Suc i) = (k, rb')"
      using Cons.prems False push_guard_iff [of rb] by (simp add: push_loop_Cons)
    have f: "full (push1 d rb) = full rb" "rb_size (push1 d rb) = rb_size rb"
      by (simp_all add: push1_def Let_def)
    have ok: "full_ok rb \<Longrightarrow> full_ok (push1 d rb)" using False by (simp add: full_ok_def f)
    note ih = Cons.IH [OF p1(1) run]
    then have k: "k = i + min (length (d # ds)) (rb_cap rb - rb_count rb)"
      using room p1(3,4) by simp
    moreover have "take (k - i) (d # ds) = d # take (k - Suc i) ds"
      using k room by (simp add: take_Cons')
    ultimately show ?thesis using ih p1(2,3) f ok by simp
  qed
qed

lemma pop_loop_spec:
  assumes "rb_inv rb" and "pop_loop rb n = (ds, rb')"
  shows "ds = take n (rb_list rb) \<and> rb_inv rb' \<and> rb_list rb' = drop n (rb_list rb)
    \<and> rb_cap rb' = rb_cap rb \<and> (full_ok rb \<longrightarrow> full_ok rb')"
  using assms
proof (induction n arbitrary: rb ds)
  case 0
  then show ?case by simp
next
  case (Suc n)
  show ?case
  proof (cases "rb_count rb = 0")
    case True
    then have "rb_list rb = []" by (simp flip: length_0_conv)
    moreover have "writepoint rb = readpoint rb"
      using calculation isempty_iff [OF Suc.prems(1)] by (simp add: qm_ringbuf_isempty_def)
    ultimately show ?thesis using Suc.prems by (auto simp: pop_loop_Suc)
  next
    case False
    note p1 = pop1_spec [OF Suc.prems(1) False]
    have "writepoint rb \<noteq> readpoint rb"
      using False isempty_iff [OF Suc.prems(1)] length_rb_list [of rb]
      by (auto simp: qm_ringbuf_isempty_def simp del: length_rb_list)
    then obtain ds' where run: "pop_loop (pop1 rb) n = (ds', rb')"
      and ds: "ds = cells rb ! unat (readpoint (pop1 rb)) # ds'"
      using Suc.prems(2) by (auto simp: pop_loop_Suc split: prod.splits)
    have "full_ok (pop1 rb)" by (simp add: full_ok_def pop1_def)
    then show ?thesis using Suc.IH [OF p1(1) run] p1(2,3) ds by simp
  qed
qed

subsection \<open>Bounded byte FIFOs\<close>

text \<open>
  What a client of the buffer relies on: a write appends the prefix it reports, whatever fits
  is accepted in full, and a read returns and removes the oldest bytes.
\<close>

datatype io = Put "u8 list" | Get nat

text \<open>
  A run of reads and writes, with the bytes accepted and the bytes returned, in order.
\<close>

fun fifo_run ::
  "('q \<Rightarrow> u8 list \<Rightarrow> nat \<times> 'q) \<Rightarrow> ('q \<Rightarrow> nat \<Rightarrow> u8 list \<times> 'q) \<Rightarrow> io list \<Rightarrow> 'q
    \<Rightarrow> u8 list \<times> u8 list \<times> 'q" where
  "fifo_run put get [] q = ([], [], q)"
| "fifo_run put get (Put ds # ops) q =
     (case put q ds of (k, q') \<Rightarrow>
        (case fifo_run put get ops q' of (a, r, q'') \<Rightarrow> (take k ds @ a, r, q'')))"
| "fifo_run put get (Get n # ops) q =
     (case get q n of (bs, q') \<Rightarrow>
        (case fifo_run put get ops q' of (a, r, q'') \<Rightarrow> (a, bs @ r, q'')))"

locale byte_fifo =
  fixes put :: "'q \<Rightarrow> u8 list \<Rightarrow> nat \<times> 'q"
    and get :: "'q \<Rightarrow> nat \<Rightarrow> u8 list \<times> 'q"
    and content :: "'q \<Rightarrow> u8 list"
    and cap :: "'q \<Rightarrow> nat"
    and invar :: "'q \<Rightarrow> bool"
  assumes put_invar: "invar q \<Longrightarrow> put q ds = (k, q') \<Longrightarrow> invar q' \<and> cap q' = cap q"
    and put_content: "invar q \<Longrightarrow> put q ds = (k, q') \<Longrightarrow> content q' = content q @ take k ds"
    and put_fits: "invar q \<Longrightarrow> put q ds = (k, q') \<Longrightarrow> length ds \<le> cap q - length (content q)
      \<Longrightarrow> k = length ds"
    and get_invar: "invar q \<Longrightarrow> get q n = (bs, q') \<Longrightarrow> invar q' \<and> cap q' = cap q"
    and get_content: "invar q \<Longrightarrow> get q n = (bs, q')
      \<Longrightarrow> bs = take n (content q) \<and> content q' = drop n (content q)"
    and bounded: "invar q \<Longrightarrow> length (content q) \<le> cap q"
begin

lemma run_in_order:
  "invar q \<Longrightarrow> fifo_run put get ops q = (a, r, q')
    \<Longrightarrow> content q @ a = r @ content q' \<and> invar q' \<and> cap q' = cap q"
proof (induction ops arbitrary: q a r)
  case Nil
  then show ?case by simp
next
  case (Cons x ops)
  show ?case
  proof (cases x)
    case (Put ds)
    obtain k q1 where p: "put q ds = (k, q1)" by fastforce
    obtain a' where run: "fifo_run put get ops q1 = (a', r, q')" and a: "a = take k ds @ a'"
      using Cons.prems(2) Put p by (auto split: prod.splits)
    show ?thesis
      using Cons.IH [OF _ run] put_invar [OF Cons.prems(1) p] put_content [OF Cons.prems(1) p] a
      by simp
  next
    case (Get n)
    obtain bs q1 where g: "get q n = (bs, q1)" by fastforce
    obtain r' where run: "fifo_run put get ops q1 = (a, r', q')" and r: "r = bs @ r'"
      using Cons.prems(2) Get g by (auto split: prod.splits)
    have "content q = bs @ content q1" using get_content [OF Cons.prems(1) g] by simp
    then show ?thesis
      using Cons.IH [OF _ run] get_invar [OF Cons.prems(1) g] r by simp
  qed
qed

end

subsection \<open>The ring buffer is a bounded byte FIFO\<close>

text \<open>The two calls as a client makes them, on a non-\<open>NULL\<close> buffer and with \<open>len\<close> the data's length.\<close>

definition rb_write :: "qm_ringbuf \<Rightarrow> u8 list \<Rightarrow> nat \<times> qm_ringbuf" where
  "rb_write rb ds =
     (case qm_ringbuf_push (Some rb) (Some ds) (int (length ds)) of (r, rb') \<Rightarrow> (nat r, the rb'))"

definition rb_read :: "qm_ringbuf \<Rightarrow> nat \<Rightarrow> u8 list \<times> qm_ringbuf" where
  "rb_read rb n = snd (qm_ringbuf_pop rb (int n))"

lemma push_Some:
  assumes "rb_inv rb" and "len \<noteq> 0"
  shows "qm_ringbuf_push (Some rb) (Some ds) len =
    (if (word_of_int len :: u32) > rb_size rb then (- QM_EINVAL, Some rb)
     else (case push_loop rb (take (nat len) ds) 0 of (i, rb') \<Rightarrow> (int i, Some rb')))"
  using assms by (auto simp: qm_ringbuf_push_def rb_inv_def)

lemma rb_write_cases:
  assumes "rb_inv rb" and "rb_write rb ds = (k, rb')"
  shows "k = 0 \<and> rb' = rb \<or> push_loop rb ds 0 = (k, rb')"
proof (cases "ds = []")
  case True
  then show ?thesis using assms by (simp add: rb_write_def qm_ringbuf_push_def)
next
  case False
  then show ?thesis using assms
    by (auto simp: rb_write_def push_Some errno split: if_splits prod.splits)
qed

lemma rb_write_fits:
  assumes inv: "rb_inv rb" and w: "rb_write rb ds = (k, rb')"
    and fits: "length ds \<le> rb_cap rb - rb_count rb"
  shows "k = length ds"
proof (cases "ds = []")
  case True
  then show ?thesis using w by (simp add: rb_write_def qm_ringbuf_push_def)
next
  case False
  have lt: "length ds < unat (rb_size rb)"
    using fits False rb_inv_unat [OF inv] by (simp add: rb_cap_def)
  have "length ds < 2 ^ 32" using lt unat_less_u32 [of "rb_size rb"] by simp
  then have "unat (word_of_int (int (length ds)) :: u32) = length ds"
    by (simp add: unat_of_nat)
  then have "\<not> (word_of_int (int (length ds)) :: u32) > rb_size rb"
    using lt by (simp add: word_less_nat_alt)
  then have "push_loop rb ds 0 = (k, rb')"
    using w False inv by (auto simp: rb_write_def push_Some split: prod.splits)
  then show ?thesis using push_loop_spec [OF inv] fits by fastforce
qed

interpretation rbq: byte_fifo rb_write rb_read rb_list rb_cap rb_inv
proof (unfold_locales, goal_cases)
  case (1 q ds k q')
  then show ?case using rb_write_cases [OF 1] push_loop_spec [OF 1(1)] by fastforce
next
  case (2 q ds k q')
  then show ?case using rb_write_cases [OF 2] push_loop_spec [OF 2(1)] by fastforce
next
  case (3 q ds k q')
  then show ?case by (auto intro: rb_write_fits)
next
  case (4 q n bs q')
  then show ?case using pop_loop_spec [OF 4(1)]
    by (fastforce simp: rb_read_def qm_ringbuf_pop_def split: prod.splits)
next
  case (5 q n bs q')
  then show ?case using pop_loop_spec [OF 5(1)]
    by (fastforce simp: rb_read_def qm_ringbuf_pop_def split: prod.splits)
next
  case (6 q)
  then show ?case by (simp add: rb_count_le_cap)
qed

lemma init_spec:
  assumes "sz \<noteq> 0" and "length b = unat sz"
  obtains rb' where "qm_ringbuf_init (Some rb) (Some b) sz = (QM_EOK, Some rb')"
    and "rb_inv rb'" and "rb_list rb' = []" and "rb_cap rb' = unat sz - 1" and "full_ok rb'"
  using assms
  by (auto simp: qm_ringbuf_init_def rb_inv_def cells_def memset0_def rb_list_def rb_count_def
      rb_cap_def full_ok_def ring_dist_def word_neq_0_conv)

subsection \<open>Properties\<close>

lemmas pop_loop_numeral = pop_loop.simps(2) [of _ "pred_numeral k" for k, folded numeral_eq_Suc]

definition rb_example :: qm_ringbuf where
  "rb_example = \<lparr>rb_size = 4, readpoint = 2, writepoint = 3, buffer = Some [0, 0, 0, 7], full = 0\<rparr>"

lemma rb_example_inv [simp]: "rb_inv rb_example"
  by (simp add: rb_example_def rb_inv_def cells_def)

lemma rb_example_abs [simp]: "rb_size rb_example = 4" "rb_cap rb_example = 3" "rb_count rb_example = 1" "rb_list rb_example = [7]"
  by (simp_all add: rb_example_def rb_cap_def rb_count_def rb_list_def cells_def ring_dist_def ring_seg_def)

text \<open>C26: \<open>qm_ringbuf_push\<close> on a well-formed buffer appends the longest prefix of the data that
  fits, reports its length, and keeps the buffer well formed and its capacity unchanged; the
  \<open>full\<close> flag is raised only when no room is left.\<close>

theorem ringbuf_push_spec:
  assumes "rb_inv rb" and "0 < len" and "len \<le> int (length ds)" and "nat len \<le> unat (rb_size rb)"
  shows "\<exists>rb'. qm_ringbuf_push (Some rb) (Some ds) len
      = (int (min (nat len) (rb_cap rb - rb_count rb)), Some rb')
    \<and> rb_inv rb' \<and> rb_cap rb' = rb_cap rb
    \<and> rb_list rb' = rb_list rb @ take (min (nat len) (rb_cap rb - rb_count rb)) ds
    \<and> (full_ok rb \<longrightarrow> full_ok rb')"
proof -
  obtain k rb' where run: "push_loop rb (take (nat len) ds) 0 = (k, rb')" by fastforce
  have "nat len < 2 ^ 32" using assms(4) unat_less_u32 [of "rb_size rb"] by simp
  then have "unat (word_of_int len :: u32) = nat len"
    using assms(2) by (intro unat_word_of_int) simp_all
  then have "\<not> (word_of_int len :: u32) > rb_size rb"
    using assms(4) by (simp add: word_less_nat_alt)
  then have "qm_ringbuf_push (Some rb) (Some ds) len = (int k, Some rb')"
    using assms run by (simp add: push_Some)
  then show ?thesis using push_loop_spec [OF assms(1) run] assms(2,3) by (auto simp: min_def)
qed

theorem ringbuf_push_spec_witness:
  "\<exists>rb'. qm_ringbuf_push (Some rb_example) (Some [1, 2, 3]) 3 = (2, Some rb') \<and> rb_list rb' = [7, 1, 2]"
  using ringbuf_push_spec [OF rb_example_inv, of 3 "[1, 2, 3]"] by auto

text \<open>C27: \<open>qm_ringbuf_pop\<close> on a well-formed buffer returns the oldest bytes, at most \<open>len\<close>,
  removes exactly those, and keeps the buffer well formed.\<close>

theorem ringbuf_pop_spec:
  assumes "rb_inv rb" and "qm_ringbuf_pop rb len = (n, ds, rb')"
  shows "ds = take (nat len) (rb_list rb) \<and> n = int (min (nat len) (rb_count rb))
    \<and> rb_list rb' = drop (nat len) (rb_list rb) \<and> rb_inv rb' \<and> rb_cap rb' = rb_cap rb
    \<and> (full_ok rb \<longrightarrow> full_ok rb')"
  using assms pop_loop_spec [OF assms(1)]
  by (fastforce simp: qm_ringbuf_pop_def min.commute split: prod.splits)

theorem ringbuf_pop_spec_witness:
  "rb_inv rb_example \<and> fst (qm_ringbuf_pop rb_example 2) = 1 \<and> fst (snd (qm_ringbuf_pop rb_example 2)) = [7]"
  using ringbuf_pop_spec [OF rb_example_inv, of 2] by (simp add: prod_eq_iff)

text \<open>C9: however reads and writes on a ring buffer are interleaved, the bytes returned by the
  reads are, in order, a prefix of the bytes stored before plus the bytes accepted by the writes,
  and what is missing is still in the buffer: nothing is lost, duplicated or reordered.\<close>

theorem ringbuf_stream:
  assumes "rb_inv rb" and "fifo_run rb_write rb_read ops rb = (accepted, returned, rb')"
  shows "rb_list rb @ accepted = returned @ rb_list rb' \<and> rb_inv rb' \<and> rb_cap rb' = rb_cap rb"
  using assms by (rule rbq.run_in_order)

theorem ringbuf_stream_witness:
  "rb_inv rb_example \<and> (\<exists>rb'. fifo_run rb_write rb_read [Put [1, 2, 3], Get 2] rb_example
     = ([1, 2], [7, 1], rb') \<and> rb_list rb' = [2])"
proof -
  let ?r = "fifo_run rb_write rb_read [Put [1, 2, 3], Get 2] rb_example"
  have "fst ?r = [1, 2]" "fst (snd ?r) = [7, 1]"
    by (simp_all add: rb_write_def rb_read_def qm_ringbuf_push_def qm_ringbuf_pop_def cells_def
        rb_example_def push_loop.simps pop_loop.simps pop_loop_numeral)
  then obtain rb' where r: "?r = ([1, 2], [7, 1], rb')" by (metis prod.collapse)
  show ?thesis using r ringbuf_stream [OF rb_example_inv r] by simp
qed

end
