(* ===== verification/Circbuf_Var.thy ===== *)
theory Circbuf_Var
  imports QM_Prelude "HOL-Library.Signed_Division"
begin

text \<open>
  The circular buffer of variable-length elements of
  \<^verbatim>\<open>components/qm_eventbus_static/circbuf_var.c\<close>: every element is stored as a length byte
  followed by its bytes, wrapping at the end of the buffer. The theory shows that the buffer
  implements a FIFO of byte strings, bounded by the space the encoded elements take, and
  packages the contract as the locale \<open>elem_fifo\<close>. The build option that clears bytes on pop
  (\<open>CRICBUF_CLEAN_ON_POP\<close>) is off.
\<close>

subsection \<open>State\<close>

record circbuf_var =
  push_index :: u16
  pop_index :: u16
  cb_size :: u16
  elem_cnt :: "16 word"   \<comment> \<open>\<open>int16_t\<close>: read through \<open>sint\<close>\<close>
  cb_buffer :: "u8 list"

subsection \<open>Operations\<close>

definition circbuf_var_init ::
  "circbuf_var option \<Rightarrow> u8 list option \<Rightarrow> int \<Rightarrow> int \<times> circbuf_var option" where
  "circbuf_var_init circbuf buf size_arg =
     (case (circbuf, buf) of
        (Some cb, Some b) \<Rightarrow>
          if size_arg \<le> 0 then (- QM_EINVAL, circbuf)
          else (0, Some (cb\<lparr>push_index := 0, pop_index := 0, cb_size := word_of_int size_arg,
                           elem_cnt := 0, cb_buffer := b\<rparr>))
      | _ \<Rightarrow> (- QM_EINVAL, circbuf))"

text \<open>\<open>idx = (idx + k) % size\<close>: computed in \<open>int\<close>, stored in a \<open>uint16_t\<close>.\<close>

definition idx_add :: "u16 \<Rightarrow> u16 \<Rightarrow> nat \<Rightarrow> u16" where
  "idx_add n i k = word_of_nat ((unat i + k) mod unat n)"

fun pop_bytes :: "u8 list \<Rightarrow> u16 \<Rightarrow> u16 \<Rightarrow> nat \<Rightarrow> u8 list \<times> u16" where
  "pop_bytes b n i 0 = ([], i)"
| "pop_bytes b n i (Suc k) =
     (case pop_bytes b n (idx_add n i 1) k of (bs, j) \<Rightarrow> (b ! unat i # bs, j))"

text \<open>\<open>circbuf_var_pop\<close>: the result, the bytes stored to \<open>elem\<close>, and the buffer.\<close>

definition circbuf_var_pop ::
  "circbuf_var option \<Rightarrow> bool \<Rightarrow> int \<Rightarrow> bool \<Rightarrow> int \<times> u8 list \<times> circbuf_var option" where
  "circbuf_var_pop circ_buf elem_nonnull size_arg read_only =
     (case circ_buf of
        None \<Rightarrow> (- QM_EINVAL, [], circ_buf)
      | Some cb \<Rightarrow>
          if \<not> elem_nonnull \<or> cb_size cb = 0 then (- QM_EINVAL, [], circ_buf)
          else if elem_cnt cb = 0 then (- QM_ENOMEM, [], circ_buf)
          else
            let old_pop_index = pop_index cb;
                elem_size = int (unat (cb_buffer cb ! unat (pop_index cb)));
                pop_size = (if size_arg < elem_size then size_arg else elem_size);
                first = idx_add (cb_size cb) (pop_index cb) 1
            in (case pop_bytes (cb_buffer cb) (cb_size cb) first (nat pop_size) of (bs, j) \<Rightarrow>
                  (pop_size, bs,
                   Some (if read_only then cb\<lparr>pop_index := old_pop_index\<rparr>
                         else cb\<lparr>pop_index := j, elem_cnt := elem_cnt cb - 1\<rparr>))))"

definition circbuf_var_drop_cur_elem :: "circbuf_var option \<Rightarrow> int \<times> circbuf_var option" where
  "circbuf_var_drop_cur_elem circbuf =
     (case circbuf of
        None \<Rightarrow> (- QM_EINVAL, circbuf)
      | Some cb \<Rightarrow>
          if elem_cnt cb = 0 \<or> cb_size cb = 0 then (- QM_EINVAL, circbuf)
          else
            let header = cb_buffer cb ! unat (pop_index cb)
            in (0, Some (cb\<lparr>pop_index := idx_add (cb_size cb) (pop_index cb) (unat header + 1),
                           elem_cnt := elem_cnt cb - 1\<rparr>)))"

definition circbuf_var_cur_elem_size :: "circbuf_var option \<Rightarrow> int" where
  "circbuf_var_cur_elem_size circbuf =
     (case circbuf of
        None \<Rightarrow> - QM_EINVAL
      | Some cb \<Rightarrow>
          if elem_cnt cb = 0 \<or> cb_size cb = 0 then - QM_EINVAL
          else int (unat (cb_buffer cb ! (unat (pop_index cb) mod unat (cb_size cb)))) + 1)"

text \<open>C's \<open>%\<close> truncates towards zero, hence \<open>smod\<close>.\<close>

definition circbuf_var_size :: "circbuf_var \<Rightarrow> int" where
  "circbuf_var_size cb =
     (int (unat (push_index cb)) - int (unat (pop_index cb)) + int (unat (cb_size cb)))
       smod int (unat (cb_size cb))"

definition circbuf_var_free_space :: "circbuf_var \<Rightarrow> int" where
  "circbuf_var_free_space cb =
     (let total = (int (unat (push_index cb)) - int (unat (pop_index cb)) + int (unat (cb_size cb)))
                    smod int (unat (cb_size cb))
      in int (unat (cb_size cb)) - total - 1)"

definition circbuf_var_elem_counts :: "circbuf_var \<Rightarrow> int" where
  "circbuf_var_elem_counts cb = sint (elem_cnt cb)"

fun push_bytes :: "u8 list \<Rightarrow> u16 \<Rightarrow> u16 \<Rightarrow> u8 list \<Rightarrow> u8 list \<times> u16" where
  "push_bytes b n i [] = (b, i)"
| "push_bytes b n i (x # xs) = push_bytes (b[unat i := x]) n (idx_add n i 1) xs"

definition circbuf_var_push_elem ::
  "circbuf_var option \<Rightarrow> u8 list option \<Rightarrow> u8 \<Rightarrow> int \<times> circbuf_var option" where
  "circbuf_var_push_elem circ_buf elem size_arg =
     (case (circ_buf, elem) of
        (Some cb, Some e) \<Rightarrow>
          if size_arg = 0 \<or> cb_size cb = 0 then (- QM_EINVAL, circ_buf)
          else if circbuf_var_free_space cb < int (unat size_arg) + 1 then (- QM_ENOMEM, circ_buf)
          else
            let b0 = (cb_buffer cb)[unat (push_index cb) mod unat (cb_size cb) := size_arg];
                first = idx_add (cb_size cb) (push_index cb) 1
            in (case push_bytes b0 (cb_size cb) first (take (unat size_arg) e) of (b, j) \<Rightarrow>
                  (0, Some (cb\<lparr>cb_buffer := b, push_index := j, elem_cnt := elem_cnt cb + 1\<rparr>)))
      | _ \<Rightarrow> (- QM_EINVAL, circ_buf))"

subsection \<open>Invariant and abstraction\<close>

definition enc :: "u8 list \<Rightarrow> u8 list" where
  "enc e = word_of_nat (length e) # e"

definition encs :: "u8 list list \<Rightarrow> u8 list" where
  "encs es = concat (map enc es)"

definition cb_wf :: "circbuf_var \<Rightarrow> bool" where
  "cb_wf cb \<longleftrightarrow> length (cb_buffer cb) = unat (cb_size cb)
     \<and> push_index cb < cb_size cb \<and> pop_index cb < cb_size cb"

definition cb_used :: "circbuf_var \<Rightarrow> nat" where
  "cb_used cb = ring_dist (unat (cb_size cb)) (unat (pop_index cb)) (unat (push_index cb))"

definition cb_bytes :: "circbuf_var \<Rightarrow> u8 list" where
  "cb_bytes cb = ring_seg (cb_buffer cb) (unat (pop_index cb)) (cb_used cb)"

text \<open>\<open>cb_repr cb es\<close>: the buffer holds exactly the elements \<open>es\<close>, oldest first.\<close>

definition cb_repr :: "circbuf_var \<Rightarrow> u8 list list \<Rightarrow> bool" where
  "cb_repr cb es \<longleftrightarrow> cb_wf cb \<and> cb_bytes cb = encs es \<and> elem_cnt cb = word_of_nat (length es)
     \<and> (\<forall>e \<in> set es. 0 < length e \<and> length e < 256)"

lemma encs_simps [simp]: "encs [] = []" "encs (e # es) = enc e @ encs es"
  "encs (es @ es') = encs es @ encs es'"
  by (simp_all add: encs_def)

lemma length_enc [simp]: "length (enc e) = Suc (length e)"
  by (simp add: enc_def)

lemma cb_wf_unat:
  assumes "cb_wf cb"
  shows "unat (pop_index cb) < unat (cb_size cb)" and "unat (push_index cb) < unat (cb_size cb)"
    and "length (cb_buffer cb) = unat (cb_size cb)" and "cb_size cb \<noteq> 0"
  using assms by (auto simp: cb_wf_def word_less_nat_alt)

lemma length_cb_bytes [simp]: "length (cb_bytes cb) = cb_used cb"
  by (simp add: cb_bytes_def)

lemma cb_used_less: "cb_wf cb \<Longrightarrow> cb_used cb < unat (cb_size cb)"
  using cb_wf_unat(1) [of cb] by (simp add: cb_used_def ring_dist_less)

lemma length_encs_ge: "(\<forall>e \<in> set es. 0 < length e \<and> length e < 256) \<Longrightarrow> 2 * length es \<le> length (encs es)"
proof (induction es)
  case (Cons e es)
  then show ?case by (cases e) auto
qed simp

text \<open>An element takes two bytes at least, so the 16-bit counter never overflows.\<close>

lemma cb_repr_count:
  assumes "cb_repr cb es"
  shows "length es < 2 ^ 15" and "sint (elem_cnt cb) = int (length es)"
    and "elem_cnt cb = 0 \<longleftrightarrow> es = []"
proof -
  have wf: "cb_wf cb" using assms by (simp add: cb_repr_def)
  have "2 * length es \<le> length (cb_bytes cb)"
    using assms length_encs_ge [of es] unfolding cb_repr_def by metis
  also have "\<dots> < 65536"
    using cb_used_less [OF wf] unat_less_u16 [of "cb_size cb"] by simp
  finally show lt: "length es < 2 ^ 15" by simp
  then show "sint (elem_cnt cb) = int (length es)"
    using assms by (simp add: cb_repr_def signed_of_nat signed_take_bit_int_eq_self)
  then show "elem_cnt cb = 0 \<longleftrightarrow> es = []"
    by (metis length_0_conv of_nat_eq_0_iff signed_0 signed_word_eqI)
qed

subsection \<open>Index arithmetic\<close>

lemma unat_idx_add: "n \<noteq> 0 \<Longrightarrow> unat (idx_add n i k) = (unat i + k) mod unat n"
proof -
  assume "n \<noteq> 0"
  then have "(unat i + k) mod unat n < unat n" by (simp add: unat_gt_0)
  then have "(unat i + k) mod unat n < 2 ^ 16" using unat_less_u16 [of n] by simp
  then show ?thesis by (simp add: idx_add_def unat_of_nat)
qed

lemma smod_nonneg: "0 \<le> (a::int) \<Longrightarrow> 0 < b \<Longrightarrow> a smod b = a mod b"
  by (cases "a = 0") (simp_all add: signed_modulo_int_def sgn_if)

lemma used_int:
  assumes "cb_wf cb"
  shows "circbuf_var_size cb = int (cb_used cb)"
proof -
  note u = cb_wf_unat [OF assms]
  have pos: "0 < int (unat (cb_size cb))" using u(1) by linarith
  have eq: "int (unat (push_index cb)) - int (unat (pop_index cb)) + int (unat (cb_size cb))
      = int (unat (push_index cb) + unat (cb_size cb) - unat (pop_index cb))"
    using u by simp
  show ?thesis
    unfolding circbuf_var_size_def cb_used_def ring_dist_def eq
    using smod_nonneg [OF of_nat_0_le_iff pos] by (simp only: zmod_int)
qed

lemma free_space_int:
  assumes "cb_wf cb"
  shows "circbuf_var_free_space cb = int (unat (cb_size cb) - 1 - cb_used cb)"
  using used_int [OF assms] cb_used_less [OF assms]
  by (simp add: circbuf_var_free_space_def circbuf_var_size_def Let_def)

lemma pop_bytes_seg:
  assumes "n \<noteq> 0" and "length b = unat n" and "pop_bytes b n i k = (bs, j)" and "i < n"
  shows "bs = ring_seg b (unat i) k \<and> unat j = (unat i + k) mod unat n"
  using assms(3,4)
proof (induction k arbitrary: i bs)
  case 0
  then show ?case by (simp add: word_less_nat_alt)
next
  case (Suc k)
  obtain bs' where run: "pop_bytes b n (idx_add n i 1) k = (bs', j)" and bs: "bs = b ! unat i # bs'"
    using Suc.prems(1) by (auto split: prod.splits)
  have i': "unat (idx_add n i (Suc 0)) = Suc (unat i) mod unat n"
    by (simp add: unat_idx_add assms(1))
  have "idx_add n i 1 < n"
    unfolding word_less_nat_alt One_nat_def i' using assms(1) by (simp add: unat_gt_0)
  from Suc.IH [OF run this] show ?case
    using bs Suc.prems(2) assms(2) ring_seg_mod [of b "Suc (unat i)" k]
    by (simp add: i' ring_seg_Suc word_less_nat_alt mod_add_left_eq)
qed

lemma push_bytes_seg:
  assumes "n \<noteq> 0" and "length b = unat n" and "unat i = (p + u) mod unat n"
    and "u + length xs < unat n" and "push_bytes b n i xs = (b', j)"
  shows "ring_seg b' p (u + length xs) = ring_seg b p u @ xs \<and> length b' = unat n
    \<and> unat j = (p + u + length xs) mod unat n"
  using assms(2-5)
proof (induction xs arbitrary: b i u)
  case Nil
  then show ?case by simp
next
  case (Cons x xs)
  have i': "unat (idx_add n i (Suc 0)) = (p + Suc u) mod unat n"
    using Cons.prems(2) by (simp add: unat_idx_add assms(1) mod_Suc_eq)
  have seg: "ring_seg (b[unat i := x]) p (Suc u) = ring_seg b p u @ [x]"
    using ring_seg_update_end [of u b p x] Cons.prems by simp
  show ?case
    using Cons.IH [of "b[unat i := x]" "idx_add n i 1" "Suc u"] Cons.prems i' seg by simp
qed

subsection \<open>The operations on represented elements\<close>

definition cb_space :: "circbuf_var \<Rightarrow> nat" where
  "cb_space cb = unat (cb_size cb) - 1 - cb_used cb"

lemma push_elem_ok:
  assumes rep: "cb_repr cb es" and sz: "sz \<noteq> 0" and len: "unat sz \<le> length e"
    and room: "Suc (unat sz) \<le> cb_space cb"
  shows "\<exists>cb'. circbuf_var_push_elem (Some cb) (Some e) sz = (0, Some cb')
    \<and> cb_repr cb' (es @ [take (unat sz) e]) \<and> cb_space cb' = cb_space cb - Suc (unat sz)
    \<and> cb_size cb' = cb_size cb"
proof -
  let ?n = "unat (cb_size cb)" and ?p = "unat (pop_index cb)" and ?x = "take (unat sz) e"
  have wf: "cb_wf cb" using rep by (simp add: cb_repr_def)
  note u = cb_wf_unat [OF wf]
  have fit: "cb_used cb + length (sz # ?x) < ?n"
    using room len u by (simp add: cb_space_def)
  obtain b j where run: "push_bytes (cb_buffer cb) (cb_size cb) (push_index cb) (sz # ?x) = (b, j)"
    by fastforce
  have "unat (push_index cb) = (?p + cb_used cb) mod ?n"
    using ring_dist_reach [OF u(1,2)] by (simp add: cb_used_def)
  from push_bytes_seg [OF u(4,3) this fit run]
  have seg: "ring_seg b ?p (cb_used cb + Suc (unat sz)) = cb_bytes cb @ sz # ?x"
    and lb: "length b = ?n" and j: "unat j = (?p + (cb_used cb + Suc (unat sz))) mod ?n"
    using len by (simp_all add: cb_bytes_def add.assoc)
  define cb' where "cb' = cb\<lparr>cb_buffer := b, push_index := j, elem_cnt := elem_cnt cb + 1\<rparr>"
  have used: "cb_used cb' = cb_used cb + Suc (unat sz)"
    using ring_dist_advance [OF u(1), of "cb_used cb + Suc (unat sz)"] fit len
    by (simp add: cb_used_def cb'_def j)
  have "j < cb_size cb" using j u(1) by (simp add: word_less_nat_alt)
  then have "cb_wf cb'" using wf lb by (simp add: cb_wf_def cb'_def)
  moreover have "cb_bytes cb' = encs (es @ [?x])"
    using seg rep len unfolding cb_bytes_def [of cb'] used by (simp add: cb'_def cb_repr_def enc_def)
  moreover have "0 < unat sz" using sz by (simp add: unat_gt_0)
  ultimately have "cb_repr cb' (es @ [?x])"
    using rep len unat_less_u8 [of sz] by (auto simp: cb_repr_def cb'_def)
  moreover have "circbuf_var_push_elem (Some cb) (Some e) sz = (0, Some cb')"
    using sz u run room free_space_int [OF wf]
    by (auto simp: circbuf_var_push_elem_def Let_def cb'_def cb_space_def split: prod.splits)
  ultimately show ?thesis using used by (intro exI [of _ cb']) (simp add: cb_space_def, simp add: cb'_def)
qed

lemma push_elem_full:
  assumes "cb_wf cb" and "sz \<noteq> 0" and "cb_space cb < Suc (unat sz)"
  shows "circbuf_var_push_elem (Some cb) (Some e) sz = (- QM_ENOMEM, Some cb)"
  using assms cb_wf_unat(4) [OF assms(1)] free_space_int [OF assms(1)]
  by (simp add: circbuf_var_push_elem_def cb_space_def)

text \<open>The length byte of the oldest element, and where its bytes lie.\<close>

lemma head_elem:
  assumes "cb_repr cb (e # es)"
  shows "unat (cb_buffer cb ! unat (pop_index cb)) = length e"
    and "Suc (length e) \<le> cb_used cb" and "elem_cnt cb \<noteq> 0"
    and "ring_seg (cb_buffer cb) (Suc (unat (pop_index cb))) (length e) = e"
    and "ring_seg (cb_buffer cb) (unat (pop_index cb) + Suc (length e)) (cb_used cb - Suc (length e)) = encs es"
proof -
  let ?b = "cb_buffer cb" and ?p = "unat (pop_index cb)"
  have wf: "cb_wf cb" and bytes: "ring_seg ?b ?p (cb_used cb) = enc e @ encs es"
    and le: "length e < 256"
    using assms by (simp_all add: cb_repr_def cb_bytes_def)
  note u = cb_wf_unat [OF wf]
  show used: "Suc (length e) \<le> cb_used cb" using arg_cong [OF bytes, of length] by simp
  have pre: "ring_seg ?b ?p (Suc (length e)) = enc e"
    using take_ring_seg [OF used, of ?b ?p] bytes by simp
  then show "unat (?b ! ?p) = length e" and "ring_seg ?b (Suc ?p) (length e) = e"
    using u le by (simp_all add: ring_seg_Suc enc_def unat_of_nat)
  show "ring_seg ?b (?p + Suc (length e)) (cb_used cb - Suc (length e)) = encs es"
    using drop_ring_seg [OF used, of ?b ?p] bytes by simp
  show "elem_cnt cb \<noteq> 0" using cb_repr_count(3) [OF assms] by simp
qed

lemma advance_repr:
  assumes rep: "cb_repr cb (e # es)" and j: "unat j = (unat (pop_index cb) + Suc (length e)) mod unat (cb_size cb)"
  shows "cb_repr (cb\<lparr>pop_index := j, elem_cnt := elem_cnt cb - 1\<rparr>) es"
    and "cb_space (cb\<lparr>pop_index := j, elem_cnt := elem_cnt cb - 1\<rparr>) = cb_space cb + Suc (length e)"
proof -
  let ?cb = "cb\<lparr>pop_index := j, elem_cnt := elem_cnt cb - 1\<rparr>"
  have wf: "cb_wf cb" using rep by (simp add: cb_repr_def)
  note u = cb_wf_unat [OF wf] and h = head_elem [OF rep]
  have used: "cb_used ?cb = cb_used cb - Suc (length e)"
    using ring_dist_shift [OF u(1,2), of "Suc (length e)"] h(2) by (simp add: cb_used_def j)
  have "j < cb_size cb" using j u(1) by (simp add: word_less_nat_alt)
  then have "cb_wf ?cb" using wf by (simp add: cb_wf_def)
  moreover have "cb_bytes ?cb = encs es"
    unfolding cb_bytes_def used using h(5) u(3)
      ring_seg_mod [of "cb_buffer cb" "unat (pop_index cb) + Suc (length e)"] by (simp add: j)
  ultimately show "cb_repr ?cb es" using rep by (simp add: cb_repr_def)
  show "cb_space ?cb = cb_space cb + Suc (length e)"
    using used h(2) cb_used_less [OF wf] by (simp add: cb_space_def)
qed

lemma drop_elem_ok:
  assumes "cb_repr cb (e # es)"
  shows "\<exists>cb'. circbuf_var_drop_cur_elem (Some cb) = (0, Some cb') \<and> cb_repr cb' es
    \<and> cb_space cb' = cb_space cb + Suc (length e)"
proof -
  have nz: "cb_size cb \<noteq> 0" using assms cb_wf_unat(4) [of cb] by (simp add: cb_repr_def)
  let ?j = "idx_add (cb_size cb) (pop_index cb) (Suc (length e))"
  have "unat ?j = (unat (pop_index cb) + Suc (length e)) mod unat (cb_size cb)"
    by (simp add: unat_idx_add nz)
  from advance_repr [OF assms this] show ?thesis
    using head_elem [OF assms] nz by (simp add: circbuf_var_drop_cur_elem_def)
qed

text \<open>Reading an element, as a peek and as a pop into a buffer that is large enough.\<close>

lemma pop_bytes_head:
  assumes "cb_repr cb (e # es)" and "k \<le> length e"
    and "pop_bytes (cb_buffer cb) (cb_size cb) (idx_add (cb_size cb) (pop_index cb) 1) k = (bs, j)"
  shows "bs = take k e" and "unat j = (unat (pop_index cb) + Suc k) mod unat (cb_size cb)"
proof -
  have wf: "cb_wf cb" using assms(1) by (simp add: cb_repr_def)
  note u = cb_wf_unat [OF wf]
  let ?i = "idx_add (cb_size cb) (pop_index cb) 1"
  have i: "unat ?i = Suc (unat (pop_index cb)) mod unat (cb_size cb)"
    using u by (simp add: unat_idx_add)
  then have "?i < cb_size cb" using u(1) by (simp add: word_less_nat_alt)
  note seg = pop_bytes_seg [OF u(4,3) assms(3) this]
  show "bs = take k e"
    using seg head_elem(4) [OF assms(1)] take_ring_seg [OF assms(2)] u(3)
      ring_seg_mod [of "cb_buffer cb" "Suc (unat (pop_index cb))" k] by (metis i)
  show "unat j = (unat (pop_index cb) + Suc k) mod unat (cb_size cb)"
    using seg unfolding i by (simp add: mod_add_left_eq)
qed

lemma peek_ok:
  assumes "cb_repr cb (e # es)" and "0 \<le> sz"
  shows "circbuf_var_pop (Some cb) True sz True = (min sz (int (length e)), take (nat sz) e, Some cb)"
proof -
  have nz: "cb_size cb \<noteq> 0" using assms(1) cb_wf_unat(4) [of cb] by (simp add: cb_repr_def)
  obtain bs j where run: "pop_bytes (cb_buffer cb) (cb_size cb) (idx_add (cb_size cb) (pop_index cb) 1)
      (nat (min sz (int (length e)))) = (bs, j)" by fastforce
  have "bs = take (nat (min sz (int (length e)))) e"
    by (rule pop_bytes_head(1) [OF assms(1) _ run]) simp
  then have "bs = take (nat sz) e" by (cases "sz \<le> int (length e)") simp_all
  then show ?thesis
    using head_elem [OF assms(1)] nz run
    by (auto simp: circbuf_var_pop_def Let_def min_def split: prod.splits if_splits)
qed

lemma pop_ok:
  assumes "cb_repr cb (e # es)" and "int (length e) \<le> sz"
  shows "\<exists>cb'. circbuf_var_pop (Some cb) True sz False = (int (length e), e, Some cb') \<and> cb_repr cb' es"
proof -
  have nz: "cb_size cb \<noteq> 0" using assms(1) cb_wf_unat(4) [of cb] by (simp add: cb_repr_def)
  obtain bs j where run: "pop_bytes (cb_buffer cb) (cb_size cb) (idx_add (cb_size cb) (pop_index cb) 1)
      (length e) = (bs, j)" by fastforce
  note pb = pop_bytes_head [OF assms(1) order_refl run]
  show ?thesis
    using advance_repr(1) [OF assms(1) pb(2)] head_elem [OF assms(1)] nz run pb(1) assms(2)
    by (auto simp: circbuf_var_pop_def Let_def split: prod.splits)
qed

subsection \<open>FIFOs of byte strings\<close>

text \<open>
  The contract a client relies on. \<open>space\<close> counts the bytes still free; an element costs its
  length and one byte more.
\<close>

locale elem_fifo =
  fixes push :: "'q \<Rightarrow> u8 list \<Rightarrow> int \<times> 'q"
    and peek :: "'q \<Rightarrow> nat \<Rightarrow> int \<times> u8 list"
    and drop1 :: "'q \<Rightarrow> int \<times> 'q"
    and count :: "'q \<Rightarrow> int"
    and space :: "'q \<Rightarrow> nat"
    and repr :: "'q \<Rightarrow> u8 list list \<Rightarrow> bool"
  assumes count_repr: "repr q es \<Longrightarrow> count q = int (length es)"
    and elem_len: "repr q es \<Longrightarrow> e \<in> set es \<Longrightarrow> 0 < length e \<and> length e < 256"
    and push_fits: "repr q es \<Longrightarrow> 0 < length e \<Longrightarrow> length e < 256 \<Longrightarrow> Suc (length e) \<le> space q
      \<Longrightarrow> \<exists>q'. push q e = (0, q') \<and> repr q' (es @ [e]) \<and> space q' = space q - Suc (length e)"
    and push_refused: "repr q es \<Longrightarrow> 0 < length e \<Longrightarrow> length e < 256 \<Longrightarrow> space q < Suc (length e)
      \<Longrightarrow> push q e = (- QM_ENOMEM, q)"
    and peek_repr: "repr q (e # es) \<Longrightarrow> peek q n = (int (min n (length e)), take n e)"
    and drop_repr: "repr q (e # es)
      \<Longrightarrow> \<exists>q'. drop1 q = (0, q') \<and> repr q' es \<and> space q' = space q + Suc (length e)"
begin

text \<open>Elements that all fit are all queued, in order.\<close>

lemma push_list_fits:
  assumes "repr q es" and "\<forall>e \<in> set xs. 0 < length e \<and> length e < 256"
    and "sum_list (map (\<lambda>e. Suc (length e)) xs) \<le> space q"
  shows "repr (fold (\<lambda>e q. snd (push q e)) xs q) (es @ xs)"
  using assms
proof (induction xs arbitrary: q es)
  case Nil
  then show ?case by simp
next
  case (Cons e xs)
  then obtain q' where "push q e = (0, q')" and "repr q' (es @ [e])" and "space q' = space q - Suc (length e)"
    using push_fits [of q es e] by auto
  then show ?case using Cons.IH [of q' "es @ [e]"] Cons.prems by simp
qed

text \<open>Peeking and dropping until the count is zero returns every element, oldest first.\<close>

lemma drain_in_order:
  assumes "repr q es"
  shows "\<exists>q'. ((\<lambda>(out, q). (out @ [snd (peek q 255)], snd (drop1 q))) ^^ length es) (pre, q) = (pre @ es, q')
    \<and> repr q' [] \<and> count q' = 0"
  using assms
proof (induction es arbitrary: q pre)
  case Nil
  then show ?case using count_repr by fastforce
next
  case (Cons e es)
  obtain q' where d: "drop1 q = (0, q')" "repr q' es"
    using drop_repr [OF Cons.prems] by blast
  have "length e \<le> 255" using elem_len [OF Cons.prems, of e] by simp
  then have "snd (peek q 255) = e" using peek_repr [OF Cons.prems, of 255] by simp
  then show ?case
    using Cons.IH [OF d(2), of "pre @ [e]"] d(1) by (simp add: funpow_Suc_right del: funpow.simps)
qed

end

text \<open>The calls as a client makes them, on a non-\<open>NULL\<close> buffer.\<close>

definition cb_push :: "circbuf_var \<Rightarrow> u8 list \<Rightarrow> int \<times> circbuf_var" where
  "cb_push cb e =
     (case circbuf_var_push_elem (Some cb) (Some e) (word_of_nat (length e)) of (r, cb') \<Rightarrow> (r, the cb'))"

definition cb_peek :: "circbuf_var \<Rightarrow> nat \<Rightarrow> int \<times> u8 list" where
  "cb_peek cb n = (case circbuf_var_pop (Some cb) True (int n) True of (r, bs, _) \<Rightarrow> (r, bs))"

definition cb_drop :: "circbuf_var \<Rightarrow> int \<times> circbuf_var" where
  "cb_drop cb = (case circbuf_var_drop_cur_elem (Some cb) of (r, cb') \<Rightarrow> (r, the cb'))"

lemma len_word:
  assumes "0 < length e" and "length e < 256"
  shows "(word_of_nat (length e) :: u8) \<noteq> 0" and "unat (word_of_nat (length e) :: u8) = length e"
proof -
  show u: "unat (word_of_nat (length e) :: u8) = length e" using assms(2) by (simp add: unat_of_nat)
  show "(word_of_nat (length e) :: u8) \<noteq> 0" using u assms(1) by (metis unat_0 less_irrefl)
qed

interpretation cbq: elem_fifo cb_push cb_peek cb_drop circbuf_var_elem_counts cb_space cb_repr
proof (unfold_locales, goal_cases)
  case (1 q es)
  then show ?case by (simp add: circbuf_var_elem_counts_def cb_repr_count)
next
  case (2 q es e)
  then show ?case by (simp add: cb_repr_def)
next
  case (3 q es e)
  then show ?case using push_elem_ok [OF 3(1) len_word(1) [OF 3(2,3)], of e]
    by (auto simp: cb_push_def len_word(2))
next
  case (4 q es e)
  then show ?case using push_elem_full [OF _ len_word(1) [OF 4(2,3)], of q e]
    by (auto simp: cb_push_def len_word(2) cb_repr_def)
next
  case (5 q e es n)
  then show ?case using peek_ok [OF 5, of "int n"] by (simp add: cb_peek_def of_nat_min)
next
  case (6 q e es)
  then show ?case using drop_elem_ok [OF 6] by (auto simp: cb_drop_def)
qed

lemma init_repr:
  assumes "0 < n" and "n < 65536" and "length b = nat n"
  shows "\<exists>cb'. circbuf_var_init (Some cb) (Some b) n = (0, Some cb') \<and> cb_repr cb' []
    \<and> cb_space cb' = nat n - 1 \<and> unat (cb_size cb') = nat n"
proof -
  have u: "unat (word_of_int n :: u16) = nat n" using assms(1,2) by (intro unat_word_of_int) simp_all
  moreover have "(word_of_int n :: u16) > 0" using u assms(1) by (simp add: word_less_nat_alt)
  ultimately show ?thesis using assms
    by (simp add: circbuf_var_init_def cb_repr_def cb_wf_def cb_bytes_def cb_used_def cb_space_def ring_dist_def)
qed

subsection \<open>Properties\<close>

text \<open>C18: a queue of variable-length elements gives back exactly what was put in: pushing any
  byte strings of 1 to 255 bytes whose encoded size fits the free space, then peeking and dropping
  until the buffer is empty, returns the elements already queued and the new ones, in order.\<close>

theorem circbuf_fifo:
  assumes "cb_repr cb es" and "\<forall>e \<in> set xs. 0 < length e \<and> length e < 256"
    and "sum_list (map (\<lambda>e. Suc (length e)) xs) \<le> cb_space cb"
  shows "\<exists>cb'. ((\<lambda>(out, q). (out @ [snd (cb_peek q 255)], snd (cb_drop q))) ^^ length (es @ xs))
      ([], fold (\<lambda>e q. snd (cb_push q e)) xs cb) = (es @ xs, cb') \<and> circbuf_var_elem_counts cb' = 0"
  using cbq.drain_in_order [OF cbq.push_list_fits [OF assms], of "[]"] by auto

definition cb_example :: circbuf_var where
  "cb_example = \<lparr>push_index = 6, pop_index = 6, cb_size = 8, elem_cnt = 0, cb_buffer = [0, 0, 0, 0, 0, 0, 0, 0]\<rparr>"

lemma cb_example_repr: "cb_repr cb_example []" and cb_example_space: "cb_space cb_example = 7"
  by (simp_all add: cb_example_def cb_repr_def cb_wf_def cb_bytes_def cb_used_def cb_space_def ring_dist_def)

theorem circbuf_fifo_witness:
  "\<exists>cb'. ((\<lambda>(out, q). (out @ [snd (cb_peek q 255)], snd (cb_drop q))) ^^ 2)
      ([], fold (\<lambda>e q. snd (cb_push q e)) [[1, 2, 3], [9]] cb_example) = ([[1, 2, 3], [9]], cb')
    \<and> circbuf_var_elem_counts cb' = 0"
  using circbuf_fifo [OF cb_example_repr, of "[[1, 2, 3], [9]]"] cb_example_space
  by (simp add: numeral_2_eq_2)

text \<open>C28: \<open>circbuf_var_push_elem\<close> on a well-formed buffer either queues the first \<open>size\<close> bytes of
  the element behind the others, or, exactly when the element and its length byte do not fit,
  returns \<open>-QM_ENOMEM\<close> and changes nothing.\<close>

theorem circbuf_push_spec:
  assumes "cb_repr cb es" and "sz \<noteq> 0" and "unat sz \<le> length e"
  shows "if Suc (unat sz) \<le> cb_space cb
    then \<exists>cb'. circbuf_var_push_elem (Some cb) (Some e) sz = (0, Some cb')
           \<and> cb_repr cb' (es @ [take (unat sz) e]) \<and> cb_space cb' = cb_space cb - Suc (unat sz)
    else circbuf_var_push_elem (Some cb) (Some e) sz = (- QM_ENOMEM, Some cb)"
  using push_elem_ok [OF assms] push_elem_full [OF _ assms(2), of cb e] assms(1)
  by (auto simp: cb_repr_def)

theorem circbuf_push_spec_witness:
  "\<exists>cb'. circbuf_var_push_elem (Some cb_example) (Some [5, 6, 7]) 2 = (0, Some cb') \<and> cb_repr cb' [[5, 6]]"
  using circbuf_push_spec [OF cb_example_repr, of 2 "[5, 6, 7]"] cb_example_space by auto

text \<open>The 16-bit element counter never overflows: a well-formed buffer holds fewer than 2^15
  elements, and \<open>circbuf_var_elem_counts\<close> returns their exact number.\<close>

theorem circbuf_count_exact:
  assumes "cb_repr cb es"
  shows "circbuf_var_elem_counts cb = int (length es) \<and> length es < 2 ^ 15"
  using assms cb_repr_count(1) [OF assms] by (simp add: cbq.count_repr)

theorem circbuf_count_exact_witness: "cb_repr cb_example [] \<and> circbuf_var_elem_counts cb_example = 0"
  using circbuf_count_exact [OF cb_example_repr] cb_example_repr by simp

text \<open>Popping into a buffer shorter than the element leaves \<open>pop_index\<close> inside the element,
  so the next element is read with a data byte as its length. With the elements [1, 2, 3] and [9] queued,
  popping one byte and then peeking returns the two bytes [3, 1] in place of [9].\<close>

theorem circbuf_short_pop_desync:
  "let q = snd (cb_push (snd (cb_push cb_example [1, 2, 3])) [9]);
       q' = the (snd (snd (circbuf_var_pop (Some q) True 1 False)))
   in circbuf_var_elem_counts q' = 1 \<and> cb_peek q' 255 = (2, [3, 1])"
  by code_simp

end
