(* ===== verification/Eventbus.thy ===== *)
theory Eventbus
  imports Circbuf_Var
begin

unbundle bit_operations_syntax

text \<open>
  The static event bus of \<^verbatim>\<open>components/qm_eventbus_static/qm_eventbus_static.c\<close>: a bus owns two
  element queues, one for normal and one for emergency events (bit 7 of the event id), and a table
  that maps module and event ids to handlers. An event is a byte string whose first two bytes are
  the module id and the event id.

  Handlers are application code: they are the parameter \<open>hdl\<close> of the model, a function on the
  whole state, so a handler may itself post or peek. The state carries a ghost list \<open>calls\<close> of the
  handler invocations made so far; no operation reads it. The event table of a bus is constant
  memory that only \<open>qm_eventbus_init\<close> replaces, so a dispatch loop works on the table found at its
  start. A bus number is a natural number: the code does not check for negative ones.
\<close>

subsection \<open>State\<close>

record 'h table_entry =
  te_module :: u8
  te_event :: u8
  te_handler :: 'h

record 'h eventbus =
  event_queue :: circbuf_var
  emerge_event_queue :: circbuf_var
  event_table :: "'h table_entry list option"

record ('h, 's) sys =
  buses :: "'h eventbus list"       \<comment> \<open>\<open>_eventbus\<close>, of \<open>CONFIG_QM_EVENTBUS_MAX_BUS_NUM\<close> entries\<close>
  calls :: "('h \<times> nat \<times> u8 list) list"
  app :: 's

type_synonym ('h, 's) handler = "'h \<Rightarrow> nat \<Rightarrow> u8 list \<Rightarrow> ('h, 's) sys \<Rightarrow> ('h, 's) sys"

definition NULL_MODULE_ID :: u8 where "NULL_MODULE_ID = 0"
definition ALL_EVENT :: u8 where "ALL_EVENT = 0xFF"
definition EVENT_ID :: "u8 \<Rightarrow> u8" where "EVENT_ID e = e AND 0x7F"
definition EMERGENCY_EVENT :: "u8 \<Rightarrow> u8" where "EMERGENCY_EVENT e = e OR 0x80"
definition IS_EMERGE_EVENT :: "u8 \<Rightarrow> bool" where "IS_EMERGE_EVENT e \<longleftrightarrow> e AND 0x80 \<noteq> 0"

definition upd_bus :: "nat \<Rightarrow> ('h eventbus \<Rightarrow> 'h eventbus) \<Rightarrow> ('h, 's) sys \<Rightarrow> ('h, 's) sys" where
  "upd_bus b f s = s\<lparr>buses := (buses s)[b := f (buses s ! b)]\<rparr>"

definition get_queue :: "bool \<Rightarrow> 'h eventbus \<Rightarrow> circbuf_var" where
  "get_queue emerge bus = (if emerge then emerge_event_queue bus else event_queue bus)"

definition set_queue :: "bool \<Rightarrow> circbuf_var \<Rightarrow> 'h eventbus \<Rightarrow> 'h eventbus" where
  "set_queue emerge q bus = (if emerge then bus\<lparr>emerge_event_queue := q\<rparr> else bus\<lparr>event_queue := q\<rparr>)"

subsection \<open>Operations\<close>

text \<open>
  The two queues share one caller-supplied buffer: the normal queue takes its front, the emergency
  queue the rest. The results of \<open>circbuf_var_init\<close> are ignored.
\<close>

definition emerge_size :: "int \<Rightarrow> int \<Rightarrow> int" where
  "emerge_size sz percent =
     (let n = (if percent > 0 then sz * percent div 100 else 0)
      in if n mod 4 \<noteq> 0 then (n div 4 + 1) * 4 else n)"

definition qm_eventbus_init ::
  "nat \<Rightarrow> u8 list option \<Rightarrow> int \<Rightarrow> 'h table_entry list option \<Rightarrow> int \<Rightarrow> ('h, 's) sys \<Rightarrow> int \<times> ('h, 's) sys" where
  "qm_eventbus_init bus_id buf sz tbl percent s =
     (if bus_id \<ge> length (buses s) \<or> buf = None \<or> sz \<le> 0 \<or> tbl = None then (- QM_EINVAL, s)
      else if sz mod 4 \<noteq> 0 then (- QM_EINVAL, s)
      else
        let m = the buf;
            e = emerge_size sz percent;
            init = (\<lambda>q b n. the (snd (circbuf_var_init (Some q) (Some b) n)))
        in (0, upd_bus bus_id (\<lambda>bus. bus\<lparr>
                 event_table := tbl,
                 event_queue := init (event_queue bus) (take (nat (sz - e)) m) (sz - e),
                 emerge_event_queue := init (emerge_event_queue bus) (take (nat e) (drop (nat (sz - e)) m)) e\<rparr>) s))"

text \<open>A table ends at the first entry with module id 0.\<close>

definition live_table :: "'h table_entry list \<Rightarrow> 'h table_entry list" where
  "live_table tbl = takeWhile (\<lambda>t. te_module t \<noteq> NULL_MODULE_ID) tbl"

definition entry_matches :: "u8 list \<Rightarrow> 'h table_entry \<Rightarrow> bool" where
  "entry_matches ev t \<longleftrightarrow> te_module t = ev ! 0
     \<and> (te_event t = ALL_EVENT \<or> EVENT_ID (te_event t) = EVENT_ID (ev ! 1))"

definition qm_eventbus_post_event ::
  "nat \<Rightarrow> u8 list option \<Rightarrow> int \<Rightarrow> ('h, 's) sys \<Rightarrow> int \<times> ('h, 's) sys" where
  "qm_eventbus_post_event bus_id ev sz s =
     (if bus_id \<ge> length (buses s) \<or> ev = None \<or> sz \<le> 0 then (- QM_EINVAL, s)
      else
        let bus = buses s ! bus_id; e = the ev
        in case event_table bus of
             None \<Rightarrow> (- QM_ENOENT, s)
           | Some tbl \<Rightarrow>
               if \<not> list_ex (entry_matches e) (live_table tbl) then (- QM_ENOENT, s)
               else
                 let em = IS_EMERGE_EVENT (e ! 1)
                 in (case circbuf_var_push_elem (Some (get_queue em bus)) (Some e) (word_of_int sz) of
                       (r, q) \<Rightarrow> (r, upd_bus bus_id (set_queue em (the q)) s)))"

text \<open>Calling every matching handler of a table, in table order.\<close>

fun run_handlers ::
  "('h, 's) handler \<Rightarrow> nat \<Rightarrow> u8 list \<Rightarrow> 'h table_entry list \<Rightarrow> ('h, 's) sys \<Rightarrow> ('h, 's) sys" where
  "run_handlers hdl b ev [] s = s"
| "run_handlers hdl b ev (t # ts) s =
     run_handlers hdl b ev ts
       (if entry_matches ev t
        then hdl (te_handler t) b ev (s\<lparr>calls := calls s @ [(te_handler t, b, ev)]\<rparr>)
        else s)"

definition table_of :: "nat \<Rightarrow> ('h, 's) sys \<Rightarrow> 'h table_entry list" where
  "table_of b s = live_table (the (event_table (buses s ! b)))"

definition drop_cur :: "bool \<Rightarrow> nat \<Rightarrow> ('h, 's) sys \<Rightarrow> ('h, 's) sys" where
  "drop_cur em b s =
     upd_bus b (set_queue em (the (snd (circbuf_var_drop_cur_elem (Some (get_queue em (buses s ! b))))))) s"

text \<open>
  One of the two \<open>while\<close> loops of \<open>qm_eventbus_process_events\<close>: read the event header without
  removing the event, call the handlers, then remove the oldest event. A handler may post events,
  so the loop need not end: \<open>None\<close> when the fuel runs out.
\<close>

fun process_loop :: "('h, 's) handler \<Rightarrow> bool \<Rightarrow> nat \<Rightarrow> nat \<Rightarrow> ('h, 's) sys \<Rightarrow> ('h, 's) sys option" where
  "process_loop hdl em b 0 s = None"
| "process_loop hdl em b (Suc fuel) s =
     (let q = get_queue em (buses s ! b)
      in if circbuf_var_elem_counts q > 0
         then
           let ev = fst (snd (circbuf_var_pop (Some q) True 2 True));
               s' = run_handlers hdl b ev (table_of b s) s
           in process_loop hdl em b fuel (drop_cur em b s')
         else Some s)"

definition qm_eventbus_process_events ::
  "('h, 's) handler \<Rightarrow> nat \<Rightarrow> nat \<Rightarrow> ('h, 's) sys \<Rightarrow> (int \<times> ('h, 's) sys) option" where
  "qm_eventbus_process_events hdl fuel bus_id s =
     (if bus_id \<ge> length (buses s) then Some (- QM_EINVAL, s)
      else if event_table (buses s ! bus_id) = None then Some (- QM_ENOENT, s)
      else
        case process_loop hdl True bus_id fuel s of
          None \<Rightarrow> None
        | Some s1 \<Rightarrow>
            (case process_loop hdl False bus_id fuel s1 of
               None \<Rightarrow> None
             | Some s2 \<Rightarrow>
                 Some (circbuf_var_elem_counts (event_queue (buses s2 ! bus_id))
                       + circbuf_var_elem_counts (emerge_event_queue (buses s2 ! bus_id)), s2)))"

text \<open>Returns the result and the bytes stored to \<open>data\<close>.\<close>

definition qm_eventbus_peek_event_data ::
  "nat \<Rightarrow> u8 list \<Rightarrow> bool \<Rightarrow> int \<Rightarrow> ('h, 's) sys \<Rightarrow> int \<times> u8 list" where
  "qm_eventbus_peek_event_data bus_id ev data_nonnull sz s =
     (if bus_id \<ge> length (buses s) \<or> \<not> data_nonnull \<or> sz \<le> 0 then (- QM_EINVAL, [])
      else
        case circbuf_var_pop (Some (get_queue (IS_EMERGE_EVENT (ev ! 1)) (buses s ! bus_id))) True sz True of
          (r, bs, _) \<Rightarrow> (r, bs))"

definition qm_eventbus_event_counts :: "nat \<Rightarrow> int \<Rightarrow> ('h, 's) sys \<Rightarrow> int" where
  "qm_eventbus_event_counts bus_id type s =
     (if bus_id \<ge> length (buses s) then - QM_EINVAL
      else
        let normal_counts = circbuf_var_elem_counts (event_queue (buses s ! bus_id));
            emerge_counts = circbuf_var_elem_counts (emerge_event_queue (buses s ! bus_id))
        in if type = 1 then normal_counts
           else if type = 2 then emerge_counts
           else if type = 3 then normal_counts + emerge_counts
           else - QM_EINVAL)"

definition qm_eventbus_call_event ::
  "('h, 's) handler \<Rightarrow> nat \<Rightarrow> u8 list option \<Rightarrow> int \<Rightarrow> ('h, 's) sys \<Rightarrow> int \<times> ('h, 's) sys" where
  "qm_eventbus_call_event hdl bus_id ev sz s =
     (if bus_id \<ge> length (buses s) \<or> ev = None \<or> sz \<le> 0 then (- QM_EINVAL, s)
      else if event_table (buses s ! bus_id) = None then (- QM_ENOENT, s)
      else
        let (r, s1) = (if sz > 2 then qm_eventbus_post_event bus_id ev sz s else (0, s))
        in if r < 0 then (r, s1)
           else
             let s2 = run_handlers hdl bus_id (the ev) (table_of bus_id s1) s1
             in (0, if sz > 2 then drop_cur (IS_EMERGE_EVENT (the ev ! 1)) bus_id s2 else s2))"

subsection \<open>Frame facts\<close>

lemma queue_simps [simp]:
  "get_queue em (set_queue em q bus) = q"
  "get_queue (\<not> em) (set_queue em q bus) = get_queue (\<not> em) bus"
  "get_queue em (set_queue (\<not> em) q bus) = get_queue em bus"
  "event_table (set_queue em q bus) = event_table bus"
  by (cases em; simp add: get_queue_def set_queue_def)+

lemma upd_bus_simps [simp]:
  "length (buses (upd_bus b f s)) = length (buses s)"
  "calls (upd_bus b f s) = calls s"
  "b < length (buses s) \<Longrightarrow> buses (upd_bus b f s) ! b = f (buses s ! b)"
  "c \<noteq> b \<Longrightarrow> buses (upd_bus b f s) ! c = buses s ! c"
  by (simp_all add: upd_bus_def)

text \<open>Handlers that leave the buses alone (they may peek, and change the application's state).\<close>

definition quiet :: "('h, 's) handler \<Rightarrow> bool" where
  "quiet hdl \<longleftrightarrow> (\<forall>h b ev s. buses (hdl h b ev s) = buses s \<and> calls (hdl h b ev s) = calls s)"

definition delivered :: "nat \<Rightarrow> 'h table_entry list \<Rightarrow> u8 list \<Rightarrow> ('h \<times> nat \<times> u8 list) list" where
  "delivered b tbl ev = map (\<lambda>t. (te_handler t, b, ev)) (filter (entry_matches ev) tbl)"

lemma run_handlers_quiet:
  assumes "quiet hdl"
  shows "buses (run_handlers hdl b ev tbl s) = buses s"
    and "calls (run_handlers hdl b ev tbl s) = calls s @ delivered b tbl ev"
  using assms by (induction tbl arbitrary: s) (auto simp: quiet_def delivered_def)

text \<open>\<open>holds em b es s\<close>: queue \<open>em\<close> of bus \<open>b\<close> holds the events \<open>es\<close>.\<close>

definition holds :: "bool \<Rightarrow> nat \<Rightarrow> u8 list list \<Rightarrow> ('h, 's) sys \<Rightarrow> bool" where
  "holds em b es s \<longleftrightarrow> b < length (buses s) \<and> cb_repr (get_queue em (buses s ! b)) es"

text \<open>What an operation on one queue of one bus leaves as it was.\<close>

definition frame :: "bool \<Rightarrow> nat \<Rightarrow> ('h, 's) sys \<Rightarrow> ('h, 's) sys \<Rightarrow> bool" where
  "frame em b s s' \<longleftrightarrow> length (buses s') = length (buses s)
     \<and> get_queue (\<not> em) (buses s' ! b) = get_queue (\<not> em) (buses s ! b)
     \<and> event_table (buses s' ! b) = event_table (buses s ! b)
     \<and> (\<forall>c. c \<noteq> b \<longrightarrow> buses s' ! c = buses s ! c)"

lemma frame_refl [simp]: "frame em b s s"
  by (simp add: frame_def)

lemma frame_trans: "frame em b s t \<Longrightarrow> frame em b t u \<Longrightarrow> frame em b s u"
  by (simp add: frame_def)

lemma frame_same_buses: "buses s' = buses s \<Longrightarrow> frame em b s s'"
  by (simp add: frame_def)

lemma frame_table: "frame em b s s' \<Longrightarrow> table_of b s' = table_of b s"
  by (simp add: frame_def table_of_def)

lemma frame_holds: "frame em b s s' \<Longrightarrow> holds (\<not> em) b es s' = holds (\<not> em) b es s"
  by (simp add: frame_def holds_def)

lemma drop_cur_holds:
  assumes "holds em b (e # es) s"
  shows "holds em b es (drop_cur em b s)" and "frame em b s (drop_cur em b s)"
    and "calls (drop_cur em b s) = calls s"
proof -
  obtain q where "circbuf_var_drop_cur_elem (Some (get_queue em (buses s ! b))) = (0, Some q)"
    and "cb_repr q es"
    using assms drop_elem_ok unfolding holds_def by blast
  then show "holds em b es (drop_cur em b s)" and "frame em b s (drop_cur em b s)"
    and "calls (drop_cur em b s) = calls s"
    using assms by (simp_all add: holds_def drop_cur_def frame_def)
qed

subsection \<open>Draining a queue\<close>

lemma entry_matches_take2: "2 \<le> length e \<Longrightarrow> entry_matches (take 2 e) = entry_matches e"
  by (rule ext) (simp add: entry_matches_def)

lemma process_step:
  assumes "holds em b (e # es) s"
  shows "process_loop hdl em b (Suc fuel) s =
    process_loop hdl em b fuel (drop_cur em b (run_handlers hdl b (take 2 e) (table_of b s) s))"
  using assms cbq.count_repr [of "get_queue em (buses s ! b)" "e # es"]
    peek_ok [of "get_queue em (buses s ! b)" e es 2]
  by (simp add: holds_def Let_def)

lemma process_done:
  assumes "holds em b [] s"
  shows "process_loop hdl em b (Suc fuel) s = Some s"
  using assms cbq.count_repr [of "get_queue em (buses s ! b)" "[]"] by (simp add: holds_def)

lemma process_loop_quiet:
  assumes "quiet hdl" and "holds em b es s" and "length es < fuel"
  shows "\<exists>s'. process_loop hdl em b fuel s = Some s' \<and> holds em b [] s' \<and> frame em b s s'
    \<and> calls s' = calls s @ concat (map (\<lambda>e. delivered b (table_of b s) (take 2 e)) es)"
  using assms(2,3)
proof (induction es arbitrary: s fuel)
  case Nil
  then obtain f where "fuel = Suc f" by (cases fuel) auto
  then show ?case using Nil process_done by fastforce
next
  case (Cons e es)
  then obtain f where fuel: "fuel = Suc f" "length es < f" by (cases fuel) auto
  define s1 where "s1 = run_handlers hdl b (take 2 e) (table_of b s) s"
  have b1: "buses s1 = buses s" and c1: "calls s1 = calls s @ delivered b (table_of b s) (take 2 e)"
    unfolding s1_def using run_handlers_quiet [OF assms(1)] by blast+
  have "holds em b (e # es) s1" using Cons.prems(1) by (simp add: holds_def b1)
  note d = drop_cur_holds [OF this]
  have fr: "frame em b s (drop_cur em b s1)"
    using frame_trans [OF frame_same_buses [OF b1] d(2)] .
  obtain s' where "process_loop hdl em b f (drop_cur em b s1) = Some s'" and "holds em b [] s'"
    and "frame em b (drop_cur em b s1) s'"
    and "calls s' = calls s1 @ concat (map (\<lambda>e. delivered b (table_of b s) (take 2 e)) es)"
    using Cons.IH [OF d(1) fuel(2)] frame_table [OF fr] d(3) by auto
  then show ?case
    using process_step [OF Cons.prems(1), of hdl f] fuel(1) frame_trans [OF fr] c1
    by (auto simp: s1_def)
qed

subsection \<open>Posting\<close>

lemma upd_same_queue [simp]:
  "b < length (buses s) \<Longrightarrow> upd_bus b (set_queue em (get_queue em (buses s ! b))) s = s"
  by (cases em) (simp_all add: upd_bus_def set_queue_def get_queue_def)

lemma set_queue_holds:
  assumes "b < length (buses s)" and "cb_repr q es"
  shows "holds em b es (upd_bus b (set_queue em q) s)" and "frame em b s (upd_bus b (set_queue em q) s)"
  using assms by (simp_all add: holds_def frame_def)

lemma post_unmatched:
  assumes "b < length (buses s)" and "0 < sz" and "event_table (buses s ! b) = Some tbl"
    and "\<not> list_ex (entry_matches e) (live_table tbl)"
  shows "qm_eventbus_post_event b (Some e) sz s = (- QM_ENOENT, s)"
  using assms by (simp add: qm_eventbus_post_event_def Let_def)

lemma post_matched:
  assumes "b < length (buses s)" and "0 < sz" and "event_table (buses s ! b) = Some tbl"
    and "list_ex (entry_matches e) (live_table tbl)"
  shows "qm_eventbus_post_event b (Some e) sz s =
    (let em = IS_EMERGE_EVENT (e ! 1)
     in case circbuf_var_push_elem (Some (get_queue em (buses s ! b))) (Some e) (word_of_int sz) of
          (r, q) \<Rightarrow> (r, upd_bus b (set_queue em (the q)) s))"
  using assms by (simp add: qm_eventbus_post_event_def Let_def)

lemma post_cases:
  assumes h: "holds em b es s" and em: "em = IS_EMERGE_EVENT (e ! 1)" and sz: "0 < sz"
    and tbl: "event_table (buses s ! b) = Some tbl" "list_ex (entry_matches e) (live_table tbl)"
    and w: "w = (word_of_int sz :: u8)" "w \<noteq> 0" "unat w \<le> length e"
  shows "if Suc (unat w) \<le> cb_space (get_queue em (buses s ! b))
    then \<exists>s'. qm_eventbus_post_event b (Some e) sz s = (0, s')
      \<and> holds em b (es @ [take (unat w) e]) s' \<and> frame em b s s' \<and> calls s' = calls s
    else qm_eventbus_post_event b (Some e) sz s = (- QM_ENOMEM, s)"
proof -
  have b: "b < length (buses s)" and rep: "cb_repr (get_queue em (buses s ! b)) es"
    using h by (simp_all add: holds_def)
  then have wf: "cb_wf (get_queue em (buses s ! b))" by (simp add: cb_repr_def)
  show ?thesis
    using push_elem_ok [OF rep w(2,3)] push_elem_full [OF wf w(2), of e] b set_queue_holds [OF b]
    unfolding post_matched [OF b sz tbl] em [symmetric] w(1) [symmetric]
    by (auto simp: Let_def)
qed

lemma word_of_int_u8:
  assumes "0 < sz" and "sz < 256"
  shows "(word_of_int sz :: u8) \<noteq> 0" and "unat (word_of_int sz :: u8) = nat sz"
proof -
  show u: "unat (word_of_int sz :: u8) = nat sz" using assms by (intro unat_word_of_int) simp_all
  show "(word_of_int sz :: u8) \<noteq> 0"
    using u assms(1) by (metis unat_0 zero_less_nat_eq less_irrefl)
qed

subsection \<open>Properties\<close>

text \<open>C3: when the handlers do not touch the buses, \<open>qm_eventbus_process_events\<close> ends, empties
  both queues, returns 0, and calls, for every queued event, exactly the handlers whose table entry
  matches it, once each and in table order: first all emergency events in the order they were
  posted, then all normal events in theirs.\<close>

theorem eventbus_process_delivers:
  assumes "quiet hdl" and "event_table (buses s ! b) = Some tbl"
    and "holds True b es s" and "holds False b ns s" and "length es < fuel" and "length ns < fuel"
  shows "\<exists>s'. qm_eventbus_process_events hdl fuel b s = Some (0, s')
    \<and> holds True b [] s' \<and> holds False b [] s'
    \<and> calls s' = calls s @ concat (map (\<lambda>e. delivered b (live_table tbl) (take 2 e)) (es @ ns))"
proof -
  obtain s1 where s1: "process_loop hdl True b fuel s = Some s1" "holds True b [] s1" "frame True b s s1"
    "calls s1 = calls s @ concat (map (\<lambda>e. delivered b (table_of b s) (take 2 e)) es)"
    using process_loop_quiet [OF assms(1,3,5)] by blast
  have "holds False b ns s1" using frame_holds [OF s1(3)] assms(4) by simp
  then obtain s2 where s2: "process_loop hdl False b fuel s1 = Some s2" "holds False b [] s2"
    "frame False b s1 s2" "calls s2 = calls s1 @ concat (map (\<lambda>e. delivered b (table_of b s1) (take 2 e)) ns)"
    using process_loop_quiet [OF assms(1) _ assms(6)] by blast
  have em2: "holds True b [] s2" using frame_holds [OF s2(3)] s1(2) by simp
  have cnt: "circbuf_var_elem_counts (event_queue (buses s2 ! b)) = 0"
    "circbuf_var_elem_counts (emerge_event_queue (buses s2 ! b)) = 0"
    using cbq.count_repr s2(2) em2 by (fastforce simp: holds_def get_queue_def)+
  have "b < length (buses s)" using assms(3) by (simp add: holds_def)
  then have "qm_eventbus_process_events hdl fuel b s = Some (0, s2)"
    using assms(2) s1(1) s2(1) cnt by (simp add: qm_eventbus_process_events_def)
  then show ?thesis
    using em2 s2(2,4) s1(4) frame_table [OF s1(3)] assms(2) by (simp add: table_of_def)
qed

text \<open>A bus with two handlers and one event in each queue.\<close>

definition bus_example :: "(nat, unit) sys" where
  "bus_example = \<lparr>buses = [\<lparr>
     event_queue = \<lparr>push_index = 3, pop_index = 0, cb_size = 8, elem_cnt = 1, cb_buffer = [2, 5, 1, 0, 0, 0, 0, 0]\<rparr>,
     emerge_event_queue = \<lparr>push_index = 1, pop_index = 6, cb_size = 8, elem_cnt = 1,
       cb_buffer = [0x81, 0, 0, 0, 0, 0, 2, 5]\<rparr>,
     event_table = Some [\<lparr>te_module = 5, te_event = ALL_EVENT, te_handler = 10\<rparr>,
       \<lparr>te_module = 6, te_event = 1, te_handler = 11\<rparr>, \<lparr>te_module = 0, te_event = 0, te_handler = 0\<rparr>]\<rparr>],
     calls = [], app = ()\<rparr>"

lemma bus_example_holds: "holds True 0 [[5, 0x81]] bus_example" "holds False 0 [[5, 1]] bus_example"
  by code_simp+

theorem eventbus_process_delivers_witness:
  "\<exists>s'. qm_eventbus_process_events (\<lambda>h b ev s. s) 2 0 bus_example = Some (0, s')
    \<and> calls s' = [(10, 0, [5, 0x81]), (10, 0, [5, 1])]"
proof -
  have q: "quiet (\<lambda>h b ev s. s)" by (simp add: quiet_def)
  have t: "event_table (buses bus_example ! 0) = Some (the (event_table (buses bus_example ! 0)))"
    by (simp add: bus_example_def)
  show ?thesis
    using eventbus_process_delivers [OF q t bus_example_holds, of 2]
    by (auto simp: delivered_def live_table_def entry_matches_def bus_example_def NULL_MODULE_ID_def
        ALL_EVENT_def EVENT_ID_def)
qed



text \<open>C30: \<open>qm_eventbus_call_event\<close> with data posts the event at the end of its queue, calls every
  matching handler once, and then removes the oldest event of that queue. On an empty queue this
  leaves the queue as it was; with events pending, the oldest pending event is lost without being
  handled and the event just handled stays queued, to be handled again.\<close>

theorem eventbus_call_drops_oldest:
  assumes "quiet hdl" and "holds em b es s" and "em = IS_EMERGE_EVENT (e ! 1)" and "2 < sz" and "sz < 256"
    and "nat sz \<le> length e" and "event_table (buses s ! b) = Some tbl"
    and "list_ex (entry_matches e) (live_table tbl)"
    and "Suc (nat sz) \<le> cb_space (get_queue em (buses s ! b))"
  shows "\<exists>s'. qm_eventbus_call_event hdl b (Some e) sz s = (0, s')
    \<and> holds em b (tl (es @ [take (nat sz) e])) s' \<and> frame em b s s'
    \<and> calls s' = calls s @ delivered b (live_table tbl) e"
proof -
  have sz: "0 < sz" using assms(4) by simp
  note w = word_of_int_u8 [OF sz assms(5)]
  obtain s1 where post: "qm_eventbus_post_event b (Some e) sz s = (0, s1)"
    and h1: "holds em b (es @ [take (nat sz) e]) s1" and f1: "frame em b s s1" and c1: "calls s1 = calls s"
    using post_cases [OF assms(2,3) sz assms(7,8) refl] w assms(6,9) by auto
  define s2 where "s2 = run_handlers hdl b e (table_of b s1) s1"
  have b2: "buses s2 = buses s1" and c2: "calls s2 = calls s1 @ delivered b (table_of b s1) e"
    unfolding s2_def using run_handlers_quiet [OF assms(1)] by blast+
  obtain x xs where x: "es @ [take (nat sz) e] = x # xs" by (cases es) auto
  have "holds em b (x # xs) s2" using h1 x by (simp add: holds_def b2)
  note d = drop_cur_holds [OF this]
  have "b < length (buses s)" using assms(2) by (simp add: holds_def)
  then have "qm_eventbus_call_event hdl b (Some e) sz s = (0, drop_cur em b s2)"
    using assms(3,4,7) post by (simp add: qm_eventbus_call_event_def s2_def)
  moreover have "frame em b s (drop_cur em b s2)"
    using frame_trans [OF f1 frame_trans [OF frame_same_buses [OF b2] d(2)]] .
  moreover have "table_of b s1 = live_table tbl"
    using frame_table [OF f1] assms(7) by (simp add: table_of_def)
  ultimately show ?thesis using d(1,3) x c1 c2 by simp
qed

theorem eventbus_call_drops_oldest_witness:
  "\<exists>s'. qm_eventbus_call_event (\<lambda>h b ev s. s) 0 (Some [5, 9, 7]) 3 bus_example = (0, s')
    \<and> holds False 0 [[5, 9, 7]] s' \<and> calls s' = [(10, 0, [5, 9, 7])]"
proof -
  have q: "quiet (\<lambda>h b ev s. s)" by (simp add: quiet_def)
  have "cb_space (get_queue False (buses bus_example ! 0)) = 4" by code_simp
  moreover have "event_table (buses bus_example ! 0) = Some (the (event_table (buses bus_example ! 0)))"
    by code_simp
  ultimately show ?thesis
    using eventbus_call_drops_oldest [OF q bus_example_holds(2), of "[5, 9, 7]" 3]
    by (auto simp: IS_EMERGE_EVENT_def entry_matches_def live_table_def bus_example_def ALL_EVENT_def
        NULL_MODULE_ID_def delivered_def)
qed

text \<open>The event size is truncated to 8 bits on its way into the queue. A post of \<open>sz\<close> bytes
  queues only the first \<open>sz mod 256\<close> of them and still reports success.\<close>

theorem eventbus_post_truncates:
  assumes "holds em b es s" and "em = IS_EMERGE_EVENT (e ! 1)" and "0 < sz" and "sz mod 256 \<noteq> 0"
    and "nat sz \<le> length e" and "event_table (buses s ! b) = Some tbl"
    and "list_ex (entry_matches e) (live_table tbl)"
    and "Suc (nat (sz mod 256)) \<le> cb_space (get_queue em (buses s ! b))"
  shows "\<exists>s'. qm_eventbus_post_event b (Some e) sz s = (0, s')
    \<and> holds em b (es @ [take (nat (sz mod 256)) e]) s'"
proof -
  have "(word_of_int sz :: u8) = word_of_int (sz mod 256)"
    by (simp add: word_of_int_eq_iff take_bit_eq_mod)
  moreover have "0 < sz mod 256" and "sz mod 256 < 256" and "sz mod 256 \<le> sz"
    using assms(3,4) pos_mod_sign [of 256 sz] zmod_le_nonneg_dividend [of sz 256] by auto
  moreover have "nat (sz mod 256) \<le> length e" using calculation assms(5) by linarith
  ultimately show ?thesis
    using post_cases [OF assms(1-3,6,7) refl] word_of_int_u8 [of "sz mod 256"] assms(8) by auto
qed

theorem eventbus_post_truncates_witness:
  "\<exists>s'. qm_eventbus_post_event 0 (Some (5 # 9 # replicate 256 0)) 258 bus_example = (0, s')
    \<and> holds False 0 [[5, 1], [5, 9]] s'"
proof -
  have "cb_space (get_queue False (buses bus_example ! 0)) = 4" by code_simp
  moreover have "event_table (buses bus_example ! 0) = Some (the (event_table (buses bus_example ! 0)))"
    by code_simp
  ultimately show ?thesis
    using eventbus_post_truncates [OF bus_example_holds(2), of "5 # 9 # replicate 256 0" 258]
    by (auto simp: IS_EMERGE_EVENT_def entry_matches_def live_table_def bus_example_def ALL_EVENT_def
        NULL_MODULE_ID_def)
qed

text \<open>Initialising a bus splits the caller's buffer without overlap: the normal queue gets the
  front, the emergency queue the rest, both 4-byte aligned in size, both start empty, and together
  they cover the buffer exactly. This needs the rounded emergency share to leave room for both.\<close>

theorem eventbus_init_partition:
  assumes "b < length (buses s)" and "length m = nat sz" and "0 < sz" and "sz < 65536" and "sz mod 4 = 0"
    and "0 < emerge_size sz percent" and "emerge_size sz percent < sz"
  shows "\<exists>s'. qm_eventbus_init b (Some m) sz (Some tbl) percent s = (0, s')
    \<and> holds True b [] s' \<and> holds False b [] s' \<and> event_table (buses s' ! b) = Some tbl
    \<and> cb_buffer (event_queue (buses s' ! b)) @ cb_buffer (emerge_event_queue (buses s' ! b)) = m
    \<and> int (unat (cb_size (emerge_event_queue (buses s' ! b)))) = emerge_size sz percent
    \<and> 4 dvd emerge_size sz percent"
proof -
  let ?e = "emerge_size sz percent" and ?bus = "buses s ! b"
  obtain q where q: "circbuf_var_init (Some (event_queue ?bus)) (Some (take (nat (sz - ?e)) m)) (sz - ?e) = (0, Some q)"
    "cb_repr q []"
    using init_repr [of "sz - ?e" "take (nat (sz - ?e)) m"] assms by auto
  obtain q' where q': "circbuf_var_init (Some (emerge_event_queue ?bus))
      (Some (take (nat ?e) (drop (nat (sz - ?e)) m))) ?e = (0, Some q')"
    "cb_repr q' []" "unat (cb_size q') = nat ?e"
    using init_repr [of ?e "take (nat ?e) (drop (nat (sz - ?e)) m)"] assms nat_diff_distrib [of ?e sz]
    by auto
  define s' where "s' = upd_bus b (\<lambda>bus. bus\<lparr>event_table := Some tbl, event_queue := q, emerge_event_queue := q'\<rparr>) s"
  have "qm_eventbus_init b (Some m) sz (Some tbl) percent s = (0, s')"
    using assms q(1) q'(1) by (simp add: qm_eventbus_init_def s'_def upd_bus_def Let_def)
  moreover have "holds True b [] s'" "holds False b [] s'"
    using assms(1) q(2) q'(2) by (simp_all add: holds_def s'_def get_queue_def)
  moreover have "cb_buffer q @ cb_buffer q' = m"
    using q(1) q'(1) assms by (auto simp: circbuf_var_init_def split: if_splits)
  moreover have "4 dvd ?e" by (simp add: emerge_size_def Let_def mod_eq_0_iff_dvd)
  ultimately show ?thesis using q'(3) assms(1,6) by (simp add: s'_def)
qed

theorem eventbus_init_partition_witness:
  "\<exists>s'. qm_eventbus_init 0 (Some (replicate 16 0)) 16 (Some []) 30 bus_example = (0, s')
    \<and> holds True 0 [] s' \<and> cb_size (emerge_event_queue (buses s' ! 0)) = 4"
proof -
  have "emerge_size 16 30 = 4" by code_simp
  then show ?thesis
    using eventbus_init_partition [of 0 bus_example "replicate 16 0" 16 30 "[]"]
    by (auto simp: bus_example_def word_unat_eq_iff)
qed

end
