(* ===== verification/Multi_Timer.thy ===== *)
theory Multi_Timer
  imports QM_Prelude
begin

text \<open>
  The software timers of \<^verbatim>\<open>components/multi_timer/src/multi_timer.c\<close>. Timers are nodes of two
  singly linked lists ordered by expiry: \<open>timer_list\<close> for the current round of the 32-bit
  millisecond clock and \<open>overflow_timer_list\<close> for expiries after it wraps. The lists are modelled
  at the pointer level: \<open>heap\<close> gives the timer at each address, and the code's pointer-to-pointer
  cursor is a \<open>cell\<close>, the head of a list or the \<open>next\<close> field of a node. A traversal of a cyclic
  list does not end, so the loops are partial functions with \<open>None\<close> for "does not return".

  Callbacks are application code, the parameter \<open>cb\<close>; they get and return the whole state. The
  ghost field \<open>fired\<close> records the callback invocations. The clock is an argument of the operations
  that read it. Mutual exclusion is not modelled: the code holds one lock around every list access
  and releases it around callbacks. Argument checks (\<open>CONFIG_QM_CHECK_SUPPORT\<close>) are on.
\<close>

type_synonym ptr = nat

datatype list_id = Timer_List | Overflow_List

record 'c multi_timer =
  nxt :: "ptr option"
  delay :: u32
  period :: u32
  callback :: "'c option"
  arg :: nat
  auto_reload :: bool
  tm_list :: "list_id option"

record ('c, 's) multi_timer_ctx =
  timer_list :: "ptr option"
  overflow_timer_list :: "ptr option"
  heap :: "ptr \<Rightarrow> 'c multi_timer"
  last_time :: u32
  fired :: "ptr list"
  app :: 's

type_synonym ('c, 's) callback = "'c \<Rightarrow> ptr \<Rightarrow> nat \<Rightarrow> ('c, 's) multi_timer_ctx \<Rightarrow> ('c, 's) multi_timer_ctx"

subsection \<open>Pointer cells\<close>

datatype cell = Head list_id | Next ptr

fun read_cell :: "('c, 's) multi_timer_ctx \<Rightarrow> cell \<Rightarrow> ptr option" where
  "read_cell s (Head Timer_List) = timer_list s"
| "read_cell s (Head Overflow_List) = overflow_timer_list s"
| "read_cell s (Next p) = nxt (heap s p)"

definition upd_node ::
  "ptr \<Rightarrow> ('c multi_timer \<Rightarrow> 'c multi_timer) \<Rightarrow> ('c, 's) multi_timer_ctx \<Rightarrow> ('c, 's) multi_timer_ctx" where
  "upd_node p f s = s\<lparr>heap := (heap s)(p := f (heap s p))\<rparr>"

fun write_cell :: "cell \<Rightarrow> ptr option \<Rightarrow> ('c, 's) multi_timer_ctx \<Rightarrow> ('c, 's) multi_timer_ctx" where
  "write_cell (Head Timer_List) q s = s\<lparr>timer_list := q\<rparr>"
| "write_cell (Head Overflow_List) q s = s\<lparr>overflow_timer_list := q\<rparr>"
| "write_cell (Next p) q s = upd_node p (\<lambda>t. t\<lparr>nxt := q\<rparr>) s"

subsection \<open>List operations\<close>

text \<open>The loop that unlinks \<open>timer\<close>, shared by \<open>timer_list_insert\<close> and \<open>timer_list_remove\<close>.\<close>

partial_function (option) unlink_loop ::
  "ptr \<Rightarrow> cell \<Rightarrow> ('c, 's) multi_timer_ctx \<Rightarrow> ('c, 's) multi_timer_ctx option" where
  "unlink_loop timer c s =
     (case read_cell s c of
        None \<Rightarrow> Some s
      | Some p \<Rightarrow> if timer = p then Some (write_cell c (nxt (heap s timer)) s)
                  else unlink_loop timer (Next p) s)"

partial_function (option) link_loop ::
  "ptr \<Rightarrow> cell \<Rightarrow> ('c, 's) multi_timer_ctx \<Rightarrow> ('c, 's) multi_timer_ctx option" where
  "link_loop timer c s =
     (case read_cell s c of
        None \<Rightarrow> Some (write_cell c (Some timer) (upd_node timer (\<lambda>t. t\<lparr>nxt := None\<rparr>) s))
      | Some p \<Rightarrow>
          if delay (heap s timer) < delay (heap s p)
          then Some (write_cell c (Some timer) (upd_node timer (\<lambda>t. t\<lparr>nxt := Some p\<rparr>) s))
          else link_loop timer (Next p) s)"

definition timer_list_insert ::
  "list_id \<Rightarrow> ptr \<Rightarrow> ('c, 's) multi_timer_ctx \<Rightarrow> ('c, 's) multi_timer_ctx option" where
  "timer_list_insert l timer s =
     (case unlink_loop timer (Head l) s of
        None \<Rightarrow> None
      | Some s1 \<Rightarrow>
          (case link_loop timer (Head l) s1 of
             None \<Rightarrow> None
           | Some s2 \<Rightarrow> Some (upd_node timer (\<lambda>t. t\<lparr>tm_list := Some l\<rparr>) s2)))"

definition timer_insert ::
  "ptr \<Rightarrow> u32 \<Rightarrow> ('c, 's) multi_timer_ctx \<Rightarrow> ('c, 's) multi_timer_ctx option" where
  "timer_insert timer now s =
     (let s1 = upd_node timer (\<lambda>t. t\<lparr>delay := period t + now\<rparr>) s
      in if delay (heap s1 timer) < now then timer_list_insert Overflow_List timer s1
         else timer_list_insert Timer_List timer s1)"

definition timer_list_switch :: "('c, 's) multi_timer_ctx \<Rightarrow> ('c, 's) multi_timer_ctx" where
  "timer_list_switch s = s\<lparr>timer_list := overflow_timer_list s, overflow_timer_list := None\<rparr>"

definition timer_list_remove ::
  "list_id \<Rightarrow> ptr \<Rightarrow> ('c, 's) multi_timer_ctx \<Rightarrow> ('c, 's) multi_timer_ctx option" where
  "timer_list_remove l timer s = unlink_loop timer (Head l) s"

definition next_expire_time_get :: "('c, 's) multi_timer_ctx \<Rightarrow> u32" where
  "next_expire_time_get s =
     (case timer_list s of
        Some p \<Rightarrow> delay (heap s p)
      | None \<Rightarrow> (case overflow_timer_list s of Some p \<Rightarrow> delay (heap s p) | None \<Rightarrow> 0))"

subsection \<open>The public operations\<close>

text \<open>They return the code's result and the state, or \<open>None\<close> when they do not return.\<close>

definition multi_timer_creat ::
  "ptr option \<Rightarrow> 'c option \<Rightarrow> nat \<Rightarrow> u32 \<Rightarrow> bool \<Rightarrow> ('c, 's) multi_timer_ctx
    \<Rightarrow> int \<times> ('c, 's) multi_timer_ctx" where
  "multi_timer_creat timer f a ms reload s =
     (case timer of
        None \<Rightarrow> (- QM_EINVAL, s)
      | Some p \<Rightarrow> (QM_EOK, s\<lparr>heap := (heap s)(p := \<lparr>nxt = None, delay = 0, period = ms, callback = f,
                               arg = a, auto_reload = reload, tm_list = None\<rparr>)\<rparr>))"

definition multi_timer_delete ::
  "ptr option \<Rightarrow> ('c, 's) multi_timer_ctx \<Rightarrow> (int \<times> ('c, 's) multi_timer_ctx) option" where
  "multi_timer_delete timer s =
     (case timer of
        None \<Rightarrow> Some (- QM_EINVAL, s)
      | Some p \<Rightarrow>
          (case tm_list (heap s p) of
             None \<Rightarrow> Some (QM_EOK, s)
           | Some l \<Rightarrow>
               (case timer_list_remove l p s of
                  None \<Rightarrow> None
                | Some s1 \<Rightarrow> Some (QM_EOK, upd_node p (\<lambda>t. t\<lparr>tm_list := None\<rparr>) s1))))"

definition multi_timer_start ::
  "ptr option \<Rightarrow> u32 \<Rightarrow> ('c, 's) multi_timer_ctx \<Rightarrow> (int \<times> ('c, 's) multi_timer_ctx) option" where
  "multi_timer_start timer now s =
     (case timer of
        None \<Rightarrow> Some (- QM_EINVAL, s)
      | Some p \<Rightarrow> (case timer_insert p now s of None \<Rightarrow> None | Some s1 \<Rightarrow> Some (QM_EOK, s1)))"

definition multi_timer_stop ::
  "ptr option \<Rightarrow> ('c, 's) multi_timer_ctx \<Rightarrow> (int \<times> ('c, 's) multi_timer_ctx) option" where
  "multi_timer_stop timer s = multi_timer_delete timer s"

definition multi_timer_change ::
  "ptr option \<Rightarrow> u32 \<Rightarrow> u32 \<Rightarrow> ('c, 's) multi_timer_ctx \<Rightarrow> (int \<times> ('c, 's) multi_timer_ctx) option" where
  "multi_timer_change timer ms now s =
     (case timer of
        None \<Rightarrow> Some (- QM_EINVAL, s)
      | Some p \<Rightarrow>
          let m = heap s p
          in (case multi_timer_delete timer s of
                None \<Rightarrow> None
              | Some (_, s1) \<Rightarrow>
                  (case multi_timer_creat timer (callback m) (arg m) ms (auto_reload m) s1 of (_, s2) \<Rightarrow>
                     (case multi_timer_start timer now s2 of
                        None \<Rightarrow> None
                      | Some (_, s3) \<Rightarrow> Some (QM_EOK, s3)))))"

text \<open>The body shared by the two processing loops: unlink the head, reload, call back.\<close>

definition fire_head ::
  "('c, 's) callback \<Rightarrow> ptr \<Rightarrow> u32 \<Rightarrow> ('c, 's) multi_timer_ctx \<Rightarrow> ('c, 's) multi_timer_ctx option" where
  "fire_head cb p now s =
     (let s1 = s\<lparr>timer_list := nxt (heap s p)\<rparr>
      in case (if auto_reload (heap s1 p) then timer_insert p now s1 else Some s1) of
           None \<Rightarrow> None
         | Some s2 \<Rightarrow>
             Some (case callback (heap s2 p) of
                     None \<Rightarrow> s2
                   | Some f \<Rightarrow> cb f p (arg (heap s2 p)) (s2\<lparr>fired := fired s2 @ [p]\<rparr>)))"

partial_function (option) overflow_timer_process ::
  "('c, 's) callback \<Rightarrow> u32 \<Rightarrow> ('c, 's) multi_timer_ctx \<Rightarrow> ('c, 's) multi_timer_ctx option" where
  "overflow_timer_process cb now s =
     (case timer_list s of
        None \<Rightarrow> Some s
      | Some p \<Rightarrow>
          (case fire_head cb p now s of
             None \<Rightarrow> None
           | Some s1 \<Rightarrow> overflow_timer_process cb now s1))"

partial_function (option) timer_process ::
  "('c, 's) callback \<Rightarrow> u32 \<Rightarrow> ('c, 's) multi_timer_ctx \<Rightarrow> ('c, 's) multi_timer_ctx option" where
  "timer_process cb now s =
     (case timer_list s of
        None \<Rightarrow> Some s
      | Some p \<Rightarrow>
          if now < delay (heap s p) then Some s
          else (case fire_head cb p now s of
                  None \<Rightarrow> None
                | Some s1 \<Rightarrow> timer_process cb now s1))"

text \<open>
  \<open>multi_timer_yield\<close> reads the clock at its start (\<open>now\<close>) and at its end (\<open>later\<close>).
\<close>

definition multi_timer_yield ::
  "('c, 's) callback \<Rightarrow> u32 \<Rightarrow> u32 \<Rightarrow> ('c, 's) multi_timer_ctx \<Rightarrow> (u32 \<times> ('c, 's) multi_timer_ctx) option" where
  "multi_timer_yield cb now later s =
     (let overflow = now < last_time s
      in case (if overflow then map_option timer_list_switch (overflow_timer_process cb now s) else Some s) of
           None \<Rightarrow> None
         | Some s1 \<Rightarrow>
             (case timer_process cb now s1 of
                None \<Rightarrow> None
              | Some s2 \<Rightarrow>
                  let next_period = next_expire_time_get s2;
                      s3 = s2\<lparr>last_time := later\<rparr>
                  in Some (if next_period > now then next_period - now
                           else if overflow then next_period - now else 0, s3)))"


subsection \<open>Linked lists\<close>

named_theorems mt_data

text \<open>\<open>path h p xs\<close>: following \<open>next\<close> from \<open>p\<close> visits \<open>xs\<close> and ends in \<open>NULL\<close>.\<close>

fun path :: "(ptr \<Rightarrow> 'c multi_timer) \<Rightarrow> ptr option \<Rightarrow> ptr list \<Rightarrow> bool" where
  "path h p [] \<longleftrightarrow> p = None"
| "path h p (x # xs) \<longleftrightarrow> p = Some x \<and> path h (nxt (h x)) xs"

lemma path_None [simp]: "path h None xs \<longleftrightarrow> xs = []"
  by (cases xs) auto

lemma path_unique: "path h p xs \<Longrightarrow> path h p ys \<Longrightarrow> xs = ys"
proof (induction xs arbitrary: p ys)
  case Nil
  then show ?case by (cases ys) auto
next
  case (Cons x xs)
  then show ?case by (cases ys) auto
qed

lemma path_appendD: "path h p (xs @ ys) \<Longrightarrow> \<exists>q. path h q ys"
  by (induction xs arbitrary: p) auto

lemma path_tl_notin: "path h (nxt (h x)) xs \<Longrightarrow> x \<notin> set xs"
proof
  assume p: "path h (nxt (h x)) xs" and "x \<in> set xs"
  then obtain as bs where xs: "xs = as @ x # bs" by (meson split_list)
  with p path_appendD [of h "nxt (h x)" as "x # bs"] have "path h (nxt (h x)) bs" by auto
  with p xs path_unique have "as @ x # bs = bs" by metis
  then have "length (as @ x # bs) = length bs" by simp
  then show False by simp
qed

lemma path_distinct: "path h p xs \<Longrightarrow> distinct xs"
  by (induction xs arbitrary: p) (auto dest: path_tl_notin)

text \<open>
  \<open>cframe C s s'\<close>: \<open>s'\<close> differs from \<open>s\<close> at most in the pointer cells \<open>C\<close>.
\<close>

definition node_data :: "('c, 's) multi_timer_ctx \<Rightarrow> ptr \<Rightarrow> 'c multi_timer" where
  "node_data s x = (heap s x)\<lparr>nxt := None\<rparr>"

definition cframe :: "cell set \<Rightarrow> ('c, 's) multi_timer_ctx \<Rightarrow> ('c, 's) multi_timer_ctx \<Rightarrow> bool" where
  "cframe C s s' \<longleftrightarrow> (\<forall>c. c \<notin> C \<longrightarrow> read_cell s' c = read_cell s c) \<and> node_data s' = node_data s
     \<and> last_time s' = last_time s \<and> fired s' = fired s \<and> app s' = app s"

lemma node_data_sel [mt_data]:
  "delay (node_data s x) = delay (heap s x)"
  "period (node_data s x) = period (heap s x)"
  "callback (node_data s x) = callback (heap s x)"
  "arg (node_data s x) = arg (heap s x)"
  "auto_reload (node_data s x) = auto_reload (heap s x)"
  "tm_list (node_data s x) = tm_list (heap s x)"
  by (simp_all add: node_data_def)

lemma node_data_eqD:
  assumes "node_data s' x = node_data s x"
  shows "delay (heap s' x) = delay (heap s x)" "period (heap s' x) = period (heap s x)"
    "callback (heap s' x) = callback (heap s x)" "arg (heap s' x) = arg (heap s x)"
    "auto_reload (heap s' x) = auto_reload (heap s x)" "tm_list (heap s' x) = tm_list (heap s x)"
  using assms node_data_sel by metis+

lemma cframe_refl: "cframe C s s"
  by (simp add: cframe_def)

lemma cframe_trans: "cframe C s s1 \<Longrightarrow> cframe D s1 s2 \<Longrightarrow> C \<union> D \<subseteq> E \<Longrightarrow> cframe E s s2"
  unfolding cframe_def by (metis Un_iff subsetD)

lemma cframe_mono: "cframe C s s1 \<Longrightarrow> C \<subseteq> E \<Longrightarrow> cframe E s s1"
  by (auto simp: cframe_def)

lemma cframe_read: "cframe C s s' \<Longrightarrow> c \<notin> C \<Longrightarrow> read_cell s' c = read_cell s c"
  by (simp add: cframe_def)

lemma read_write_cell: "read_cell (write_cell c q s) d = (if c = d then q else read_cell s d)"
proof (cases c)
  case (Head l)
  then show ?thesis
  proof (cases d)
    case (Head l')
    with \<open>c = Head l\<close> show ?thesis by (cases l; cases l') auto
  next
    case (Next p)
    with \<open>c = Head l\<close> show ?thesis by (cases l) auto
  qed
next
  case (Next p)
  then show ?thesis
  proof (cases d)
    case (Head l')
    with \<open>c = Next p\<close> show ?thesis by (cases l') (auto simp: upd_node_def)
  next
    case (Next p)
    with \<open>c = Next _\<close> show ?thesis by (auto simp: upd_node_def)
  qed
qed

lemma cframe_write: "cframe {c} s (write_cell c q s)"
proof -
  have "node_data (write_cell c q s) = node_data s \<and> last_time (write_cell c q s) = last_time s
      \<and> fired (write_cell c q s) = fired s \<and> app (write_cell c q s) = app s"
  proof (cases c)
    case (Head l)
    then show ?thesis by (cases l) (auto simp: node_data_def fun_eq_iff)
  next
    case (Next p)
    then show ?thesis by (auto simp: node_data_def upd_node_def fun_eq_iff)
  qed
  then show ?thesis by (auto simp: cframe_def read_write_cell)
qed

lemma path_frame:
  assumes "path (heap s) p xs" "cframe C s s'" "\<And>x. x \<in> set xs \<Longrightarrow> Next x \<notin> C"
  shows "path (heap s') p xs"
  using assms
proof (induction xs arbitrary: p)
  case (Cons x xs)
  then have "nxt (heap s' x) = nxt (heap s x)"
    using cframe_read [of C s s' "Next x"] by simp
  with Cons show ?case by simp
qed simp

lemma unlink_loop_spec:
  assumes "path (heap s) (read_cell s c) xs" "c \<notin> Next ` set xs"
  shows "\<exists>s'. unlink_loop t c s = Some s' \<and> path (heap s') (read_cell s' c) (remove1 t xs)
    \<and> cframe (insert c (Next ` set xs)) s s'"
  using assms
proof (induction xs arbitrary: c)
  case Nil
  then show ?case by (subst unlink_loop.simps) (simp add: cframe_refl)
next
  case (Cons x xs)
  then have rd: "read_cell s c = Some x" and p: "path (heap s) (nxt (heap s x)) xs"
    and c: "c \<noteq> Next x" "c \<notin> Next ` set xs" by auto
  show ?case
  proof (cases "t = x")
    case True
    let ?s = "write_cell c (nxt (heap s t)) s"
    have "path (heap ?s) (nxt (heap s t)) xs"
      using p True c by (intro path_frame [OF _ cframe_write]) auto
    with rd True show ?thesis
      by (subst unlink_loop.simps) (auto simp: read_write_cell intro: cframe_mono [OF cframe_write])
  next
    case False
    have x: "Next x \<notin> Next ` set xs" using path_tl_notin [OF p] by auto
    have "\<exists>s'. unlink_loop t (Next x) s = Some s'
        \<and> path (heap s') (read_cell s' (Next x)) (remove1 t xs)
        \<and> cframe (insert (Next x) (Next ` set xs)) s s'"
      using Cons.IH [of "Next x"] p x by simp
    then obtain s' where s': "unlink_loop t (Next x) s = Some s'"
      "path (heap s') (nxt (heap s' x)) (remove1 t xs)" "cframe (insert (Next x) (Next ` set xs)) s s'"
      by auto
    have "read_cell s' c = Some x" using cframe_read [OF s'(3), of c] c rd by auto
    with rd False s' show ?thesis
      by (subst unlink_loop.simps) (auto intro: cframe_mono)
  qed
qed

text \<open>The insertion the second loop performs, on lists: after every entry that is not later.\<close>

fun insert_at :: "(ptr \<Rightarrow> u32) \<Rightarrow> ptr \<Rightarrow> ptr list \<Rightarrow> ptr list" where
  "insert_at d t [] = [t]"
| "insert_at d t (x # xs) = (if d t < d x then t # x # xs else x # insert_at d t xs)"

lemma set_insert_at [simp]: "set (insert_at d t xs) = insert t (set xs)"
  by (induction xs) auto

lemma distinct_insert_at [simp]: "distinct (insert_at d t xs) \<longleftrightarrow> t \<notin> set xs \<and> distinct xs"
  by (induction xs) auto

lemma sorted_insert_at:
  "sorted_wrt (\<lambda>x y. d x \<le> d y) xs \<Longrightarrow> sorted_wrt (\<lambda>x y. d x \<le> d y) (insert_at d t xs)"
  by (induction xs) (auto intro: order_trans less_imp_le)

lemma insert_at_cong: "(\<And>x. x \<in> insert t (set xs) \<Longrightarrow> d x = d' x) \<Longrightarrow> insert_at d t xs = insert_at d' t xs"
  by (induction xs) auto

lemma link_loop_spec:
  assumes "path (heap s) (read_cell s c) xs" "c \<notin> Next ` set xs" "t \<notin> set xs" "c \<noteq> Next t"
  shows "\<exists>s'. link_loop t c s = Some s'
    \<and> path (heap s') (read_cell s' c) (insert_at (\<lambda>x. delay (heap s x)) t xs)
    \<and> cframe (insert c (insert (Next t) (Next ` set xs))) s s'"
  using assms
proof (induction xs arbitrary: c)
  case Nil
  let ?s1 = "write_cell (Next t) None s"
  let ?s2 = "write_cell c (Some t) ?s1"
  have "cframe {c, Next t} s ?s2"
    by (rule cframe_trans [OF cframe_write cframe_write]) auto
  moreover have "path (heap ?s2) (read_cell ?s2 c) [t]"
    using Nil read_write_cell [of c "Some t" ?s1 "Next t"] read_write_cell [of "Next t" None s "Next t"]
    by (simp add: read_write_cell)
  ultimately show ?case using Nil by (subst link_loop.simps) simp
next
  case (Cons x xs)
  then have rd: "read_cell s c = Some x" and p: "path (heap s) (nxt (heap s x)) xs"
    and c: "c \<noteq> Next x" "c \<notin> Next ` set xs" "c \<noteq> Next t" and t: "t \<noteq> x" "t \<notin> set xs" by auto
  show ?case
  proof (cases "delay (heap s t) < delay (heap s x)")
    case True
    let ?s1 = "write_cell (Next t) (Some x) s"
    let ?s2 = "write_cell c (Some t) ?s1"
    have f: "cframe {c, Next t} s ?s2"
      by (rule cframe_trans [OF cframe_write cframe_write]) auto
    have "path (heap ?s2) (Some x) (x # xs)"
      using Cons.prems rd by (intro path_frame [OF _ f]) auto
    moreover have "nxt (heap ?s2 t) = Some x"
      using c read_write_cell [of c "Some t" ?s1 "Next t"] read_write_cell [of "Next t" "Some x" s "Next t"]
      by simp
    ultimately have "path (heap ?s2) (read_cell ?s2 c) (t # x # xs)"
      by (simp add: read_write_cell)
    moreover have "cframe (insert c (insert (Next t) (Next ` set (x # xs)))) s ?s2"
      by (rule cframe_mono [OF f]) auto
    ultimately show ?thesis
      using rd True by (subst link_loop.simps) auto
  next
    case False
    have x: "Next x \<notin> Next ` set xs" using path_tl_notin [OF p] by auto
    have "\<exists>s'. link_loop t (Next x) s = Some s'
        \<and> path (heap s') (read_cell s' (Next x)) (insert_at (\<lambda>x. delay (heap s x)) t xs)
        \<and> cframe (insert (Next x) (insert (Next t) (Next ` set xs))) s s'"
      using Cons.IH [of "Next x"] p x t by simp
    then obtain s' where s': "link_loop t (Next x) s = Some s'"
      "path (heap s') (nxt (heap s' x)) (insert_at (\<lambda>x. delay (heap s x)) t xs)"
      "cframe (insert (Next x) (insert (Next t) (Next ` set xs))) s s'"
      by auto
    have "read_cell s' c = Some x" using cframe_read [OF s'(3), of c] c rd by auto
    with rd False s' show ?thesis
      by (subst link_loop.simps) (auto intro: cframe_mono)
  qed
qed


subsection \<open>The two lists\<close>

text \<open>
  \<open>mt_rep s ts os\<close>: the two heads lead to the disjoint lists \<open>ts\<close> and \<open>os\<close>, each ordered by expiry.
\<close>

abbreviation by_delay :: "('c, 's) multi_timer_ctx \<Rightarrow> ptr list \<Rightarrow> bool" where
  "by_delay s \<equiv> sorted_wrt (\<lambda>x y. delay (heap s x) \<le> delay (heap s y))"

definition mt_rep :: "('c, 's) multi_timer_ctx \<Rightarrow> ptr list \<Rightarrow> ptr list \<Rightarrow> bool" where
  "mt_rep s ts os \<longleftrightarrow> path (heap s) (timer_list s) ts \<and> path (heap s) (overflow_timer_list s) os
     \<and> set ts \<inter> set os = {} \<and> by_delay s ts \<and> by_delay s os"

definition same_env :: "('c, 's) multi_timer_ctx \<Rightarrow> ('c, 's) multi_timer_ctx \<Rightarrow> bool" where
  "same_env s s' \<longleftrightarrow> last_time s' = last_time s \<and> fired s' = fired s \<and> app s' = app s"

lemma same_env_trans: "same_env s s1 \<Longrightarrow> same_env s1 s2 \<Longrightarrow> same_env s s2"
  by (simp add: same_env_def)

lemma cframe_env: "cframe C s s' \<Longrightarrow> same_env s s'"
  by (simp add: cframe_def same_env_def)

lemma cframe_data: "cframe C s s' \<Longrightarrow> node_data s' = node_data s"
  by (simp add: cframe_def)

lemma path_cong: "(\<And>x. x \<in> set xs \<Longrightarrow> nxt (h' x) = nxt (h x)) \<Longrightarrow> path h' p xs = path h p xs"
  by (induction xs arbitrary: p) auto

lemma by_delay_cong:
  "(\<And>x. x \<in> set xs \<Longrightarrow> delay (heap s' x) = delay (heap s x)) \<Longrightarrow> by_delay s' xs = by_delay s xs"
  by (induction xs) auto

lemma by_delay_other:
  assumes "by_delay s xs" "t \<notin> set xs" "\<And>x. x \<noteq> t \<Longrightarrow> delay (heap s' x) = delay (heap s x)"
  shows "by_delay s' xs"
  using assms by_delay_cong [of xs s' s] by metis

lemma upd_node_keeps_nxt:
  assumes "\<And>m. nxt (f m) = nxt m"
  shows "path (heap (upd_node t f s)) p xs = path (heap s) p xs"
    "read_cell (upd_node t f s) c = read_cell s c"
proof -
  show "path (heap (upd_node t f s)) p xs = path (heap s) p xs"
    by (rule path_cong) (simp add: upd_node_def assms)
  show "read_cell (upd_node t f s) c = read_cell s c"
    by (cases "(s, c)" rule: read_cell.cases) (auto simp: upd_node_def assms)
qed

lemma timer_list_insert_spec:
  assumes xs: "path (heap s) (read_cell s (Head l)) xs" and ys: "path (heap s) (read_cell s (Head l')) ys"
    and dis: "l \<noteq> l'" "set xs \<inter> set ys = {}" "t \<notin> set ys"
  shows "\<exists>s'. timer_list_insert l t s = Some s'
    \<and> path (heap s') (read_cell s' (Head l)) (insert_at (\<lambda>x. delay (heap s x)) t (remove1 t xs))
    \<and> path (heap s') (read_cell s' (Head l')) ys
    \<and> node_data s' = (node_data s)(t := (node_data s t)\<lparr>tm_list := Some l\<rparr>) \<and> same_env s s'"
proof -
  obtain s1 where s1: "unlink_loop t (Head l) s = Some s1"
    "path (heap s1) (read_cell s1 (Head l)) (remove1 t xs)" "cframe (insert (Head l) (Next ` set xs)) s s1"
    using unlink_loop_spec [OF xs, of t] by auto
  have t: "t \<notin> set (remove1 t xs)" using path_distinct [OF xs] by auto
  have d1: "delay (heap s1 x) = delay (heap s x)" for x
    using cframe_data [OF s1(3)] node_data_eqD(1) by metis
  obtain s2 where s2: "link_loop t (Head l) s1 = Some s2"
    "path (heap s2) (read_cell s2 (Head l)) (insert_at (\<lambda>x. delay (heap s x)) t (remove1 t xs))"
    "cframe (insert (Head l) (insert (Next t) (Next ` set (remove1 t xs)))) s1 s2"
    using link_loop_spec [OF s1(2) _ t] d1 by auto
  have f: "cframe (insert (Head l) (insert (Next t) (Next ` set xs))) s s2"
    by (rule cframe_trans [OF s1(3) s2(3)]) (auto dest: set_remove1_subset [THEN subsetD])
  have ys2: "path (heap s2) (read_cell s2 (Head l')) ys"
  proof -
    have "path (heap s2) (read_cell s (Head l')) ys" using dis by (intro path_frame [OF ys f]) auto
    moreover have "read_cell s2 (Head l') = read_cell s (Head l')" using dis by (intro cframe_read [OF f]) auto
    ultimately show ?thesis by simp
  qed
  let ?s = "upd_node t (\<lambda>m. m\<lparr>tm_list := Some l\<rparr>) s2"
  have "node_data ?s = (node_data s2)(t := (node_data s2 t)\<lparr>tm_list := Some l\<rparr>)"
    by (auto simp: node_data_def upd_node_def fun_eq_iff)
  moreover have "same_env s ?s"
    using cframe_env [OF f] by (simp add: same_env_def upd_node_def)
  moreover have "timer_list_insert l t s = Some ?s"
    by (simp add: timer_list_insert_def s1(1) s2(1))
  ultimately show ?thesis
    using s2(2) ys2 cframe_data [OF f] by (simp add: upd_node_keeps_nxt)
qed

text \<open>The list a timer started at \<open>now\<close> goes to.\<close>

definition wraps :: "('c, 's) multi_timer_ctx \<Rightarrow> ptr \<Rightarrow> u32 \<Rightarrow> bool" where
  "wraps s t now \<longleftrightarrow> period (heap s t) + now < now"

definition started :: "('c, 's) multi_timer_ctx \<Rightarrow> ptr \<Rightarrow> u32 \<Rightarrow> 'c multi_timer" where
  "started s t now = (node_data s t)\<lparr>delay := period (heap s t) + now,
     tm_list := Some (if wraps s t now then Overflow_List else Timer_List)\<rparr>"

lemma by_delay_remove1: "by_delay s xs \<Longrightarrow> by_delay s (remove1 t xs)"
  by (induction xs) (auto dest: set_remove1_subset [THEN subsetD])

text \<open>
  Starting a timer inserts it, by expiry, in the list of its round. The timer may already be in that
  list (it is moved) but must not be in the other one, which the code does not look at.
\<close>

lemma timer_insert_spec:
  assumes rep: "mt_rep s ts os" and t: "t \<notin> set (if wraps s t now then ts else os)"
  shows "\<exists>s' d. timer_insert t now s = Some s' \<and> d = (\<lambda>x. delay (heap s' x))
    \<and> mt_rep s' (if wraps s t now then ts else insert_at d t (remove1 t ts))
                (if wraps s t now then insert_at d t (remove1 t os) else os)
    \<and> node_data s' = (node_data s)(t := started s t now) \<and> same_env s s'"
proof -
  define s1 where "s1 = upd_node t (\<lambda>m. m\<lparr>delay := period m + now\<rparr>) s"
  define l where "l = (if wraps s t now then Overflow_List else Timer_List)"
  define l' where "l' = (if wraps s t now then Timer_List else Overflow_List)"
  define xs where "xs = (if wraps s t now then os else ts)"
  define ys where "ys = (if wraps s t now then ts else os)"
  have d1: "node_data s1 = (node_data s)(t := (node_data s t)\<lparr>delay := period (heap s t) + now\<rparr>)"
    by (auto simp: s1_def node_data_def upd_node_def fun_eq_iff)
  have p: "path (heap s1) (read_cell s1 (Head l)) xs" "path (heap s1) (read_cell s1 (Head l')) ys"
    using rep by (auto simp: s1_def upd_node_keeps_nxt mt_rep_def l_def l'_def xs_def ys_def)
  have dis: "l \<noteq> l'" "set xs \<inter> set ys = {}" "t \<notin> set ys"
    using rep t by (auto simp: mt_rep_def l_def l'_def xs_def ys_def)
  have ti: "timer_insert t now s = timer_list_insert l t s1"
    by (simp add: timer_insert_def s1_def l_def wraps_def upd_node_def)
  obtain s' where s': "timer_list_insert l t s1 = Some s'"
    "path (heap s') (read_cell s' (Head l)) (insert_at (\<lambda>x. delay (heap s1 x)) t (remove1 t xs))"
    "path (heap s') (read_cell s' (Head l')) ys"
    "node_data s' = (node_data s1)(t := (node_data s1 t)\<lparr>tm_list := Some l\<rparr>)" "same_env s1 s'"
    using timer_list_insert_spec [OF p dis] by blast
  have data: "node_data s' = (node_data s)(t := started s t now)"
    by (simp add: s'(4) d1 started_def l_def)
  have "delay (node_data s' x) = delay (node_data s1 x)" for x by (simp add: s'(4))
  then have dl: "(\<lambda>x. delay (heap s1 x)) = (\<lambda>x. delay (heap s' x))" by (simp add: mt_data)
  have del: "delay (heap s' x) = delay (heap s x)" if "x \<noteq> t" for x
    using that data node_data_eqD(1) [of s' x s] by simp
  have "by_delay s xs" "by_delay s ys" using rep by (auto simp: mt_rep_def xs_def ys_def)
  then have "by_delay s (remove1 t xs)" "by_delay s ys" by (auto intro: by_delay_remove1)
  moreover have "t \<notin> set (remove1 t xs)" using path_distinct [OF p(1)] by simp
  ultimately have so: "by_delay s' (remove1 t xs)" "by_delay s' ys"
    using dis(3) del by (auto intro: by_delay_other)
  have "by_delay s' (insert_at (\<lambda>x. delay (heap s' x)) t (remove1 t xs))"
    using so(1) by (rule sorted_insert_at)
  moreover have "set (remove1 t xs) \<inter> set ys = {}"
    using dis set_remove1_subset [of t xs] by auto
  ultimately have "mt_rep s' (if wraps s t now then ys else insert_at (\<lambda>x. delay (heap s' x)) t (remove1 t xs))
                (if wraps s t now then insert_at (\<lambda>x. delay (heap s' x)) t (remove1 t xs) else ys)"
    using s'(2,3) dis so(2) by (auto simp: mt_rep_def l_def l'_def dl)
  moreover have "same_env s s1" by (simp add: s1_def upd_node_def same_env_def)
  ultimately show ?thesis
    using s'(1) data same_env_trans [OF _ s'(5)] by (auto simp: ti xs_def ys_def split: if_splits)
qed


lemma remove1_id: "t \<notin> set xs \<Longrightarrow> remove1 t xs = xs"
  by (induction xs) auto

lemma remove1_filter: "distinct xs \<Longrightarrow> filter (\<lambda>x. x \<noteq> t) xs = remove1 t xs"
  by (induction xs) (auto simp: filter_id_conv)

lemma mt_repD:
  assumes "mt_rep s ts os"
  shows "distinct ts" "distinct os" "set ts \<inter> set os = {}"
  using assms path_distinct by (auto simp: mt_rep_def)

lemma mt_rep_same:
  assumes "mt_rep s ts os" "timer_list s' = timer_list s" "overflow_timer_list s' = overflow_timer_list s"
    "heap s' = heap s"
  shows "mt_rep s' ts os"
  using assms by (simp add: mt_rep_def)

subsection \<open>Stopping\<close>

lemma multi_timer_delete_spec:
  assumes rep: "mt_rep s ts os" and l: "tm_list (heap s t) = Some l"
  shows "\<exists>s'. multi_timer_delete (Some t) s = Some (QM_EOK, s')
    \<and> mt_rep s' (if l = Timer_List then remove1 t ts else ts) (if l = Overflow_List then remove1 t os else os)
    \<and> node_data s' = (node_data s)(t := (node_data s t)\<lparr>tm_list := None\<rparr>) \<and> same_env s s'"
proof -
  define l' where "l' = (case l of Timer_List \<Rightarrow> Overflow_List | Overflow_List \<Rightarrow> Timer_List)"
  define xs where "xs = (case l of Timer_List \<Rightarrow> ts | Overflow_List \<Rightarrow> os)"
  define ys where "ys = (case l of Timer_List \<Rightarrow> os | Overflow_List \<Rightarrow> ts)"
  have p: "path (heap s) (read_cell s (Head l)) xs" "path (heap s) (read_cell s (Head l')) ys"
    and dis: "l \<noteq> l'" "set xs \<inter> set ys = {}" and so: "by_delay s xs" "by_delay s ys"
    using rep by (auto simp: mt_rep_def l'_def xs_def ys_def split: list_id.splits)
  obtain s1 where s1: "unlink_loop t (Head l) s = Some s1"
    "path (heap s1) (read_cell s1 (Head l)) (remove1 t xs)" "cframe (insert (Head l) (Next ` set xs)) s s1"
    using unlink_loop_spec [OF p(1), of t] by auto
  have "path (heap s1) (read_cell s (Head l')) ys" using dis by (intro path_frame [OF p(2) s1(3)]) auto
  moreover have "read_cell s1 (Head l') = read_cell s (Head l')" using dis by (intro cframe_read [OF s1(3)]) auto
  ultimately have ys: "path (heap s1) (read_cell s1 (Head l')) ys" by simp
  let ?s = "upd_node t (\<lambda>m. m\<lparr>tm_list := None\<rparr>) s1"
  have "node_data ?s = (node_data s1)(t := (node_data s1 t)\<lparr>tm_list := None\<rparr>)"
    by (auto simp: node_data_def upd_node_def fun_eq_iff)
  then have data: "node_data ?s = (node_data s)(t := (node_data s t)\<lparr>tm_list := None\<rparr>)"
    by (simp add: cframe_data [OF s1(3)])
  have "delay (node_data ?s x) = delay (node_data s x)" for x by (simp add: data)
  then have "by_delay ?s (remove1 t xs)" "by_delay ?s ys"
    using so by_delay_remove1 [of s xs t] by (auto simp: mt_data by_delay_cong [of _ ?s s])
  moreover have "set (remove1 t xs) \<inter> set ys = {}" using dis set_remove1_subset [of t xs] by auto
  moreover have "path (heap ?s) (read_cell ?s (Head l)) (remove1 t xs)" "path (heap ?s) (read_cell ?s (Head l')) ys"
    using s1(2) ys by (simp_all add: upd_node_keeps_nxt)
  ultimately have "mt_rep ?s (if l = Timer_List then remove1 t ts else ts) (if l = Overflow_List then remove1 t os else os)"
    by (cases l) (auto simp: mt_rep_def l'_def xs_def ys_def)
  moreover have "same_env s ?s"
    using cframe_env [OF s1(3)] by (simp add: same_env_def upd_node_def)
  ultimately show ?thesis
    using l s1(1) data by (simp add: multi_timer_delete_def timer_list_remove_def)
qed

subsection \<open>Expiry processing\<close>

text \<open>Callbacks that touch only application state, so neither start nor stop a timer.\<close>

definition quiet_cb :: "('c, 's) callback \<Rightarrow> bool" where
  "quiet_cb cb \<longleftrightarrow> (\<forall>f p a s. \<exists>x. cb f p a s = s\<lparr>app := x\<rparr>)"

lemma quiet_cb_sel:
  assumes "quiet_cb cb"
  shows "heap (cb f p a s) = heap s" "timer_list (cb f p a s) = timer_list s"
    "overflow_timer_list (cb f p a s) = overflow_timer_list s"
    "last_time (cb f p a s) = last_time s" "fired (cb f p a s) = fired s"
proof -
  obtain x where "cb f p a s = s\<lparr>app := x\<rparr>" using assms unfolding quiet_cb_def by blast
  then show "heap (cb f p a s) = heap s" "timer_list (cb f p a s) = timer_list s"
    "overflow_timer_list (cb f p a s) = overflow_timer_list s"
    "last_time (cb f p a s) = last_time s" "fired (cb f p a s) = fired s" by simp_all
qed

lemma started_sel [mt_data]:
  "delay (started s t now) = period (heap s t) + now" "period (started s t now) = period (heap s t)"
  "callback (started s t now) = callback (heap s t)" "arg (started s t now) = arg (heap s t)"
  "auto_reload (started s t now) = auto_reload (heap s t)"
  "tm_list (started s t now) = Some (if wraps s t now then Overflow_List else Timer_List)"
  by (simp_all add: started_def mt_data)

lemma fire_head_spec:
  assumes rep: "mt_rep s (p # ts) os" and q: "quiet_cb cb"
  shows "\<exists>s' ts' os'. fire_head cb p now s = Some s' \<and> mt_rep s' ts' os'
    \<and> ts' = (if auto_reload (heap s p) \<and> \<not> wraps s p now then insert_at (\<lambda>x. delay (heap s' x)) p ts else ts)
    \<and> os' = (if auto_reload (heap s p) \<and> wraps s p now then insert_at (\<lambda>x. delay (heap s' x)) p os else os)
    \<and> node_data s' = (if auto_reload (heap s p) then (node_data s)(p := started s p now) else node_data s)
    \<and> fired s' = fired s @ (if callback (heap s p) = None then [] else [p]) \<and> last_time s' = last_time s"
proof -
  define s1 where "s1 = s\<lparr>timer_list := nxt (heap s p)\<rparr>"
  have rep1: "mt_rep s1 ts os" and p: "p \<notin> set ts" "p \<notin> set os"
    using rep mt_repD [OF rep] by (auto simp: mt_rep_def s1_def)
  have eqs: "wraps s1 p now = wraps s p now" "started s1 p now = started s p now" "node_data s1 = node_data s"
    "heap s1 = heap s" "fired s1 = fired s" "last_time s1 = last_time s"
    by (simp_all add: s1_def wraps_def started_def node_data_def fun_eq_iff)
  define ins where "ins = (if auto_reload (heap s1 p) then timer_insert p now s1 else Some s1)"
  have "\<exists>s2 ts' os'. ins = Some s2 \<and> mt_rep s2 ts' os'
    \<and> ts' = (if auto_reload (heap s p) \<and> \<not> wraps s p now then insert_at (\<lambda>x. delay (heap s2 x)) p ts else ts)
    \<and> os' = (if auto_reload (heap s p) \<and> wraps s p now then insert_at (\<lambda>x. delay (heap s2 x)) p os else os)
    \<and> node_data s2 = (if auto_reload (heap s p) then (node_data s)(p := started s p now) else node_data s)
    \<and> fired s2 = fired s \<and> last_time s2 = last_time s"
  proof (cases "auto_reload (heap s p)")
    case True
    then show ?thesis
      using timer_insert_spec [OF rep1, of p now] p
      by (cases "wraps s p now") (auto simp: ins_def eqs remove1_id same_env_def)
  next
    case False
    then show ?thesis using rep1 by (simp add: ins_def eqs)
  qed
  then obtain s2 ts' os' where s2: "ins = Some s2" "mt_rep s2 ts' os'"
    "ts' = (if auto_reload (heap s p) \<and> \<not> wraps s p now then insert_at (\<lambda>x. delay (heap s2 x)) p ts else ts)"
    "os' = (if auto_reload (heap s p) \<and> wraps s p now then insert_at (\<lambda>x. delay (heap s2 x)) p os else os)"
    "node_data s2 = (if auto_reload (heap s p) then (node_data s)(p := started s p now) else node_data s)"
    "fired s2 = fired s" "last_time s2 = last_time s"
    by blast
  define s3 where "s3 = (case callback (heap s2 p) of None \<Rightarrow> s2
    | Some f \<Rightarrow> cb f p (arg (heap s2 p)) (s2\<lparr>fired := fired s2 @ [p]\<rparr>))"
  have f: "fire_head cb p now s = Some s3"
    unfolding fire_head_def Let_def s1_def [symmetric] ins_def [symmetric] s2(1) s3_def by simp
  have cbk: "callback (heap s2 p) = callback (heap s p)"
    using s2(5) by (metis fun_upd_same node_data_sel(3) started_sel(3))
  have s3: "heap s3 = heap s2" "timer_list s3 = timer_list s2" "overflow_timer_list s3 = overflow_timer_list s2"
    "last_time s3 = last_time s2" "fired s3 = fired s2 @ (if callback (heap s p) = None then [] else [p])"
    by (cases "callback (heap s p)"; simp add: s3_def cbk quiet_cb_sel [OF q])+
  have "node_data s3 = node_data s2" by (simp add: node_data_def s3 fun_eq_iff)
  with f s2 s3 mt_rep_same [OF s2(2) s3(2,3,1)] show ?thesis by auto
qed


abbreviation due :: "('c, 's) multi_timer_ctx \<Rightarrow> u32 \<Rightarrow> ptr list \<Rightarrow> ptr list" where
  "due s now \<equiv> takeWhile (\<lambda>x. delay (heap s x) \<le> now)"

abbreviation reloads :: "('c, 's) multi_timer_ctx \<Rightarrow> ptr \<Rightarrow> bool" where
  "reloads s x \<equiv> auto_reload (heap s x)"

lemma due_insert_at:
  fixes d :: "ptr \<Rightarrow> u32"
  shows "now < d p \<Longrightarrow> takeWhile (\<lambda>x. d x \<le> now) (insert_at d p xs) = takeWhile (\<lambda>x. d x \<le> now) xs"
  by (induction xs) (auto simp: not_le intro: less_trans)

lemma due_cong:
  "(\<And>x. x \<in> set xs \<Longrightarrow> delay (heap s' x) = delay (heap s x)) \<Longrightarrow> due s' now xs = due s now xs"
  by (rule takeWhile_cong) auto

text \<open>A reloaded timer with a positive period that stays in the round is not due at once.\<close>

lemma reload_later:
  fixes now period :: u32
  assumes "period \<noteq> 0" "\<not> period + now < now"
  shows "now < period + now"
proof -
  have "period + now \<noteq> now" using assms(1) by simp
  with assms(2) show ?thesis by (metis linorder_neqE)
qed

lemma not_due_rest:
  assumes "by_delay s ts" "due s now ts = []" "x \<in> set ts"
  shows "now < delay (heap s x)"
proof (cases ts)
  case (Cons y ys)
  with assms(2) have "now < delay (heap s y)" by (simp split: if_splits)
  with assms(1,3) Cons show ?thesis by (auto intro: less_le_trans)
qed (use assms in simp)

text \<open>What one round of expiries must do: the outcome of firing the timers \<open>fs\<close>.\<close>

definition fired_round ::
  "('c, 's) multi_timer_ctx \<Rightarrow> u32 \<Rightarrow> ptr list \<Rightarrow> ('c, 's) multi_timer_ctx \<Rightarrow> bool" where
  "fired_round s now fs s' \<longleftrightarrow>
     fired s' = fired s @ filter (\<lambda>x. callback (heap s x) \<noteq> None) fs
     \<and> (\<forall>x. node_data s' x = (if x \<in> set fs \<and> reloads s x then started s x now else node_data s x))"

lemma fired_round_cons:
  assumes s1: "node_data s1 = (if reloads s p then (node_data s)(p := started s p now) else node_data s)"
    "fired s1 = fired s @ (if callback (heap s p) = None then [] else [p])"
    and p: "p \<notin> set fs" and r: "fired_round s1 now fs s'"
  shows "fired_round s now (p # fs) s'"
proof -
  have d: "node_data s1 x = node_data s x" if "x \<noteq> p" for x using s1(1) that by simp
  have e: "reloads s1 x = reloads s x" "started s1 x now = started s x now"
    "callback (heap s1 x) = callback (heap s x)" if "x \<noteq> p" for x
    using node_data_eqD [OF d [OF that]] d [OF that] by (auto simp: started_def wraps_def)
  have "filter (\<lambda>x. callback (heap s1 x) \<noteq> None) fs = filter (\<lambda>x. callback (heap s x) \<noteq> None) fs"
    using e(3) p by (metis (mono_tags, lifting) filter_cong)
  then have "fired s' = fired s @ filter (\<lambda>x. callback (heap s x) \<noteq> None) (p # fs)"
    using r s1(2) by (simp add: fired_round_def)
  moreover have "node_data s' x = (if x \<in> set (p # fs) \<and> reloads s x then started s x now else node_data s x)" for x
    using r p s1(1) d e by (cases "x = p") (auto simp: fired_round_def)
  ultimately show ?thesis by (simp add: fired_round_def)
qed

lemma fire_keeps_config:
  assumes "node_data s1 = (if reloads s p then (node_data s)(p := started s p now) else node_data s)"
  shows "reloads s1 x = reloads s x" "wraps s1 x now = wraps s x now" "period (heap s1 x) = period (heap s x)"
    "x \<noteq> p \<Longrightarrow> delay (heap s1 x) = delay (heap s x)"
proof -
  have e: "node_data s1 x = (if reloads s p \<and> x = p then started s p now else node_data s x)"
    using assms by simp
  show "reloads s1 x = reloads s x" using arg_cong [OF e, of auto_reload] by (simp add: mt_data split: if_splits)
  show per: "period (heap s1 x) = period (heap s x)"
    using arg_cong [OF e, of period] by (simp add: mt_data split: if_splits)
  show "wraps s1 x now = wraps s x now" by (simp add: wraps_def per)
  show "x \<noteq> p \<Longrightarrow> delay (heap s1 x) = delay (heap s x)"
    using arg_cong [OF e, of delay] by (simp add: mt_data)
qed

lemma fire_delay:
  assumes "node_data s1 = (if reloads s p then (node_data s)(p := started s p now) else node_data s)"
    "reloads s p"
  shows "delay (heap s1 p) = period (heap s p) + now"
  using arg_cong [OF assms(1), of "\<lambda>f. delay (f p)"] assms(2) by (simp add: mt_data)

lemma timer_process_spec:
  assumes q: "quiet_cb cb" and rep: "mt_rep s ts os"
    and per: "\<And>x. x \<in> set ts \<Longrightarrow> reloads s x \<Longrightarrow> period (heap s x) \<noteq> 0"
  shows "\<exists>s' ts' os'. timer_process cb now s = Some s' \<and> mt_rep s' ts' os'
    \<and> set ts' = set ts - set (due s now ts) \<union> {x \<in> set (due s now ts). reloads s x \<and> \<not> wraps s x now}
    \<and> set os' = set os \<union> {x \<in> set (due s now ts). reloads s x \<and> wraps s x now}
    \<and> fired_round s now (due s now ts) s' \<and> (\<forall>x \<in> set ts'. now < delay (heap s' x))"
  using rep per
proof (induction "due s now ts" arbitrary: s ts os)
  case Nil
  have sorted: "by_delay s ts" and tl: "path (heap s) (timer_list s) ts" using Nil.prems(1) by (auto simp: mt_rep_def)
  have "timer_process cb now s = Some s"
  proof (cases ts)
    case Nil
    then show ?thesis using tl by (subst timer_process.simps) simp
  next
    case (Cons y ys)
    with Nil.hyps tl show ?thesis by (subst timer_process.simps) (auto split: if_splits)
  qed
  moreover have "fired_round s now [] s" by (simp add: fired_round_def)
  moreover have "\<forall>x\<in>set ts. now < delay (heap s x)"
    using not_due_rest [OF sorted Nil.hyps [symmetric]] by simp
  ultimately show ?case using Nil.prems(1) Nil.hyps [symmetric] by (intro exI [of _ s] exI [of _ ts] exI [of _ os]) simp
next
  case (Cons p fs)
  then obtain ps where ts: "ts = p # ps" and pd: "delay (heap s p) \<le> now" and fs: "fs = due s now ps"
    by (cases ts) (auto split: if_splits)
  have dist: "p \<notin> set ps" "p \<notin> set os" using mt_repD [OF Cons.prems(1)] ts by auto
  obtain s1 ts1 os1 where s1: "fire_head cb p now s = Some s1" "mt_rep s1 ts1 os1"
    and ts1: "ts1 = (if reloads s p \<and> \<not> wraps s p now then insert_at (\<lambda>x. delay (heap s1 x)) p ps else ps)"
    and os1: "os1 = (if reloads s p \<and> wraps s p now then insert_at (\<lambda>x. delay (heap s1 x)) p os else os)"
    and data: "node_data s1 = (if reloads s p then (node_data s)(p := started s p now) else node_data s)"
    and fl: "fired s1 = fired s @ (if callback (heap s p) = None then [] else [p])"
    using fire_head_spec [OF Cons.prems(1) [unfolded ts] q, of now] by blast
  note keep = fire_keeps_config [OF data]
  have late: "now < delay (heap s1 p)" if "reloads s p" "\<not> wraps s p now"
    using fire_delay [OF data that(1)] reload_later [of "period (heap s p)" now] Cons.prems(2) [of p] that ts
    by (simp add: wraps_def)
  have "due s1 now ts1 = due s1 now ps" using late by (simp add: ts1 due_insert_at)
  moreover have "due s1 now ps = due s now ps" using dist keep(4) by (intro due_cong) metis
  ultimately have due1: "due s1 now ts1 = fs" by (simp add: fs)
  have "period (heap s1 x) \<noteq> 0" if "x \<in> set ts1" "reloads s1 x" for x
    using that Cons.prems(2) [of x] keep(1,3) ts1 ts by (auto split: if_splits)
  then obtain s' ts' os' where IH: "timer_process cb now s1 = Some s'" "mt_rep s' ts' os'"
    "set ts' = set ts1 - set fs \<union> {x \<in> set fs. reloads s x \<and> \<not> wraps s x now}"
    "set os' = set os1 \<union> {x \<in> set fs. reloads s x \<and> wraps s x now}"
    "fired_round s1 now fs s'" "\<forall>x \<in> set ts'. now < delay (heap s' x)"
    using Cons.hyps(1) [of s1 ts1 os1] s1(2) by (auto simp: due1 keep)
  have pfs: "p \<notin> set fs" using dist fs set_takeWhileD by fastforce
  have "timer_process cb now s = Some s'"
    using Cons.prems(1) ts pd s1(1) IH(1) by (subst timer_process.simps) (auto simp: mt_rep_def)
  moreover have "set ts' = set ts - set (p # fs) \<union> {x \<in> set (p # fs). reloads s x \<and> \<not> wraps s x now}"
    using IH(3) ts ts1 dist pfs by (auto split: if_splits)
  moreover have "set os' = set os \<union> {x \<in> set (p # fs). reloads s x \<and> wraps s x now}"
    using IH(4) os1 by (auto split: if_splits)
  moreover have "fired_round s now (p # fs) s'"
    by (rule fired_round_cons [OF data fl pfs IH(5)])
  moreover have "due s now ts = p # fs" using Cons.hyps(2) by simp
  ultimately show ?case
    using IH(2,6) by (intro exI [of _ s'] exI [of _ ts'] exI [of _ os'] conjI) simp_all
qed


lemma overflow_process_oneshot:
  assumes q: "quiet_cb cb" and rep: "mt_rep s ts os" and one: "\<And>x. x \<in> set ts \<Longrightarrow> \<not> reloads s x"
  shows "\<exists>s'. overflow_timer_process cb now s = Some s' \<and> mt_rep s' [] os \<and> fired_round s now ts s'"
  using rep one
proof (induction ts arbitrary: s)
  case Nil
  then show ?case by (subst overflow_timer_process.simps) (auto simp: mt_rep_def fired_round_def)
next
  case (Cons p ts)
  have dist: "p \<notin> set ts" using mt_repD [OF Cons.prems(1)] by simp
  have np: "\<not> reloads s p" using Cons.prems(2) by simp
  obtain s1 where s1: "fire_head cb p now s = Some s1" "mt_rep s1 ts os"
    and data: "node_data s1 = (if reloads s p then (node_data s)(p := started s p now) else node_data s)"
    and fl: "fired s1 = fired s @ (if callback (heap s p) = None then [] else [p])"
    using fire_head_spec [OF Cons.prems(1) q, of now] np by auto
  obtain s' where s': "overflow_timer_process cb now s1 = Some s'" "mt_rep s' [] os" "fired_round s1 now ts s'"
    using Cons.IH [OF s1(2)] Cons.prems(2) fire_keeps_config(1) [OF data] by auto
  have "overflow_timer_process cb now s = Some s'"
    using Cons.prems(1) s1(1) s'(1) by (subst overflow_timer_process.simps) (auto simp: mt_rep_def)
  with s'(2) fired_round_cons [OF data fl dist s'(3)] show ?case by auto
qed

text \<open>An auto-reload timer that is reinserted in the list being drained keeps the drain from ending.\<close>

definition reload_stuck :: "('c, 's) callback \<Rightarrow> u32 \<Rightarrow> ('c, 's) multi_timer_ctx \<Rightarrow> bool" where
  "reload_stuck cb now s \<longleftrightarrow> quiet_cb cb
     \<and> (\<exists>ts os p. mt_rep s ts os \<and> p \<in> set ts \<and> reloads s p \<and> \<not> wraps s p now)"

lemma reload_stuck_step:
  assumes "reload_stuck cb now s"
  shows "\<exists>y s1. timer_list s = Some y \<and> fire_head cb y now s = Some s1 \<and> reload_stuck cb now s1"
proof -
  obtain ts os p where q: "quiet_cb cb" and rep: "mt_rep s ts os"
    and p: "p \<in> set ts" "reloads s p" "\<not> wraps s p now"
    using assms by (auto simp: reload_stuck_def)
  then obtain y ys where ts: "ts = y # ys" by (cases ts) auto
  obtain s1 ts1 os1 where s1: "fire_head cb y now s = Some s1" "mt_rep s1 ts1 os1"
    and ts1: "ts1 = (if reloads s y \<and> \<not> wraps s y now then insert_at (\<lambda>x. delay (heap s1 x)) y ys else ys)"
    and data: "node_data s1 = (if reloads s y then (node_data s)(y := started s y now) else node_data s)"
    using fire_head_spec [OF rep [unfolded ts] q, of now] by blast
  have "p \<in> set ts1" using p ts ts1 by auto
  then have "reload_stuck cb now s1"
    using q s1(2) p(2,3) fire_keeps_config(1,2) [OF data] by (auto simp: reload_stuck_def)
  moreover have "timer_list s = Some y" using rep ts by (simp add: mt_rep_def)
  ultimately show ?thesis using s1(1) by blast
qed

lemma overflow_process_diverges:
  assumes "reload_stuck cb now s"
  shows "overflow_timer_process cb now s = None"
proof (rule ccontr)
  assume "overflow_timer_process cb now s \<noteq> None"
  then obtain s' where "overflow_timer_process cb now s = Some s'" by auto
  then have "\<not> reload_stuck cb now s"
  proof (rule overflow_timer_process.raw_induct [rotated])
    fix rec and cb :: "('c, 's) callback" and now s s'
    assume IH: "\<And>cb now s s'. rec cb now s = Some s' \<Longrightarrow> \<not> reload_stuck cb now s"
      and eq: "(case timer_list s of None \<Rightarrow> Some s
          | Some p \<Rightarrow> case fire_head cb p now s of None \<Rightarrow> None | Some s1 \<Rightarrow> rec cb now s1) = Some s'"
    show "\<not> reload_stuck cb now s"
    proof
      assume "reload_stuck cb now s"
      from reload_stuck_step [OF this] eq IH show False by auto
    qed
  qed
  with assms show False by simp
qed

lemma timer_list_switch_rep: "mt_rep s [] os \<Longrightarrow> mt_rep (timer_list_switch s) os []"
  by (simp add: mt_rep_def timer_list_switch_def)

lemma path_cut:
  assumes "path h p (as @ t # bs)" "\<And>x. x \<noteq> t \<Longrightarrow> nxt (h' x) = nxt (h x)" "nxt (h' t) = None"
  shows "path h' p (as @ [t])"
  using assms(1)
proof (induction as arbitrary: p)
  case Nil
  then show ?case using assms(3) by simp
next
  case (Cons a as)
  have "a \<noteq> t" using path_distinct [OF Cons.prems] by auto
  with Cons assms(2) show ?case by simp
qed

section \<open>Properties\<close>

text \<open>The states the properties are applied to: two timers in the current list and one in the other.\<close>

definition ex_node :: "ptr option \<Rightarrow> u32 \<Rightarrow> u32 \<Rightarrow> bool \<Rightarrow> list_id option \<Rightarrow> unit multi_timer" where
  "ex_node n d ms reload l =
     \<lparr>nxt = n, delay = d, period = ms, callback = Some (), arg = 0, auto_reload = reload, tm_list = l\<rparr>"

definition ex_cb :: "(unit, nat) callback" where
  "ex_cb f p a s = s\<lparr>app := app s + p\<rparr>"

definition ex_timers :: "(unit, nat) multi_timer_ctx" where
  "ex_timers = \<lparr>timer_list = Some 1, overflow_timer_list = Some 3,
     heap = (\<lambda>_. ex_node None 0 10 False None)
       (1 := ex_node (Some 2) 100 100 True (Some Timer_List), 2 := ex_node None 200 50 False (Some Timer_List),
        3 := ex_node None 5 4294967200 False (Some Overflow_List)),
     last_time = 90, fired = [], app = 0\<rparr>"

definition ex_wrapped :: "bool \<Rightarrow> (unit, nat) multi_timer_ctx" where
  "ex_wrapped reload = \<lparr>timer_list = Some 1, overflow_timer_list = Some 3,
     heap = (\<lambda>_. ex_node None 0 10 False None)
       (1 := ex_node (Some 2) 4294967200 100 reload (Some Timer_List),
        2 := ex_node None 4294967290 50 False (Some Timer_List),
        3 := ex_node None 5 100 False (Some Overflow_List)),
     last_time = 4294967100, fired = [], app = 0\<rparr>"

definition ex_overflow :: "(unit, nat) multi_timer_ctx" where
  "ex_overflow = \<lparr>timer_list = None, overflow_timer_list = Some 1,
     heap = (\<lambda>_. ex_node None 0 10 False None)
       (1 := ex_node (Some 2) 100 100 True (Some Overflow_List), 2 := ex_node None 200 50 False (Some Overflow_List)),
     last_time = 90, fired = [], app = 0\<rparr>"

lemma ex_cb_quiet: "quiet_cb ex_cb"
  by (auto simp: quiet_cb_def ex_cb_def)

lemma ex_timers_rep: "mt_rep ex_timers [1, 2] [3]"
  by (simp add: mt_rep_def ex_timers_def ex_node_def)

lemma ex_wrapped_rep: "mt_rep (ex_wrapped r) [1, 2] [3]"
  by (simp add: mt_rep_def ex_wrapped_def ex_node_def)



text \<open>C35: \<open>multi_timer_stop\<close> takes a timer out of the list it was started in, keeps the others in order
  and marks it as in no list.\<close>

theorem timer_stop_removes:
  assumes "mt_rep s ts os" "tm_list (heap s t) = Some l"
    "t \<in> set (case l of Timer_List \<Rightarrow> ts | Overflow_List \<Rightarrow> os)"
  shows "\<exists>s' ts' os'. multi_timer_stop (Some t) s = Some (QM_EOK, s') \<and> mt_rep s' ts' os'
    \<and> t \<notin> set ts' \<union> set os' \<and> ts' = filter (\<lambda>x. x \<noteq> t) ts \<and> os' = filter (\<lambda>x. x \<noteq> t) os
    \<and> tm_list (heap s' t) = None \<and> same_env s s'"
proof -
  obtain s' where s': "multi_timer_delete (Some t) s = Some (QM_EOK, s')"
    "mt_rep s' (if l = Timer_List then remove1 t ts else ts) (if l = Overflow_List then remove1 t os else os)"
    "node_data s' = (node_data s)(t := (node_data s t)\<lparr>tm_list := None\<rparr>)" "same_env s s'"
    using multi_timer_delete_spec [OF assms(1,2)] by blast
  have "tm_list (heap s' t) = None" using arg_cong [OF s'(3), of "\<lambda>f. tm_list (f t)"] by (simp add: mt_data)
  moreover have "t \<notin> set (case l of Timer_List \<Rightarrow> os | Overflow_List \<Rightarrow> ts)"
    using mt_repD(3) [OF assms(1)] assms(3) by (cases l) auto
  then have "mt_rep s' (filter (\<lambda>x. x \<noteq> t) ts) (filter (\<lambda>x. x \<noteq> t) os)"
    using s'(2) mt_repD(1,2) [OF assms(1)] by (cases l) (simp_all add: remove1_filter remove1_id)
  ultimately show ?thesis using s'(1,4) by (simp add: multi_timer_stop_def)
qed

theorem timer_stop_removes_witness:
  "\<exists>s'. multi_timer_stop (Some 1) ex_timers = Some (QM_EOK, s') \<and> mt_rep s' [2] [3]"
  using timer_stop_removes [OF ex_timers_rep, of 1 Timer_List]
  by (auto simp: ex_timers_def ex_node_def)




lemma timer_insert_ignores_delay:
  "timer_insert t now (upd_node t (\<lambda>m. m\<lparr>delay := d\<rparr>) s) = timer_insert t now s"
  by (simp add: timer_insert_def upd_node_def)

text \<open>When the clock has wrapped since the last call and the timers left in \<open>timer_list\<close> are one-shot,
  \<open>multi_timer_yield\<close> calls all of them back in order, makes the overflow list current, and fires the due
  timers of that list in order.\<close>

theorem timer_yield_wrap_oneshot:
  assumes "quiet_cb cb" "mt_rep s ts os" "now < last_time s" "\<forall>x \<in> set ts. \<not> auto_reload (heap s x)"
    "\<forall>x \<in> set os. auto_reload (heap s x) \<longrightarrow> period (heap s x) \<noteq> 0"
  shows "\<exists>r s' ts' os'. multi_timer_yield cb now later s = Some (r, s') \<and> mt_rep s' ts' os'
    \<and> fired s' = fired s @ filter (\<lambda>x. callback (heap s x) \<noteq> None) (ts @ due s now os)
    \<and> set ts' = set os - set (due s now os)
        \<union> {x \<in> set (due s now os). auto_reload (heap s x) \<and> \<not> wraps s x now}
    \<and> set os' = {x \<in> set (due s now os). auto_reload (heap s x) \<and> wraps s x now}
    \<and> (\<forall>x \<in> set ts'. now < delay (heap s' x))"
proof -
  obtain s1 where s1: "overflow_timer_process cb now s = Some s1" "mt_rep s1 [] os" "fired_round s now ts s1"
    using overflow_process_oneshot [OF assms(1,2)] assms(4) by blast
  define s2 where "s2 = timer_list_switch s1"
  have rep2: "mt_rep s2 os []" unfolding s2_def by (rule timer_list_switch_rep [OF s1(2)])
  have "node_data s2 x = node_data s x" for x
    using s1(3) assms(4) by (auto simp: fired_round_def s2_def timer_list_switch_def node_data_def)
  note eqs = node_data_eqD [OF this]
  have w: "wraps s2 x now = wraps s x now" for x by (simp add: wraps_def eqs)
  have f2: "fired s2 = fired s @ filter (\<lambda>x. callback (heap s x) \<noteq> None) ts"
    using s1(3) by (simp add: fired_round_def s2_def timer_list_switch_def)
  obtain s3 ts' os' where s3: "timer_process cb now s2 = Some s3" "mt_rep s3 ts' os'"
    "set ts' = set os - set (due s now os) \<union> {x \<in> set (due s now os). reloads s x \<and> \<not> wraps s x now}"
    "set os' = {x \<in> set (due s now os). reloads s x \<and> wraps s x now}"
    "fired_round s2 now (due s now os) s3" "\<forall>x \<in> set ts'. now < delay (heap s3 x)"
    using timer_process_spec [OF assms(1) rep2, of now] assms(5) by (auto simp: eqs w)
  define s' where "s' = s3\<lparr>last_time := later\<rparr>"
  have "\<exists>r. multi_timer_yield cb now later s = Some (r, s')"
    using assms(3) s1(1) s3(1) by (simp add: multi_timer_yield_def Let_def s2_def s'_def)
  moreover have "mt_rep s' ts' os'" by (rule mt_rep_same [OF s3(2)]) (simp_all add: s'_def)
  moreover have "fired s' = fired s @ filter (\<lambda>x. callback (heap s x) \<noteq> None) (ts @ due s now os)"
    using s3(5) by (simp add: fired_round_def s'_def f2 eqs)
  moreover have "\<forall>x \<in> set ts'. now < delay (heap s' x)" using s3(6) by (simp add: s'_def)
  ultimately show ?thesis using s3(3,4) by blast
qed

theorem timer_yield_wrap_oneshot_witness:
  "\<exists>r s'. multi_timer_yield ex_cb 7 8 (ex_wrapped False) = Some (r, s') \<and> fired s' = [1, 2, 3]"
proof -
  let ?s = "ex_wrapped False"
  have "(7 :: u32) < last_time ?s" "\<forall>x \<in> set [1, 2]. \<not> auto_reload (heap ?s x)"
    "\<forall>x \<in> set [3]. auto_reload (heap ?s x) \<longrightarrow> period (heap ?s x) \<noteq> 0"
    by (simp_all add: ex_wrapped_def ex_node_def)
  moreover have "filter (\<lambda>x. callback (heap ?s x) \<noteq> None) ([1, 2] @ due ?s 7 [3]) = [1, 2, 3]" "fired ?s = []"
    by (simp_all add: ex_wrapped_def ex_node_def)
  ultimately show ?thesis
    using timer_yield_wrap_oneshot [OF ex_cb_quiet ex_wrapped_rep, of 7 False 8] by auto
qed

text \<open>C40: when the clock has wrapped since the last call and an auto-reload timer is in \<open>timer_list\<close> (and
  its next expiry is in the new round), \<open>multi_timer_yield\<close> never returns: \<open>overflow_timer_process\<close>
  drains the list into which it reinserts the timer.\<close>

theorem timer_yield_wrap_reload_diverges:
  assumes "quiet_cb cb" "mt_rep s ts os" "now < last_time s"
    "p \<in> set ts" "auto_reload (heap s p)" "\<not> wraps s p now"
  shows "multi_timer_yield cb now later s = None"
proof -
  have "reload_stuck cb now s" using assms by (auto simp: reload_stuck_def)
  from overflow_process_diverges [OF this] assms(3) show ?thesis
    by (simp add: multi_timer_yield_def)
qed

theorem timer_yield_wrap_reload_diverges_witness:
  "multi_timer_yield ex_cb 7 8 (ex_wrapped True) = None"
proof -
  have "(7 :: u32) < last_time (ex_wrapped True)" "auto_reload (heap (ex_wrapped True) 1)"
    "\<not> wraps (ex_wrapped True) 1 7"
    by (simp_all add: ex_wrapped_def ex_node_def wraps_def)
  then show ?thesis
    using timer_yield_wrap_reload_diverges [OF ex_cb_quiet ex_wrapped_rep, of 7 True 1 8] by simp
qed

text \<open>C32: \<open>timer_list_switch\<close> does not update the \<open>list\<close> field of the timers it moves, so stopping a
  timer started before the wrap reports success and leaves it in the list of active timers.\<close>

theorem timer_stop_after_switch_ineffective:
  assumes "mt_rep s [] os" "t \<in> set os" "tm_list (heap s t) = Some Overflow_List"
  shows "\<exists>s'. multi_timer_stop (Some t) (timer_list_switch s) = Some (QM_EOK, s')
    \<and> mt_rep s' os [] \<and> t \<in> set os"
proof -
  have "tm_list (heap (timer_list_switch s) t) = Some Overflow_List"
    using assms(3) by (simp add: timer_list_switch_def)
  from multi_timer_delete_spec [OF timer_list_switch_rep [OF assms(1)] this] assms(2)
  show ?thesis by (auto simp: multi_timer_stop_def)
qed

theorem timer_stop_after_switch_ineffective_witness:
  "\<exists>s'. multi_timer_stop (Some 1) (timer_list_switch ex_overflow) = Some (QM_EOK, s') \<and> mt_rep s' [1, 2] []"
  using timer_stop_after_switch_ineffective [of ex_overflow "[1, 2]" 1]
  by (simp add: ex_overflow_def mt_rep_def ex_node_def)

text \<open>For the same reason \<open>multi_timer_change\<close> on such a timer clears its \<open>next\<close> field while it is
  still linked: every timer that was after it in the list is lost.\<close>

theorem timer_change_after_switch_truncates:
  assumes "mt_rep s (as @ t # bs) []" "tm_list (heap s t) = Some Overflow_List" "now \<le> ms + now"
  shows "\<exists>s'. multi_timer_change (Some t) ms now s = Some (QM_EOK, s')
    \<and> mt_rep s' (insert_at (\<lambda>x. delay (heap s' x)) t as) []"
proof -
  let ?m = "heap s t"
  obtain s1 where s1: "multi_timer_delete (Some t) s = Some (QM_EOK, s1)" "mt_rep s1 (as @ t # bs) []"
    "node_data s1 = (node_data s)(t := (node_data s t)\<lparr>tm_list := None\<rparr>)"
    using multi_timer_delete_spec [OF assms(1,2)] by auto
  define s2 where "s2 = snd (multi_timer_creat (Some t) (callback ?m) (arg ?m) ms (auto_reload ?m) s1)"
  have s2: "timer_list s2 = timer_list s1" "overflow_timer_list s2 = overflow_timer_list s1"
    "x \<noteq> t \<Longrightarrow> heap s2 x = heap s1 x" "heap s2 t = \<lparr>nxt = None, delay = 0, period = ms, callback = callback ?m,
       arg = arg ?m, auto_reload = auto_reload ?m, tm_list = None\<rparr>" for x
    by (simp_all add: s2_def multi_timer_creat_def)
  have dist: "t \<notin> set as" using mt_repD(1) [OF s1(2)] by simp
  have "path (heap s1) (timer_list s1) (as @ t # bs)" using s1(2) by (simp add: mt_rep_def)
  then have p2: "path (heap s2) (timer_list s2) (as @ [t])"
    unfolding s2(1) by (rule path_cut) (simp_all add: s2)
  define s2' where "s2' = upd_node t (\<lambda>m. m\<lparr>delay := delay (heap s1 t)\<rparr>) s2"
  have "by_delay s1 (as @ [t])" using s1(2) by (auto simp: mt_rep_def sorted_wrt_append)
  moreover have "delay (heap s2' x) = delay (heap s1 x)" for x
    by (cases "x = t") (simp_all add: s2'_def upd_node_def s2(3))
  ultimately have "by_delay s2' (as @ [t])" using by_delay_cong [of "as @ [t]" s2' s1] by simp
  moreover have "overflow_timer_list s2 = None" using s1(2) s2(2) by (simp add: mt_rep_def)
  ultimately have rep: "mt_rep s2' (as @ [t]) []"
    using p2 by (simp add: mt_rep_def s2'_def upd_node_keeps_nxt) (simp add: upd_node_def)
  have "\<not> wraps s2' t now" using assms(3) by (simp add: wraps_def s2'_def upd_node_def s2(4) not_less)
  then obtain s3 where s3: "timer_insert t now s2 = Some s3" "mt_rep s3 (insert_at (\<lambda>x. delay (heap s3 x)) t as) []"
    using timer_insert_spec [OF rep, of t now] dist
    by (auto simp: s2'_def timer_insert_ignores_delay remove1_append)
  then show ?thesis
    using s1(1) by (simp add: multi_timer_change_def multi_timer_start_def s2_def Let_def case_prod_beta)
qed

theorem timer_change_after_switch_truncates_witness:
  "\<exists>s'. multi_timer_change (Some 1) 500 7 (timer_list_switch ex_overflow) = Some (QM_EOK, s') \<and> mt_rep s' [1] []"
  using timer_change_after_switch_truncates [of "timer_list_switch ex_overflow" "[]" 1 "[2]" 7 500]
  by (simp add: timer_list_switch_def ex_overflow_def mt_rep_def ex_node_def)

end
