(* ===== verification/Byte_Order.thy ===== *)
theory Byte_Order
  imports QM_Prelude
begin

text \<open>
  The byte-order macros of \<^verbatim>\<open>include/common/qm_types.h\<close>. The byte order of the processor
  (\<open>CONFIG_CPU_BIGENDIAN\<close>) is an argument; \<open>store16\<close> and \<open>load16\<close> are the \<open>memcpy\<close> of a
  16-bit object to and from bytes on such a processor. The lemmas show that writing
  \<open>cpu_to_be16 (x)\<close> puts the most significant byte first on both kinds of processor, and that reading
  it back with \<open>be16_to_cpu\<close> gives \<open>x\<close>; likewise for 32 bits.
\<close>

unbundle bit_operations_syntax

definition swab16 :: "u16 \<Rightarrow> u16" where
  "swab16 x = push_bit 8 (x AND 0x00ff) OR drop_bit 8 (x AND 0xff00)"

definition swab32 :: "u32 \<Rightarrow> u32" where
  "swab32 x = push_bit 24 (x AND 0x000000ff) OR push_bit 8 (x AND 0x0000ff00)
     OR drop_bit 8 (x AND 0x00ff0000) OR drop_bit 24 (x AND 0xff000000)"

definition cpu_to_be16 :: "bool \<Rightarrow> u16 \<Rightarrow> u16" where
  "cpu_to_be16 big x = (if big then x else swab16 x)"

definition be16_to_cpu :: "bool \<Rightarrow> u16 \<Rightarrow> u16" where
  "be16_to_cpu big x = (if big then x else swab16 x)"

definition cpu_to_be32 :: "bool \<Rightarrow> u32 \<Rightarrow> u32" where
  "cpu_to_be32 big x = (if big then x else swab32 x)"

definition be32_to_cpu :: "bool \<Rightarrow> u32 \<Rightarrow> u32" where
  "be32_to_cpu big x = (if big then x else swab32 x)"

text \<open>The bytes of an integer, least significant first, and back.\<close>

definition bytes16 :: "u16 \<Rightarrow> u8 list" where
  "bytes16 x = [ucast x, ucast (drop_bit 8 x)]"

definition bytes32 :: "u32 \<Rightarrow> u8 list" where
  "bytes32 x = [ucast x, ucast (drop_bit 8 x), ucast (drop_bit 16 x), ucast (drop_bit 24 x)]"

fun of_bytes16 :: "u8 list \<Rightarrow> u16" where
  "of_bytes16 [a, b] = ucast a OR push_bit 8 (ucast b)"
| "of_bytes16 _ = 0"

fun of_bytes32 :: "u8 list \<Rightarrow> u32" where
  "of_bytes32 [a, b, c, d] = ucast a OR push_bit 8 (ucast b) OR push_bit 16 (ucast c) OR push_bit 24 (ucast d)"
| "of_bytes32 _ = 0"

definition store16 :: "bool \<Rightarrow> u16 \<Rightarrow> u8 list" where
  "store16 big x = (if big then rev (bytes16 x) else bytes16 x)"

definition load16 :: "bool \<Rightarrow> u8 list \<Rightarrow> u16" where
  "load16 big bs = of_bytes16 (if big then rev bs else bs)"

definition store32 :: "bool \<Rightarrow> u32 \<Rightarrow> u8 list" where
  "store32 big x = (if big then rev (bytes32 x) else bytes32 x)"

definition load32 :: "bool \<Rightarrow> u8 list \<Rightarrow> u32" where
  "load32 big bs = of_bytes32 (if big then rev bs else bs)"

lemma length_store [simp]: "length (store16 big x) = 2" "length (store32 big y) = 4"
  by (simp_all add: store16_def bytes16_def store32_def bytes32_def)

subsection \<open>Swapping\<close>

lemma byte_masks:
  "(0x00ff :: u16) = mask 8" "(0xff00 :: u16) = push_bit 8 (mask 8)"
  "(0x000000ff :: u32) = mask 8" "(0x0000ff00 :: u32) = push_bit 8 (mask 8)"
  "(0x00ff0000 :: u32) = push_bit 16 (mask 8)" "(0xff000000 :: u32) = push_bit 24 (mask 8)"
  by code_simp+

lemma bytes16_swab: "bytes16 (swab16 x) = rev (bytes16 x)"
  unfolding bytes16_def swab16_def byte_masks
  by (auto simp: bit_simps intro!: bit_word_eqI)

lemma of_bytes16_bytes16 [simp]: "of_bytes16 (bytes16 x) = x"
  by (auto simp: bytes16_def bit_simps intro!: bit_word_eqI)

lemma bytes32_swab: "bytes32 (swab32 x) = rev (bytes32 x)"
  unfolding bytes32_def swab32_def byte_masks
  by (auto simp: bit_simps intro!: bit_word_eqI)

lemma of_bytes32_bytes32 [simp]: "of_bytes32 (bytes32 x) = x"
proof (rule bit_word_eqI)
  fix n assume "n < LENGTH(32)"
  then consider "n < 8" | "8 \<le> n" "n < 16" | "16 \<le> n" "n < 24" | "24 \<le> n" "n < 32" by fastforce
  then show "bit (of_bytes32 (bytes32 x)) n = bit x n"
    by cases (auto simp: bytes32_def bit_simps)
qed

lemma store16_be: "store16 big (cpu_to_be16 big x) = rev (bytes16 x)"
  by (simp add: store16_def cpu_to_be16_def bytes16_swab)

lemma store32_be: "store32 big (cpu_to_be32 big x) = rev (bytes32 x)"
  by (simp add: store32_def cpu_to_be32_def bytes32_swab)

lemma swab16_swab16: "swab16 (swab16 x) = x"
  by (metis bytes16_swab of_bytes16_bytes16 rev_rev_ident)

lemma swab32_swab32: "swab32 (swab32 x) = x"
  by (metis bytes32_swab of_bytes32_bytes32 rev_rev_ident)

lemma load16_store16 [simp]: "load16 big (store16 big x) = x"
  by (simp add: load16_def store16_def)

lemma load32_store32 [simp]: "load32 big (store32 big x) = x"
  by (simp add: load32_def store32_def)

lemma be16_cpu [simp]: "be16_to_cpu big (cpu_to_be16 big x) = x"
  by (simp add: be16_to_cpu_def cpu_to_be16_def swab16_swab16)

lemma be32_cpu [simp]: "be32_to_cpu big (cpu_to_be32 big x) = x"
  by (simp add: be32_to_cpu_def cpu_to_be32_def swab32_swab32)

end
