(* ===== verification/Tlv.thy ===== *)
theory Tlv
  imports Byte_Order
begin

text \<open>
  The tagged blocks of \<^verbatim>\<open>utility/tlv/qm_tlv.c\<close>: contexts, blocks and their values. A context is
  a list of blocks with distinct tags; the linked list is modelled as the list of its nodes in order,
  each with its address. The compile-time options of \<^verbatim>\<open>qm_tlv.h\<close> are a record, so that both
  branches of every \<open>#if\<close> on a size are in the model; the three formats and \<open>CONFIG_QM_TTLV_ARG\<close> are
  on, as in the shipped configurations.

  A block holds a value of at most \<open>CONFIG_QM_TLV_BUF_SIZE\<close> bytes in place and a longer one
  through a pointer, in a union. What the union's bytes are while it holds a pointer, and which pointer
  its bytes denote, are the platform's: the fields \<open>ptr_repr\<close> and \<open>bytes_ptr\<close>. Allocation is a
  parameter too: \<open>grants i n\<close> says whether the \<open>i\<close>-th request, for \<open>n\<close> bytes, is granted. The set
  \<open>live\<close> records the allocations not yet freed.

  A pointer argument that may be \<open>NULL\<close> is an option, and so is a function's result when the code can
  use a \<open>NULL\<close> pointer in \<open>memcpy\<close> or \<open>memcmp\<close>: \<open>None\<close> is that undefined behaviour.
\<close>

subsection \<open>Memory\<close>

record mem =
  grants :: "nat \<Rightarrow> nat \<Rightarrow> bool"
  next_addr :: nat
  live :: "nat set"

definition tlv_malloc :: "nat \<Rightarrow> mem \<Rightarrow> nat option \<times> mem" where
  "tlv_malloc n m =
     (if grants m (next_addr m) n
      then (Some (next_addr m), m\<lparr>next_addr := Suc (next_addr m), live := insert (next_addr m) (live m)\<rparr>)
      else (None, m\<lparr>next_addr := Suc (next_addr m)\<rparr>))"

definition tlv_free :: "nat \<Rightarrow> mem \<Rightarrow> mem" where
  "tlv_free a m = m\<lparr>live := live m - {a}\<rparr>"

subsection \<open>Configuration\<close>

type_synonym heap_data = "(nat \<times> u8 list) option"

record tlv_config =
  big_endian :: bool
  dttv_tag_size :: nat
  dttv_length_size :: nat
  tlv_tag_size :: nat
  tlv_length_size :: nat
  ttlv_tag_size :: nat
  ttlv_length_size :: nat
  buf_size :: nat
  force_update :: bool
  int16_support :: bool
  int32_support :: bool
  int64_support :: bool
  float32_support :: bool
  float64_support :: bool
  bytes_support :: bool
  block_bytes :: nat
  ptr_repr :: "heap_data \<Rightarrow> u8 list"
  bytes_ptr :: "u8 list \<Rightarrow> heap_data"

definition tag_byte :: "tlv_config \<Rightarrow> nat" where
  "tag_byte c = (if tlv_tag_size c = 2 \<or> dttv_tag_size c = 2 \<or> ttlv_tag_size c = 2 then 2 else 1)"

definition length_byte :: "tlv_config \<Rightarrow> nat" where
  "length_byte c = (if tlv_length_size c = 2 \<or> dttv_length_size c = 2 \<or> ttlv_length_size c = 2 then 2 else 1)"

text \<open>Assignment to a field of 1 or 2 bytes.\<close>

definition narrow :: "nat \<Rightarrow> u16 \<Rightarrow> u16" where
  "narrow n x = (if n = 1 then ucast (ucast x :: u8) else x)"

subsection \<open>Blocks\<close>

datatype tlv_value = Bytes "u8 list" | Pdata heap_data

record tlv_flags =
  update :: bool
  serialization :: bool
  divide :: bool

record tlv_block =
  flag :: tlv_flags
  ty :: u8
  tag :: u16
  len :: u16
  val :: tlv_value
  barg :: nat

record tlv_ctx =
  count :: int
  carg :: nat
  blocks :: "(nat \<times> tlv_block) list"

abbreviation blen :: "tlv_block \<Rightarrow> nat" where
  "blen b \<equiv> unat (len b)"

definition value_bytes :: "tlv_config \<Rightarrow> tlv_value \<Rightarrow> u8 list" where
  "value_bytes c v = (case v of Bytes bs \<Rightarrow> bs | Pdata p \<Rightarrow> ptr_repr c p)"

definition value_pdata :: "tlv_config \<Rightarrow> tlv_value \<Rightarrow> heap_data" where
  "value_pdata c v = (case v of Bytes bs \<Rightarrow> bytes_ptr c bs | Pdata p \<Rightarrow> p)"

text \<open>\<open>memset\<close> of the union's bytes followed by a \<open>memcpy\<close> to their start.\<close>

definition overlay :: "nat \<Rightarrow> u8 list \<Rightarrow> u8 list" where
  "overlay n bs = bs @ replicate (n - length bs) 0"

definition set_update :: "bool \<Rightarrow> tlv_block \<Rightarrow> tlv_block" where
  "set_update u b = b\<lparr>flag := (flag b)\<lparr>update := u\<rparr>\<rparr>"

definition qm_tlv_block_creat :: "tlv_config \<Rightarrow> mem \<Rightarrow> (nat \<times> tlv_block) option \<times> mem" where
  "qm_tlv_block_creat c m =
     (case tlv_malloc (block_bytes c) m of
        (None, m) \<Rightarrow> (None, m)
      | (Some a, m) \<Rightarrow>
          (Some (a, \<lparr>flag = \<lparr>update = False, serialization = False, divide = False\<rparr>, ty = 0, tag = 0, len = 0,
                    val = Bytes (replicate (buf_size c) 0), barg = 0\<rparr>), m))"

text \<open>The free of a long value, as in the pack functions (\<open>if (pdata) free\<close>).\<close>

definition free_pdata :: "tlv_config \<Rightarrow> tlv_block \<Rightarrow> mem \<Rightarrow> mem" where
  "free_pdata c b m = (case value_pdata c (val b) of None \<Rightarrow> m | Some (a, _) \<Rightarrow> tlv_free a m)"

definition drop_pdata :: "tlv_config \<Rightarrow> tlv_block \<Rightarrow> mem \<Rightarrow> tlv_block \<times> mem" where
  "drop_pdata c b m =
     (if blen b > buf_size c
      then (case value_pdata c (val b) of
              None \<Rightarrow> (b, m)
            | Some (a, _) \<Rightarrow> (b\<lparr>val := Pdata None\<rparr>, tlv_free a m))
      else (b, m))"

definition qm_tlv_block_delete :: "tlv_config \<Rightarrow> (nat \<times> tlv_block) option \<Rightarrow> mem \<Rightarrow> int \<times> mem" where
  "qm_tlv_block_delete c b m =
     (case b of
        None \<Rightarrow> (- QM_EINVAL, m)
      | Some (a, b) \<Rightarrow>
          (let m1 = (if blen b > buf_size c then free_pdata c b m else m)
           in (QM_EOK, tlv_free a m1)))"

subsection \<open>Packing\<close>

definition qm_tlv_pack_uint8 ::
  "tlv_config \<Rightarrow> tlv_block option \<Rightarrow> u8 \<Rightarrow> mem \<Rightarrow> int \<times> tlv_block option \<times> mem" where
  "qm_tlv_pack_uint8 c b v m =
     (case b of
        None \<Rightarrow> (- QM_EINVAL, None, m)
      | Some b \<Rightarrow>
          (case drop_pdata c b m of (b, m) \<Rightarrow>
             (QM_EOK, Some (b\<lparr>val := Bytes ((value_bytes c (val b))[0 := v]), len := 1\<rparr>), m)))"

definition qm_tlv_pack_bool ::
  "tlv_config \<Rightarrow> tlv_block option \<Rightarrow> u8 \<Rightarrow> mem \<Rightarrow> int \<times> tlv_block option \<times> mem" where
  "qm_tlv_pack_bool c b v m = qm_tlv_pack_uint8 c b v m"

definition qm_tlv_pack_int8 ::
  "tlv_config \<Rightarrow> tlv_block option \<Rightarrow> u8 \<Rightarrow> mem \<Rightarrow> int \<times> tlv_block option \<times> mem" where
  "qm_tlv_pack_int8 c b v m = qm_tlv_pack_uint8 c b v m"

definition qm_tlv_pack_uint16 ::
  "tlv_config \<Rightarrow> tlv_block option \<Rightarrow> u16 \<Rightarrow> mem \<Rightarrow> int \<times> tlv_block option \<times> mem" where
  "qm_tlv_pack_uint16 c b v m =
     (case b of
        None \<Rightarrow> (- QM_EINVAL, None, m)
      | Some b \<Rightarrow>
          (case drop_pdata c b m of (b, m) \<Rightarrow>
             let tmp = cpu_to_be16 (big_endian c) v
             in (QM_EOK, Some (b\<lparr>val := Bytes (overlay (buf_size c) (store16 (big_endian c) tmp)), len := 2\<rparr>), m)))"

definition qm_tlv_pack_int16 ::
  "tlv_config \<Rightarrow> tlv_block option \<Rightarrow> u16 \<Rightarrow> mem \<Rightarrow> int \<times> tlv_block option \<times> mem" where
  "qm_tlv_pack_int16 c b v m = qm_tlv_pack_uint16 c b v m"

definition qm_tlv_pack_uint32 ::
  "tlv_config \<Rightarrow> tlv_block option \<Rightarrow> u32 \<Rightarrow> mem \<Rightarrow> int \<times> tlv_block option \<times> mem" where
  "qm_tlv_pack_uint32 c b v m =
     (case b of
        None \<Rightarrow> (- QM_EINVAL, None, m)
      | Some b \<Rightarrow>
          (case drop_pdata c b m of (b, m) \<Rightarrow>
             let tmp = cpu_to_be32 (big_endian c) v
             in (QM_EOK, Some (b\<lparr>val := Bytes (overlay (buf_size c) (store32 (big_endian c) tmp)), len := 4\<rparr>), m)))"

definition qm_tlv_pack_int32 ::
  "tlv_config \<Rightarrow> tlv_block option \<Rightarrow> u32 \<Rightarrow> mem \<Rightarrow> int \<times> tlv_block option \<times> mem" where
  "qm_tlv_pack_int32 c b v m = qm_tlv_pack_uint32 c b v m"

text \<open>A \<open>float32_t\<close> is its four bytes in memory order; the long value it replaces is not freed.\<close>

definition qm_tlv_pack_float32 :: "tlv_config \<Rightarrow> tlv_block option \<Rightarrow> u8 list \<Rightarrow> int \<times> tlv_block option" where
  "qm_tlv_pack_float32 c b v =
     (case b of
        None \<Rightarrow> (- QM_EINVAL, None)
      | Some b \<Rightarrow> (QM_EOK, Some (b\<lparr>val := Bytes (overlay (buf_size c) v), len := 4\<rparr>)))"

text \<open>\<open>bytes\<close> is the memory read through the pointer, \<open>size\<close> bytes of it; the length is cut to its field.\<close>

definition pack_bytes :: "tlv_config \<Rightarrow> tlv_block \<Rightarrow> u8 list \<Rightarrow> mem \<Rightarrow> int \<times> tlv_block \<times> mem" where
  "pack_bytes c b bs m =
     (if length bs = 0 then (- QM_EINVAL, b, m)
      else (case drop_pdata c b m of (b, m) \<Rightarrow>
              let l = narrow (length_byte c) (word_of_nat (length bs))
              in if length bs \<le> buf_size c
                 then (QM_EOK, b\<lparr>val := Bytes (overlay (buf_size c) bs), len := l\<rparr>, m)
                 else (case tlv_malloc (length bs) m of
                         (None, m) \<Rightarrow> (- QM_ENOMEM, b\<lparr>val := Pdata None\<rparr>, m)
                       | (Some a, m) \<Rightarrow> (QM_EOK, b\<lparr>val := Pdata (Some (a, bs)), len := l\<rparr>, m))))"

definition qm_tlv_pack_bytes ::
  "tlv_config \<Rightarrow> tlv_block option \<Rightarrow> u8 list option \<Rightarrow> mem \<Rightarrow> int \<times> tlv_block option \<times> mem" where
  "qm_tlv_pack_bytes c b bytes m =
     (case (b, bytes) of
        (Some b, Some bs) \<Rightarrow> (case pack_bytes c b bs m of (r, b, m) \<Rightarrow> (r, Some b, m))
      | _ \<Rightarrow> (- QM_EINVAL, b, m))"

definition qm_tlv_pack_string ::
  "tlv_config \<Rightarrow> tlv_block option \<Rightarrow> u8 list option \<Rightarrow> mem \<Rightarrow> int \<times> tlv_block option \<times> mem" where
  "qm_tlv_pack_string c b str m = qm_tlv_pack_bytes c b str m"

subsection \<open>Unpacking\<close>

text \<open>They return the code's result, the block with its update flag cleared, and the value written.\<close>

definition qm_tlv_unpack_uint8 :: "tlv_config \<Rightarrow> tlv_block option \<Rightarrow> int \<times> tlv_block option \<times> u8 option" where
  "qm_tlv_unpack_uint8 c b =
     (case b of
        None \<Rightarrow> (- QM_EINVAL, None, None)
      | Some b \<Rightarrow> (QM_EOK, Some (set_update False b), Some (value_bytes c (val b) ! 0)))"

definition qm_tlv_unpack_bool :: "tlv_config \<Rightarrow> tlv_block option \<Rightarrow> int \<times> tlv_block option \<times> u8 option" where
  "qm_tlv_unpack_bool c b = qm_tlv_unpack_uint8 c b"

definition qm_tlv_unpack_int8 :: "tlv_config \<Rightarrow> tlv_block option \<Rightarrow> int \<times> tlv_block option \<times> u8 option" where
  "qm_tlv_unpack_int8 c b = qm_tlv_unpack_uint8 c b"

definition qm_tlv_unpack_uint16 :: "tlv_config \<Rightarrow> tlv_block option \<Rightarrow> int \<times> tlv_block option \<times> u16 option" where
  "qm_tlv_unpack_uint16 c b =
     (case b of
        None \<Rightarrow> (- QM_EINVAL, None, None)
      | Some b \<Rightarrow>
          (let tmp = load16 (big_endian c) (take 2 (value_bytes c (val b)))
           in (QM_EOK, Some (set_update False b), Some (be16_to_cpu (big_endian c) tmp))))"

definition qm_tlv_unpack_int16 :: "tlv_config \<Rightarrow> tlv_block option \<Rightarrow> int \<times> tlv_block option \<times> u16 option" where
  "qm_tlv_unpack_int16 c b = qm_tlv_unpack_uint16 c b"

definition qm_tlv_unpack_uint32 :: "tlv_config \<Rightarrow> tlv_block option \<Rightarrow> int \<times> tlv_block option \<times> u32 option" where
  "qm_tlv_unpack_uint32 c b =
     (case b of
        None \<Rightarrow> (- QM_EINVAL, None, None)
      | Some b \<Rightarrow>
          (let tmp = load32 (big_endian c) (take 4 (value_bytes c (val b)))
           in (QM_EOK, Some (set_update False b), Some (be32_to_cpu (big_endian c) tmp))))"

definition qm_tlv_unpack_int32 :: "tlv_config \<Rightarrow> tlv_block option \<Rightarrow> int \<times> tlv_block option \<times> u32 option" where
  "qm_tlv_unpack_int32 c b = qm_tlv_unpack_uint32 c b"

definition qm_tlv_unpack_float32 :: "tlv_config \<Rightarrow> tlv_block option \<Rightarrow> int \<times> tlv_block option \<times> u8 list option" where
  "qm_tlv_unpack_float32 c b =
     (case b of
        None \<Rightarrow> (- QM_EINVAL, None, None)
      | Some b \<Rightarrow> (QM_EOK, Some (set_update False b), Some (take 4 (value_bytes c (val b)))))"

text \<open>
  \<open>unpack_direct\<close> gives the size and the pointer to the value: its bytes, \<open>None\<close> for \<open>NULL\<close>.
\<close>

definition qm_tlv_unpack_direct :: "tlv_config \<Rightarrow> tlv_block option \<Rightarrow> int \<times> (nat \<times> u8 list option) option" where
  "qm_tlv_unpack_direct c b =
     (case b of
        None \<Rightarrow> (- QM_EINVAL, None)
      | Some b \<Rightarrow>
          (QM_EOK, Some (blen b, if blen b \<le> buf_size c then Some (take (blen b) (value_bytes c (val b)))
                                 else map_option snd (value_pdata c (val b)))))"

definition qm_tlv_unpack_bytes_direct ::
  "tlv_config \<Rightarrow> tlv_block option \<Rightarrow> int \<times> tlv_block option \<times> (nat \<times> u8 list option) option" where
  "qm_tlv_unpack_bytes_direct c b =
     (case b of
        None \<Rightarrow> (- QM_EINVAL, None, None)
      | Some b \<Rightarrow> (QM_EOK, Some (set_update False b), snd (qm_tlv_unpack_direct c (Some b))))"

definition qm_tlv_unpack_string_direct ::
  "tlv_config \<Rightarrow> tlv_block option \<Rightarrow> int \<times> tlv_block option \<times> (nat \<times> u8 list option) option" where
  "qm_tlv_unpack_string_direct c b = qm_tlv_unpack_bytes_direct c b"

text \<open>
  \<open>copy\<close> says whether a destination is given. The size the caller passes is overwritten before it is
  checked, so it has no effect and is not an argument. Results: code, size written, block, bytes written.
\<close>

definition qm_tlv_unpack_bytes ::
  "tlv_config \<Rightarrow> tlv_block option \<Rightarrow> bool \<Rightarrow> (int \<times> int \<times> tlv_block option \<times> u8 list) option" where
  "qm_tlv_unpack_bytes c b copy =
     (case b of
        None \<Rightarrow> Some (- QM_EINVAL, 0, None, [])
      | Some b \<Rightarrow>
          (let size = int (blen b)
           in if \<not> copy then Some (QM_EOK, size, Some b, [])
              else if size < int (blen b) then Some (- QM_EINVAL, size, Some b, [])
              else (case the (snd (qm_tlv_unpack_direct c (Some b))) of
                      (_, None) \<Rightarrow> None
                    | (_, Some bs) \<Rightarrow> Some (QM_EOK, size, Some (set_update False b), bs))))"

definition qm_tlv_unpack_string ::
  "tlv_config \<Rightarrow> tlv_block option \<Rightarrow> bool \<Rightarrow> (int \<times> int \<times> tlv_block option \<times> u8 list) option" where
  "qm_tlv_unpack_string c b copy =
     (case b of
        None \<Rightarrow> Some (- QM_EINVAL, 0, None, [])
      | Some b \<Rightarrow>
          (let size = int (blen b) + 1
           in if \<not> copy then Some (QM_EOK, size, Some b, [])
              else if size < int (blen b) + 1 then Some (- QM_EINVAL, size, Some b, [])
              else (case the (snd (qm_tlv_unpack_direct c (Some b))) of
                      (_, None) \<Rightarrow> None
                    | (_, Some bs) \<Rightarrow> Some (QM_EOK, size, Some (set_update False b), bs @ [0]))))"

subsection \<open>Fields of a block\<close>

definition qm_tlv_block_tag_set :: "tlv_config \<Rightarrow> tlv_block option \<Rightarrow> u16 \<Rightarrow> int \<times> tlv_block option" where
  "qm_tlv_block_tag_set c b t =
     (case b of None \<Rightarrow> (- QM_EINVAL, None) | Some b \<Rightarrow> (QM_EOK, Some (b\<lparr>tag := narrow (tag_byte c) t\<rparr>)))"

definition qm_tlv_block_tag_get :: "tlv_config \<Rightarrow> tlv_block option \<Rightarrow> int \<times> u16 option" where
  "qm_tlv_block_tag_get c b =
     (case b of None \<Rightarrow> (- QM_EINVAL, None) | Some b \<Rightarrow> (QM_EOK, Some (narrow (tag_byte c) (tag b))))"

definition qm_tlv_block_arg_set :: "tlv_block option \<Rightarrow> nat \<Rightarrow> int \<times> tlv_block option" where
  "qm_tlv_block_arg_set b a = (case b of None \<Rightarrow> (- QM_EINVAL, None) | Some b \<Rightarrow> (QM_EOK, Some (b\<lparr>barg := a\<rparr>)))"

definition qm_tlv_block_arg_get :: "tlv_block option \<Rightarrow> int \<times> nat option" where
  "qm_tlv_block_arg_get b = (case b of None \<Rightarrow> (- QM_EINVAL, None) | Some b \<Rightarrow> (QM_EOK, Some (barg b)))"

definition qm_tlv_block_data_type_set :: "tlv_block option \<Rightarrow> u8 \<Rightarrow> int \<times> tlv_block option" where
  "qm_tlv_block_data_type_set b t = (case b of None \<Rightarrow> (- QM_EINVAL, None) | Some b \<Rightarrow> (QM_EOK, Some (b\<lparr>ty := t\<rparr>)))"

definition qm_tlv_block_data_type_get :: "tlv_block option \<Rightarrow> u8" where
  "qm_tlv_block_data_type_get b = (case b of None \<Rightarrow> 0xFF | Some b \<Rightarrow> ty b)"

definition qm_tlv_block_serialize :: "tlv_block option \<Rightarrow> int \<times> tlv_block option" where
  "qm_tlv_block_serialize b =
     (case b of None \<Rightarrow> (- QM_EINVAL, None)
      | Some b \<Rightarrow> (QM_EOK, Some (b\<lparr>flag := (flag b)\<lparr>serialization := True\<rparr>\<rparr>)))"

definition qm_tlv_block_is_update :: "tlv_block option \<Rightarrow> int \<times> int option" where
  "qm_tlv_block_is_update b =
     (case b of None \<Rightarrow> (- QM_EINVAL, None) | Some b \<Rightarrow> (QM_EOK, Some (if update (flag b) then 1 else 0)))"

definition qm_tlv_block_is_data :: "tlv_block option \<Rightarrow> int \<times> int option" where
  "qm_tlv_block_is_data b =
     (case b of None \<Rightarrow> (- QM_EINVAL, None) | Some b \<Rightarrow> (QM_EOK, Some (if blen b > 0 then 1 else 0)))"

text \<open>The flag is one bit: it takes the lowest bit of the argument.\<close>

definition qm_tlv_block_update :: "tlv_block option \<Rightarrow> int \<Rightarrow> int \<times> tlv_block option" where
  "qm_tlv_block_update b u =
     (case b of None \<Rightarrow> (- QM_EINVAL, None) | Some b \<Rightarrow> (QM_EOK, Some (set_update (odd u) b)))"

definition qm_tlv_block_divide :: "tlv_block option \<Rightarrow> int \<times> tlv_block option" where
  "qm_tlv_block_divide b =
     (case b of None \<Rightarrow> (- QM_EINVAL, None)
      | Some b \<Rightarrow> (QM_EOK, Some (b\<lparr>flag := (flag b)\<lparr>divide := True\<rparr>\<rparr>)))"

subsection \<open>Contexts\<close>

definition qm_tlv_ctx_creat :: "nat \<Rightarrow> mem \<Rightarrow> (nat \<times> tlv_ctx) option \<times> mem" where
  "qm_tlv_ctx_creat ctx_bytes m =
     (case tlv_malloc ctx_bytes m of
        (None, m) \<Rightarrow> (None, m)
      | (Some a, m) \<Rightarrow> (Some (a, \<lparr>count = 0, carg = 0, blocks = []\<rparr>), m))"

fun free_blocks :: "tlv_config \<Rightarrow> (nat \<times> tlv_block) list \<Rightarrow> mem \<Rightarrow> mem" where
  "free_blocks c [] m = m"
| "free_blocks c ((a, b) # bs) m =
     (let m1 = (if blen b > buf_size c then free_pdata c b m else m)
      in free_blocks c bs (tlv_free a m1))"

definition qm_tlv_ctx_delete :: "tlv_config \<Rightarrow> (nat \<times> tlv_ctx) option \<Rightarrow> mem \<Rightarrow> int \<times> mem" where
  "qm_tlv_ctx_delete c x m =
     (case x of
        None \<Rightarrow> (- QM_EINVAL, m)
      | Some (a, ctx) \<Rightarrow> (QM_EOK, tlv_free a (free_blocks c (blocks ctx) m)))"

definition qm_tlv_ctx_count_get :: "tlv_ctx option \<Rightarrow> int" where
  "qm_tlv_ctx_count_get x = (case x of None \<Rightarrow> - QM_EINVAL | Some ctx \<Rightarrow> count ctx)"

definition qm_tlv_ctx_arg_set :: "tlv_ctx option \<Rightarrow> nat \<Rightarrow> int \<times> tlv_ctx option" where
  "qm_tlv_ctx_arg_set x a = (case x of None \<Rightarrow> (- QM_EINVAL, None) | Some ctx \<Rightarrow> (QM_EOK, Some (ctx\<lparr>carg := a\<rparr>)))"

definition qm_tlv_ctx_arg_get :: "tlv_ctx option \<Rightarrow> int \<times> nat option" where
  "qm_tlv_ctx_arg_get x = (case x of None \<Rightarrow> (- QM_EINVAL, None) | Some ctx \<Rightarrow> (QM_EOK, Some (carg ctx)))"

text \<open>A pointer to a node is the list from that node on; the empty list is \<open>NULL\<close>.\<close>

definition qm_tlv_block_next ::
  "tlv_ctx option \<Rightarrow> (nat \<times> tlv_block) list \<Rightarrow> (nat \<times> tlv_block) list" where
  "qm_tlv_block_next x p =
     (case p of
        [] \<Rightarrow> (case x of None \<Rightarrow> [] | Some ctx \<Rightarrow> blocks ctx)
      | _ # rest \<Rightarrow> rest)"

fun count_updates :: "(nat \<times> tlv_block) list \<Rightarrow> int" where
  "count_updates [] = 0"
| "count_updates ((a, b) # bs) = (if update (flag b) then 1 else 0) + count_updates bs"

definition qm_tlv_ctx_update_count_get :: "tlv_ctx option \<Rightarrow> int" where
  "qm_tlv_ctx_update_count_get x = count_updates (qm_tlv_block_next x [])"

fun qm_tlv_block_check :: "(nat \<times> tlv_block) list \<Rightarrow> tlv_block \<Rightarrow> bool" where
  "qm_tlv_block_check [] b = False"
| "qm_tlv_block_check ((a, b') # bs) b = (if tag b = tag b' then True else qm_tlv_block_check bs b)"

definition block_add :: "tlv_ctx \<Rightarrow> nat \<times> tlv_block \<Rightarrow> int \<times> tlv_ctx" where
  "block_add ctx nb =
     (case nb of (a, b) \<Rightarrow>
        if blocks ctx = []
        then (QM_EOK, ctx\<lparr>blocks := [(a, set_update True b)], count := count ctx + 1\<rparr>)
        else if qm_tlv_block_check (blocks ctx) b then (- QM_EINVAL, ctx)
        else (QM_EOK, ctx\<lparr>blocks := blocks ctx @ [(a, set_update True b)], count := count ctx + 1\<rparr>))"

definition qm_tlv_block_add :: "tlv_ctx option \<Rightarrow> (nat \<times> tlv_block) option \<Rightarrow> int \<times> tlv_ctx option" where
  "qm_tlv_block_add x nb =
     (case (x, nb) of
        (Some ctx, Some nb) \<Rightarrow> (case block_add ctx nb of (r, ctx) \<Rightarrow> (r, Some ctx))
      | _ \<Rightarrow> (- QM_EINVAL, x))"

fun unlink_block :: "nat \<Rightarrow> (nat \<times> tlv_block) list \<Rightarrow> (nat \<times> tlv_block) option \<times> (nat \<times> tlv_block) list" where
  "unlink_block a [] = (None, [])"
| "unlink_block a (x # xs) =
     (if fst x = a then (Some x, xs) else (case unlink_block a xs of (r, ys) \<Rightarrow> (r, x # ys)))"

definition qm_tlv_block_remove ::
  "tlv_config \<Rightarrow> tlv_ctx option \<Rightarrow> nat option \<Rightarrow> mem \<Rightarrow> int \<times> tlv_ctx option \<times> mem" where
  "qm_tlv_block_remove c x a m =
     (case (x, a) of
        (Some ctx, Some a) \<Rightarrow>
          (case unlink_block a (blocks ctx) of
             (None, _) \<Rightarrow> (QM_EOK, Some ctx, m)
           | (Some nb, bs) \<Rightarrow>
               (QM_EOK, Some (ctx\<lparr>blocks := bs, count := count ctx - 1\<rparr>), snd (qm_tlv_block_delete c (Some nb) m)))
      | _ \<Rightarrow> (- QM_EINVAL, x, m))"

text \<open>The search narrows the tag by the width of the length field.\<close>

fun find_block :: "tlv_config \<Rightarrow> u16 \<Rightarrow> (nat \<times> tlv_block) list \<Rightarrow> (nat \<times> tlv_block) option" where
  "find_block c t [] = None"
| "find_block c t (x # xs) = (if tag (snd x) = narrow (length_byte c) t then Some x else find_block c t xs)"

definition qm_tlv_block_find :: "tlv_config \<Rightarrow> tlv_ctx option \<Rightarrow> u16 \<Rightarrow> (nat \<times> tlv_block) option" where
  "qm_tlv_block_find c x t = (case x of None \<Rightarrow> None | Some ctx \<Rightarrow> find_block c t (blocks ctx))"

subsection \<open>Copying, merging and dividing\<close>

definition copy_header :: "tlv_config \<Rightarrow> tlv_block \<Rightarrow> tlv_block \<Rightarrow> tlv_block" where
  "copy_header c d s =
     (let d1 = (if tag d \<noteq> tag s then set_update True (d\<lparr>tag := tag s\<rparr>) else d);
          d2 = (if ty d1 \<noteq> ty s then set_update True (d1\<lparr>ty := ty s\<rparr>) else d1);
          d3 = d2\<lparr>barg := barg s\<rparr>
      in if force_update c \<and> ty s AND 0x80 \<noteq> 0 then set_update True (d3\<lparr>ty := ty s AND 0x7F\<rparr>) else d3)"

definition block_copy ::
  "tlv_config \<Rightarrow> tlv_block \<Rightarrow> tlv_block \<Rightarrow> mem \<Rightarrow> (int \<times> tlv_block \<times> mem) option" where
  "block_copy c d s m =
     (let d = copy_header c d s;
          (dest_size, dest_bytes) = the (snd (qm_tlv_unpack_direct c (Some d)));
          (src_size, src_bytes) = the (snd (qm_tlv_unpack_direct c (Some s)))
      in if dest_size = src_size
         then (case (dest_bytes, src_bytes) of
                 (Some db, Some sb) \<Rightarrow>
                   if db \<noteq> sb
                   then (case pack_bytes c d sb m of (ret, d, m) \<Rightarrow> Some (ret, set_update True d, m))
                   else Some (0, d, m)
               | _ \<Rightarrow> None)
         else (case src_bytes of
                 None \<Rightarrow> Some (- QM_EINVAL, set_update True d, m)
               | Some sb \<Rightarrow> (case pack_bytes c d sb m of (ret, d, m) \<Rightarrow> Some (ret, set_update True d, m))))"

definition qm_tlv_block_copy ::
  "tlv_config \<Rightarrow> tlv_block option \<Rightarrow> tlv_block option \<Rightarrow> mem \<Rightarrow> (int \<times> tlv_block option \<times> mem) option" where
  "qm_tlv_block_copy c d s m =
     (case (d, s) of
        (Some d, Some s) \<Rightarrow> map_option (\<lambda>(r, d, m). (r, Some d, m)) (block_copy c d s m)
      | _ \<Rightarrow> Some (- QM_EINVAL, d, m))"

definition replace_block :: "nat \<Rightarrow> tlv_block \<Rightarrow> tlv_ctx \<Rightarrow> tlv_ctx" where
  "replace_block a b ctx = ctx\<lparr>blocks := map (\<lambda>(a', b'). if a' = a then (a', b) else (a', b')) (blocks ctx)\<rparr>"

fun merge_loop :: "tlv_config \<Rightarrow> tlv_ctx \<Rightarrow> (nat \<times> tlv_block) list \<Rightarrow> mem \<Rightarrow> (int \<times> tlv_ctx \<times> mem) option" where
  "merge_loop c dest [] m = Some (QM_EOK, dest, m)"
| "merge_loop c dest ((_, s) # srcs) m =
     (case find_block c (tag s) (blocks dest) of
        Some (a, d) \<Rightarrow>
          (case block_copy c d s m of
             None \<Rightarrow> None
           | Some (ret, d, m) \<Rightarrow>
               if ret \<noteq> QM_EOK then Some (ret, replace_block a d dest, m)
               else merge_loop c (replace_block a d dest) srcs m)
      | None \<Rightarrow>
          (case qm_tlv_block_creat c m of
             (None, m) \<Rightarrow> Some (- QM_ENOMEM, dest, m)
           | (Some (a, b), m) \<Rightarrow>
               (case block_copy c b s m of
                  None \<Rightarrow> None
                | Some (ret, b, m) \<Rightarrow>
                    if ret \<noteq> QM_EOK then Some (ret, dest, m)
                    else (case block_add dest (a, b) of (ret, dest) \<Rightarrow>
                            if ret \<noteq> QM_EOK then Some (ret, dest, m)
                            else merge_loop c dest srcs m))))"

definition qm_tlv_merge ::
  "tlv_config \<Rightarrow> tlv_ctx option \<Rightarrow> tlv_ctx option \<Rightarrow> mem \<Rightarrow> (int \<times> tlv_ctx option \<times> mem) option" where
  "qm_tlv_merge c dest src m =
     (case (dest, src) of
        (Some d, Some s) \<Rightarrow> map_option (\<lambda>(r, d, m). (r, Some d, m)) (merge_loop c d (blocks s) m)
      | _ \<Rightarrow> Some (- QM_EINVAL, dest, m))"

text \<open>The divide loop returns the source blocks too: their divide flag is cleared on the way.\<close>

fun divide_loop ::
  "tlv_config \<Rightarrow> bool \<Rightarrow> tlv_ctx \<Rightarrow> (nat \<times> tlv_block) list \<Rightarrow> mem
    \<Rightarrow> (int \<times> tlv_ctx \<times> (nat \<times> tlv_block) list \<times> mem) option" where
  "divide_loop c upd dest [] m = Some (QM_EOK, dest, [], m)"
| "divide_loop c upd dest ((sa, s) # srcs) m =
     (if (if upd then \<not> update (flag s) else \<not> divide (flag s))
      then map_option (\<lambda>(r, d, ss, m). (r, d, (sa, s) # ss, m)) (divide_loop c upd dest srcs m)
      else
        let s = (if upd then s else s\<lparr>flag := (flag s)\<lparr>divide := False\<rparr>\<rparr>)
        in (case qm_tlv_block_creat c m of
              (None, m) \<Rightarrow> Some (- QM_ENOMEM, dest, (sa, s) # srcs, m)
            | (Some (a, b), m) \<Rightarrow>
                (case block_copy c b s m of
                   None \<Rightarrow> None
                 | Some (ret, b, m) \<Rightarrow>
                     if ret \<noteq> QM_EOK then Some (ret, dest, (sa, s) # srcs, m)
                     else map_option (\<lambda>(r, d, ss, m). (r, d, (sa, s) # ss, m))
                            (divide_loop c upd (snd (block_add dest (a, b))) srcs m))))"

definition qm_tlv_divide ::
  "tlv_config \<Rightarrow> tlv_ctx option \<Rightarrow> tlv_ctx option \<Rightarrow> nat \<Rightarrow> mem
    \<Rightarrow> (int \<times> tlv_ctx option \<times> tlv_ctx option \<times> mem) option" where
  "qm_tlv_divide c dest src divide_type m =
     (case (dest, src) of
        (Some d, Some s) \<Rightarrow>
          if divide_type \<ge> 2 then Some (- QM_EINVAL, dest, src, m)
          else map_option (\<lambda>(r, d, ss, m). (r, Some d, Some (s\<lparr>blocks := ss\<rparr>), m))
                 (divide_loop c (divide_type = 1) d (blocks s) m)
      | _ \<Rightarrow> Some (- QM_EINVAL, dest, src, m))"

section \<open>Well-formed blocks and contexts\<close>

definition cfg_ok :: "tlv_config \<Rightarrow> bool" where
  "cfg_ok c \<longleftrightarrow> set [dttv_tag_size c, tlv_tag_size c, ttlv_tag_size c, dttv_length_size c, tlv_length_size c,
                  ttlv_length_size c] \<subseteq> {1, 2} \<and> 4 \<le> buf_size c"

definition fits :: "nat \<Rightarrow> u16 \<Rightarrow> bool" where
  "fits n x \<longleftrightarrow> narrow n x = x"

text \<open>The stored value agrees with the length field, and the fields fit their widths.\<close>

definition block_wf :: "tlv_config \<Rightarrow> tlv_block \<Rightarrow> bool" where
  "block_wf c b \<longleftrightarrow> fits (tag_byte c) (tag b) \<and> fits (length_byte c) (len b)
     \<and> (case val b of
           Bytes bs \<Rightarrow> length bs = buf_size c \<and> blen b \<le> buf_size c
         | Pdata None \<Rightarrow> False
         | Pdata (Some (a, bs)) \<Rightarrow> length bs = blen b \<and> buf_size c < blen b)"

definition content :: "tlv_block \<Rightarrow> u8 list" where
  "content b = (case val b of Bytes bs \<Rightarrow> take (blen b) bs | Pdata None \<Rightarrow> [] | Pdata (Some (a, bs)) \<Rightarrow> bs)"

lemma length_content: "block_wf c b \<Longrightarrow> length (content b) = blen b"
  by (auto simp: block_wf_def content_def split: tlv_value.splits option.splits)

lemma unpack_direct_wf:
  "block_wf c b \<Longrightarrow> qm_tlv_unpack_direct c (Some b) = (QM_EOK, Some (blen b, Some (content b)))"
  by (auto simp: qm_tlv_unpack_direct_def block_wf_def content_def value_bytes_def value_pdata_def
      split: tlv_value.splits option.splits)

definition all_granted :: "mem \<Rightarrow> bool" where
  "all_granted m \<longleftrightarrow> (\<forall>i n. grants m i n)"

lemma malloc_granted:
  "all_granted m \<Longrightarrow> tlv_malloc n m =
     (Some (next_addr m), m\<lparr>next_addr := Suc (next_addr m), live := insert (next_addr m) (live m)\<rparr>)"
  by (simp add: tlv_malloc_def all_granted_def)

lemma granted_keep [simp]:
  "all_granted (tlv_free a m) = all_granted m" "all_granted (m\<lparr>next_addr := n\<rparr>) = all_granted m"
  "all_granted (m\<lparr>live := l\<rparr>) = all_granted m"
  by (simp_all add: all_granted_def tlv_free_def)

lemma next_addr_free [simp]: "next_addr (tlv_free a m) = next_addr m"
  by (simp add: tlv_free_def)

lemma drop_pdata_frame:
  assumes "drop_pdata c b m = (b', m')"
  shows "flag b' = flag b" "ty b' = ty b" "tag b' = tag b" "len b' = len b" "barg b' = barg b"
    "grants m' = grants m" "next_addr m' = next_addr m"
  using assms by (auto simp: drop_pdata_def tlv_free_def split: if_splits option.splits)

lemma set_update_sel [simp]:
  "ty (set_update u b) = ty b" "tag (set_update u b) = tag b" "len (set_update u b) = len b"
  "val (set_update u b) = val b" "barg (set_update u b) = barg b" "update (flag (set_update u b)) = u"
  "serialization (flag (set_update u b)) = serialization (flag b)" "divide (flag (set_update u b)) = divide (flag b)"
  by (simp_all add: set_update_def)

lemma block_wf_set_update [simp]: "block_wf c (set_update u b) = block_wf c b"
  by (simp add: block_wf_def split: tlv_value.splits option.splits)

lemma content_set_update [simp]: "content (set_update u b) = content b"
  by (simp add: content_def split: tlv_value.splits option.splits)

lemma fits_1: "fits 1 x \<longleftrightarrow> unat x < 256"
  by (simp add: fits_def narrow_def word_unat_eq_iff unsigned_ucast_eq unsigned_take_bit_eq take_bit_nat_def
      mod_eq_self_iff_div_eq_0 div_eq_0_iff)

lemma fits_Suc0 [simp]: "fits (Suc 0) x \<longleftrightarrow> unat x < 256"
  using fits_1 by simp

lemma fits_2 [simp]: "fits 2 x"
  by (simp add: fits_def narrow_def)

lemma byte_widths: "tag_byte c = 1 \<or> tag_byte c = 2" "length_byte c = 1 \<or> length_byte c = 2"
  by (simp_all add: tag_byte_def length_byte_def)

text \<open>The lengths a field of the configured width can hold.\<close>

definition max_len :: "tlv_config \<Rightarrow> nat" where
  "max_len c = 256 ^ length_byte c - 1"

lemma len_field:
  assumes "n \<le> max_len c"
  shows "narrow (length_byte c) (word_of_nat n) = word_of_nat n" "unat (word_of_nat n :: u16) = n"
proof -
  have n: "n < 65536" using assms byte_widths(2) [of c] by (auto simp: max_len_def)
  then show u: "unat (word_of_nat n :: u16) = n" by (simp add: unsigned_of_nat take_bit_nat_def)
  show "narrow (length_byte c) (word_of_nat n) = word_of_nat n"
    using byte_widths(2) [of c] assms fits_1 [of "word_of_nat n"] u
    by (auto simp: fits_def narrow_def max_len_def)
qed

lemma pack_bytes_spec:
  assumes "bs \<noteq> []" "length bs \<le> max_len c" "all_granted m" "fits (tag_byte c) (tag b)"
  shows "\<exists>b' m'. pack_bytes c b bs m = (QM_EOK, b', m') \<and> block_wf c b' \<and> content b' = bs \<and> blen b' = length bs
    \<and> flag b' = flag b \<and> ty b' = ty b \<and> tag b' = tag b \<and> barg b' = barg b
    \<and> all_granted m' \<and> next_addr m \<le> next_addr m'"
proof -
  obtain b1 m1 where d: "drop_pdata c b m = (b1, m1)" by (cases "drop_pdata c b m")
  note f = drop_pdata_frame [OF d]
  note l = len_field [OF assms(2)]
  have g: "all_granted m1" using assms(3) f(6) by (simp add: all_granted_def)
  show ?thesis
  proof (cases "length bs \<le> buf_size c")
    case True
    then show ?thesis
      using assms d f g l by (simp add: pack_bytes_def block_wf_def content_def overlay_def fits_def)
  next
    case False
    then show ?thesis
      using assms d f g l by (simp add: pack_bytes_def malloc_granted block_wf_def content_def fits_def)
  qed
qed

abbreviation tags :: "(nat \<times> tlv_block) list \<Rightarrow> u16 list" where
  "tags bs \<equiv> map (\<lambda>x. tag (snd x)) bs"

text \<open>The context invariant: an exact count, distinct nodes, one block per tag, well-formed blocks.\<close>

definition ctx_wf :: "tlv_config \<Rightarrow> mem \<Rightarrow> tlv_ctx \<Rightarrow> bool" where
  "ctx_wf c m ctx \<longleftrightarrow> count ctx = int (length (blocks ctx)) \<and> distinct (map fst (blocks ctx))
     \<and> distinct (tags (blocks ctx)) \<and> (\<forall>x \<in> set (blocks ctx). block_wf c (snd x) \<and> fst x < next_addr m)"

definition view :: "tlv_ctx \<Rightarrow> u16 \<rightharpoonup> u8 \<times> u8 list" where
  "view ctx = map_of (map (\<lambda>x. (tag (snd x), ty (snd x), content (snd x))) (blocks ctx))"

lemma block_check_iff: "qm_tlv_block_check bs b \<longleftrightarrow> tag b \<in> set (tags bs)"
  by (induction bs) auto

lemma block_add_eq:
  "block_add ctx (a, b) =
     (if tag b \<in> set (tags (blocks ctx)) then (- QM_EINVAL, ctx)
      else (QM_EOK, ctx\<lparr>blocks := blocks ctx @ [(a, set_update True b)], count := count ctx + 1\<rparr>))"
  by (auto simp: block_add_def block_check_iff)

lemma ctx_wf_mono: "ctx_wf c m ctx \<Longrightarrow> next_addr m \<le> next_addr m' \<Longrightarrow> ctx_wf c m' ctx"
  by (force simp: ctx_wf_def)

lemma ctx_wf_add:
  assumes "ctx_wf c m ctx" "block_wf c b" "a < next_addr m" "a \<notin> set (map fst (blocks ctx))"
    "tag b \<notin> set (tags (blocks ctx))"
  shows "ctx_wf c m (ctx\<lparr>blocks := blocks ctx @ [(a, set_update True b)], count := count ctx + 1\<rparr>)"
  using assms by (auto simp: ctx_wf_def)

lemma ctx_wf_fresh: "ctx_wf c m ctx \<Longrightarrow> next_addr m \<notin> set (map fst (blocks ctx))"
  by (force simp: ctx_wf_def)

lemma view_add:
  assumes "tag b \<notin> set (tags (blocks ctx))"
  shows "view (ctx\<lparr>blocks := blocks ctx @ [(a, b)], count := n\<rparr>) = (view ctx)(tag b \<mapsto> (ty b, content b))"
proof -
  have "view ctx (tag b) = None" using assms by (force simp: view_def map_of_eq_None_iff)
  then show ?thesis by (auto simp: view_def map_add_def fun_eq_iff split: option.splits)
qed

lemma find_block_Some: "find_block c t bs = Some x \<Longrightarrow> x \<in> set bs \<and> tag (snd x) = narrow (length_byte c) t"
  by (induction bs) (auto split: if_splits)

lemma find_block_None: "find_block c t bs = None \<longleftrightarrow> narrow (length_byte c) t \<notin> set (tags bs)"
  by (induction bs) auto

lemma tags_replace:
  assumes "distinct (map fst bs)" "(a, d) \<in> set bs" "tag d' = tag d"
  shows "tags (map (\<lambda>(a', b'). if a' = a then (a', d') else (a', b')) bs) = tags bs"
  using assms by (auto dest: eq_key_imp_eq_value)

lemma view_replace:
  assumes "distinct (map fst bs)" "distinct (tags bs)" "(a, d) \<in> set bs" "tag d' = tag d"
    and f: "f = (\<lambda>x. (tag (snd x), ty (snd x), content (snd x)))"
  shows "map_of (map f (map (\<lambda>(a', b'). if a' = a then (a', d') else (a', b')) bs))
    = (map_of (map f bs))(tag d \<mapsto> (ty d', content d'))"
  using assms(1-4)
proof (induction bs)
  case (Cons x bs)
  obtain a' b' where x: "x = (a', b')" by (cases x)
  show ?case
  proof (cases "a' = a")
    case True
    then have "b' = d" using Cons.prems x by force
    moreover have "map (\<lambda>(a', b'). if a' = a then (a', d') else (a', b')) bs = bs"
      using Cons.prems(1) x True by (intro map_idI) (force split: if_splits)
    ultimately show ?thesis using Cons.prems(4) x True by (simp add: f fun_eq_iff)
  next
    case False
    then have "(a, d) \<in> set bs" using Cons.prems(3) x by simp
    moreover from this have "tag b' \<noteq> tag d" using Cons.prems(2) x by force
    ultimately show ?thesis
      using Cons.IH Cons.prems(1,2,4) False x by (simp add: f fun_eq_iff)
  qed
qed simp

lemma replace_block_wf:
  assumes wf: "ctx_wf c m ctx" and d: "(a, d) \<in> set (blocks ctx)" "tag d' = tag d" "block_wf c d'"
  shows "ctx_wf c m (replace_block a d' ctx)"
    and "view (replace_block a d' ctx) = (view ctx)(tag d \<mapsto> (ty d', content d'))"
    and "tags (blocks (replace_block a d' ctx)) = tags (blocks ctx)"
proof -
  have dis: "distinct (map fst (blocks ctx))" "distinct (tags (blocks ctx))" using wf by (auto simp: ctx_wf_def)
  show tg: "tags (blocks (replace_block a d' ctx)) = tags (blocks ctx)"
    using tags_replace [OF dis(1) d(1,2)] by (simp add: replace_block_def)
  show "view (replace_block a d' ctx) = (view ctx)(tag d \<mapsto> (ty d', content d'))"
    using view_replace [OF dis d(1,2) refl] by (simp add: view_def replace_block_def)
  have "map fst (blocks (replace_block a d' ctx)) = map fst (blocks ctx)"
    by (auto simp: replace_block_def)
  moreover have "\<forall>x \<in> set (blocks (replace_block a d' ctx)). block_wf c (snd x) \<and> fst x < next_addr m"
    using wf d(3) by (auto simp: replace_block_def ctx_wf_def)
  moreover have "count (replace_block a d' ctx) = int (length (blocks (replace_block a d' ctx)))"
    using wf by (simp add: replace_block_def ctx_wf_def)
  ultimately show "ctx_wf c m (replace_block a d' ctx)"
    using tg dis by (simp add: ctx_wf_def)
qed

lemma fits_max_len: "fits (length_byte c) x \<Longrightarrow> unat x \<le> max_len c"
  using byte_widths(2) [of c] unat_less_u16 [of x] fits_1 [of x] by (auto simp: max_len_def)

text \<open>What a copied block's type becomes: the force-update bit is taken off.\<close>

definition copied_type :: "tlv_config \<Rightarrow> tlv_block \<Rightarrow> u8" where
  "copied_type c s = (if force_update c \<and> ty s AND 0x80 \<noteq> 0 then ty s AND 0x7F else ty s)"

lemma copy_header_sel:
  "tag (copy_header c d s) = tag s" "ty (copy_header c d s) = copied_type c s" "barg (copy_header c d s) = barg s"
  "len (copy_header c d s) = len d" "val (copy_header c d s) = val d"
  by (auto simp: copy_header_def copied_type_def Let_def)

lemma copy_header_wf: "block_wf c d \<Longrightarrow> block_wf c s \<Longrightarrow> block_wf c (copy_header c d s)"
  by (auto simp: block_wf_def copy_header_sel split: tlv_value.splits option.splits)

lemma copy_header_content: "content (copy_header c d s) = content d"
  by (simp add: content_def copy_header_sel split: tlv_value.splits option.splits)

lemma block_copy_spec:
  assumes wf: "block_wf c d" "block_wf c s" and g: "all_granted m" and ne: "0 < blen s \<or> blen d = 0"
  shows "\<exists>d' m'. block_copy c d s m = Some (QM_EOK, d', m') \<and> block_wf c d' \<and> content d' = content s
    \<and> tag d' = tag s \<and> ty d' = copied_type c s \<and> barg d' = barg s \<and> all_granted m' \<and> next_addr m \<le> next_addr m'"
proof -
  define h where "h = copy_header c d s"
  have hwf: "block_wf c h" using copy_header_wf [OF wf] by (simp add: h_def)
  have hc: "content h = content d" "blen h = blen d" by (simp_all add: h_def copy_header_content copy_header_sel)
  have lens: "length (content d) = blen d" "length (content s) = blen s" using wf by (simp_all add: length_content)
  note hs = copy_header_sel [of c d s, folded h_def]
  have bc: "block_copy c d s m = (if blen d = blen s \<and> content d = content s then Some (0, h, m)
      else (case pack_bytes c h (content s) m of (r, b, m) \<Rightarrow> Some (r, set_update True b, m)))"
    using lens by (auto simp: block_copy_def Let_def h_def [symmetric] unpack_direct_wf [OF hwf] unpack_direct_wf [OF wf(2)] hc)
  show ?thesis
  proof (cases "blen d = blen s \<and> content d = content s")
    case True
    then show ?thesis using bc hwf hc hs g by (simp add: errno)
  next
    case False
    then have ne': "content s \<noteq> []" using ne lens by auto
    have "length (content s) \<le> max_len c" using lens fits_max_len wf(2) by (simp add: block_wf_def)
    moreover have "fits (tag_byte c) (tag h)" using hwf by (simp add: block_wf_def)
    ultimately obtain b' m' where "pack_bytes c h (content s) m = (QM_EOK, b', m')" "block_wf c b'"
      "content b' = content s" "ty b' = ty h" "tag b' = tag h" "barg b' = barg h" "all_granted m'" "next_addr m \<le> next_addr m'"
      using pack_bytes_spec [OF ne', of c m h] g by blast
    then show ?thesis using bc False hs by auto
  qed
qed

definition imported :: "tlv_config \<Rightarrow> (nat \<times> tlv_block) list \<Rightarrow> u16 \<rightharpoonup> u8 \<times> u8 list" where
  "imported c bs = map_of (map (\<lambda>x. (tag (snd x), copied_type c (snd x), content (snd x))) bs)"

lemma creat_granted:
  assumes "all_granted m"
  shows "\<exists>a b m'. qm_tlv_block_creat c m = (Some (a, b), m') \<and> a = next_addr m \<and> next_addr m' = Suc a
    \<and> all_granted m' \<and> block_wf c b \<and> blen b = 0 \<and> content b = [] \<and> tag b = 0 \<and> ty b = 0 \<and> barg b = 0
    \<and> len b = 0 \<and> val b = Bytes (replicate (buf_size c) 0) \<and> flag b = \<lparr>update = False, serialization = False, divide = False\<rparr>"
  using assms by (simp add: qm_tlv_block_creat_def malloc_granted block_wf_def fits_def narrow_def content_def)

lemma merge_loop_spec:
  assumes "ctx_wf c m dest" "all_granted m" "distinct (tags srcs)"
    "\<And>x. x \<in> set srcs \<Longrightarrow> block_wf c (snd x) \<and> 0 < blen (snd x) \<and> fits (length_byte c) (tag (snd x))"
  shows "\<exists>dest' m'. merge_loop c dest srcs m = Some (QM_EOK, dest', m') \<and> ctx_wf c m' dest'
    \<and> view dest' = view dest ++ imported c srcs
    \<and> tags (blocks dest') = tags (blocks dest) @ filter (\<lambda>t. t \<notin> set (tags (blocks dest))) (tags srcs)
    \<and> all_granted m'"
  using assms
proof (induction srcs arbitrary: dest m)
  case Nil
  then show ?case by (simp add: imported_def)
next
  case (Cons x srcs)
  obtain sa s where x: "x = (sa, s)" by (cases x)
  have s: "block_wf c s" "0 < blen s" "narrow (length_byte c) (tag s) = tag s"
    using Cons.prems(4) [of x] x by (auto simp: fits_def)
  have later: "tag s \<notin> set (tags srcs)" using Cons.prems(3) x by simp
  have imp: "imported c (x # srcs) = (imported c srcs)(tag s \<mapsto> (copied_type c s, content s))"
    by (simp add: imported_def x)
  have dom: "tag s \<notin> dom (imported c srcs)"
    using later by (simp add: imported_def dom_map_of_conv_image_fst image_image)
  have step: ?case
    if st: "merge_loop c dest (x # srcs) m = merge_loop c dest1 srcs m1" "ctx_wf c m1 dest1" "all_granted m1"
      "view dest1 = (view dest)(tag s \<mapsto> (copied_type c s, content s))"
      "tags (blocks dest1) = tags (blocks dest) @ (if tag s \<in> set (tags (blocks dest)) then [] else [tag s])"
    for dest1 m1
  proof -
    obtain dest' m' where IH: "merge_loop c dest1 srcs m1 = Some (QM_EOK, dest', m')" "ctx_wf c m' dest'"
      "view dest' = view dest1 ++ imported c srcs"
      "tags (blocks dest') = tags (blocks dest1) @ filter (\<lambda>t. t \<notin> set (tags (blocks dest1))) (tags srcs)"
      "all_granted m'"
      using Cons.IH [OF st(2,3)] Cons.prems(3,4) x by auto
    have "view dest' = view dest ++ imported c (x # srcs)"
      using dom by (simp add: IH(3) st(4) imp map_add_upd_left)
    moreover have "filter (\<lambda>t. t \<notin> set (tags (blocks dest1))) (tags srcs)
        = filter (\<lambda>t. t \<notin> set (tags (blocks dest))) (tags srcs)"
      using later st(5) by (auto intro!: filter_cong)
    ultimately show ?thesis using IH st(1,5) x by auto
  qed
  show ?case
  proof (cases "find_block c (tag s) (blocks dest)")
    case (Some ad)
    then obtain a d where ad: "find_block c (tag s) (blocks dest) = Some (a, d)" by (cases ad) auto
    then have d: "(a, d) \<in> set (blocks dest)" "tag d = tag s" using find_block_Some [OF ad] s(3) by auto
    then have "block_wf c d" using Cons.prems(1) by (auto simp: ctx_wf_def)
    then obtain d' m1 where c: "block_copy c d s m = Some (QM_EOK, d', m1)" "block_wf c d'" "content d' = content s"
      "tag d' = tag s" "ty d' = copied_type c s" "all_granted m1" "next_addr m \<le> next_addr m1"
      using block_copy_spec [OF _ s(1) Cons.prems(2)] s(2) by blast
    have w: "ctx_wf c m1 dest" by (rule ctx_wf_mono [OF Cons.prems(1) c(7)])
    note r = replace_block_wf [OF w d(1) _ c(2)]
    show ?thesis
      by (rule step [of "replace_block a d' dest" m1]) (use r c d x ad in \<open>force+\<close>)
  next
    case None
    then have new: "tag s \<notin> set (tags (blocks dest))" using find_block_None s(3) by metis
    obtain a b m1 where b: "qm_tlv_block_creat c m = (Some (a, b), m1)" "a = next_addr m" "next_addr m1 = Suc a"
      "all_granted m1" "block_wf c b" "blen b = 0"
      using creat_granted [OF Cons.prems(2), of c] by blast
    obtain b' m2 where c: "block_copy c b s m1 = Some (QM_EOK, b', m2)" "block_wf c b'" "content b' = content s"
      "tag b' = tag s" "ty b' = copied_type c s" "all_granted m2" "next_addr m1 \<le> next_addr m2"
      using block_copy_spec [OF b(5) s(1) b(4)] s(2) by blast
    define dest1 where "dest1 = dest\<lparr>blocks := blocks dest @ [(a, set_update True b')], count := count dest + 1\<rparr>"
    have add: "block_add dest (a, b') = (QM_EOK, dest1)" using new c(4) by (simp add: block_add_eq dest1_def)
    have w: "ctx_wf c m2 dest" using ctx_wf_mono [OF Cons.prems(1)] b(2,3) c(7) by simp
    have w1: "ctx_wf c m2 dest1"
      unfolding dest1_def using b(2,3) c(2,4,7) new ctx_wf_fresh [OF Cons.prems(1)] by (intro ctx_wf_add [OF w]) auto
    have v1: "view dest1 = (view dest)(tag s \<mapsto> (copied_type c s, content s))"
      using view_add [of "set_update True b'" dest] new c(3-5) by (simp add: dest1_def)
    show ?thesis
      by (rule step [OF _ w1 c(6) v1]) (use None b(1) c(1,4) add new x in \<open>auto simp: dest1_def\<close>)
  qed
qed

section \<open>Properties\<close>

text \<open>The configuration and the blocks the properties are applied to.\<close>

definition ex_cfg :: tlv_config where
  "ex_cfg = \<lparr>big_endian = False, dttv_tag_size = 1, dttv_length_size = 1, tlv_tag_size = 1, tlv_length_size = 1,
     ttlv_tag_size = 1, ttlv_length_size = 1, buf_size = 4, force_update = True, int16_support = True,
     int32_support = True, int64_support = False, float32_support = True, float64_support = False,
     bytes_support = True, block_bytes = 24, ptr_repr = (\<lambda>_. [1, 2, 3, 4]), bytes_ptr = (\<lambda>_. None)\<rparr>"

definition ex_mem :: "nat \<Rightarrow> mem" where
  "ex_mem n = \<lparr>grants = (\<lambda>_ _. True), next_addr = n, live = {}\<rparr>"

definition ex_block :: "u8 \<Rightarrow> u16 \<Rightarrow> u8 list \<Rightarrow> tlv_block" where
  "ex_block t g bs = \<lparr>flag = \<lparr>update = False, serialization = False, divide = False\<rparr>, ty = t, tag = g,
     len = word_of_nat (length bs), val = (if length bs \<le> 4 then Bytes (overlay 4 bs) else Pdata (Some (0, bs))), barg = 0\<rparr>"

definition ex_ctx :: "(u8 \<times> u16 \<times> u8 list) list \<Rightarrow> tlv_ctx" where
  "ex_ctx es = \<lparr>count = int (length es), carg = 0,
     blocks = map (\<lambda>(i, t, g, bs). (i, ex_block t g bs)) (enumerate 1 es)\<rparr>"

lemma ex_granted [simp]: "all_granted (ex_mem n)"
  by (simp add: ex_mem_def all_granted_def)



text \<open>An integer packed into a block is unpacked unchanged, on a processor of either byte order, and
  a byte string of a length its field can hold likewise; packing needs memory only for a long string.\<close>

theorem tlv_pack_unpack:
  assumes "cfg_ok c" "qm_tlv_pack_uint16 c (Some b) v m = (r1, b1, m1)" "qm_tlv_pack_uint32 c (Some b) w m = (r2, b2, m2)"
    "bs \<noteq> []" "length bs \<le> max_len c" "all_granted m" "fits (tag_byte c) (tag b)"
    "qm_tlv_pack_bytes c (Some b) (Some bs) m = (r3, b3, m3)"
  shows "r1 = QM_EOK \<and> snd (snd (qm_tlv_unpack_uint16 c b1)) = Some v
    \<and> r2 = QM_EOK \<and> snd (snd (qm_tlv_unpack_uint32 c b2)) = Some w
    \<and> r3 = QM_EOK \<and> (\<exists>b4. qm_tlv_unpack_bytes c b3 True = Some (QM_EOK, int (length bs), b4, bs))"
proof -
  obtain b4 m4 where "pack_bytes c b bs m = (QM_EOK, b4, m4)" "block_wf c b4" "content b4 = bs" "blen b4 = length bs"
    using pack_bytes_spec [OF assms(4-7)] by blast
  with assms(8) have "r3 = QM_EOK \<and> (\<exists>b4. qm_tlv_unpack_bytes c b3 True = Some (QM_EOK, int (length bs), b4, bs))"
    using unpack_direct_wf [of c b4] by (auto simp: qm_tlv_pack_bytes_def qm_tlv_unpack_bytes_def)
  moreover have "r1 = QM_EOK \<and> snd (snd (qm_tlv_unpack_uint16 c b1)) = Some v"
    using assms(2) by (auto simp: qm_tlv_pack_uint16_def qm_tlv_unpack_uint16_def value_bytes_def overlay_def Let_def
        split: prod.splits)
  moreover have "r2 = QM_EOK \<and> snd (snd (qm_tlv_unpack_uint32 c b2)) = Some w"
    using assms(3) by (auto simp: qm_tlv_pack_uint32_def qm_tlv_unpack_uint32_def value_bytes_def overlay_def Let_def
        split: prod.splits)
  ultimately show ?thesis by blast
qed

theorem tlv_pack_unpack_witness:
  "\<exists>b3 b4. fst (snd (qm_tlv_pack_bytes ex_cfg (Some (ex_block 11 5 [1])) (Some [1, 2, 3, 4, 5, 6]) (ex_mem 1))) = b3
    \<and> qm_tlv_unpack_bytes ex_cfg b3 True = Some (QM_EOK, 6, b4, [1, 2, 3, 4, 5, 6])"
proof -
  let ?b = "ex_block 11 5 [1]" and ?bs = "[1, 2, 3, 4, 5, 6] :: u8 list"
  obtain r1 b1 m1 r2 b2 m2 r3 b3 m3 where "qm_tlv_pack_uint16 ex_cfg (Some ?b) 7 (ex_mem 1) = (r1, b1, m1)"
    "qm_tlv_pack_uint32 ex_cfg (Some ?b) 7 (ex_mem 1) = (r2, b2, m2)"
    "qm_tlv_pack_bytes ex_cfg (Some ?b) (Some ?bs) (ex_mem 1) = (r3, b3, m3)"
    by (metis prod_cases3)
  moreover have "cfg_ok ex_cfg" "length ?bs \<le> max_len ex_cfg" "fits (tag_byte ex_cfg) (tag ?b)"
    by (simp_all add: cfg_ok_def ex_cfg_def max_len_def length_byte_def tag_byte_def ex_block_def)
  ultimately show ?thesis
    using tlv_pack_unpack [of ex_cfg ?b 7 "ex_mem 1" r1 b1 m1 7 r2 b2 m2 ?bs r3 b3 m3] by auto
qed

text \<open>With a one-byte length field, packing 256 to 256 + \<open>CONFIG_QM_TLV_BUF_SIZE\<close> bytes reports success
  but leaves a block of length modulo 256, whose value is then read from the bytes of the pointer.\<close>

theorem tlv_pack_truncates:
  assumes "length_byte c = 1" "length bs = 256 + k" "k \<le> buf_size c" "k < 256" "buf_size c < 256 + k" "all_granted m"
  shows "\<exists>b' m' p. qm_tlv_pack_bytes c (Some b) (Some bs) m = (QM_EOK, Some b', m') \<and> blen b' = k
    \<and> qm_tlv_unpack_direct c (Some b') = (QM_EOK, Some (k, Some (take k (ptr_repr c p))))"
proof -
  obtain b1 m1 where d: "drop_pdata c b m = (b1, m1)" by (cases "drop_pdata c b m")
  have g: "all_granted m1" using assms(6) drop_pdata_frame(6) [OF d] by (simp add: all_granted_def)
  have "unat (word_of_nat (256 + k) :: u16) = 256 + k"
    using assms(4) by (simp only: unsigned_of_nat) (simp add: take_bit_nat_def)
  then have "unat (narrow 1 (word_of_nat (256 + k))) = k"
    using assms(4) by (simp add: narrow_def unsigned_ucast_eq unsigned_take_bit_eq take_bit_nat_def)
  moreover have "bs \<noteq> []" using assms(2) by auto
  ultimately show ?thesis
    using assms d g
    by (simp add: qm_tlv_pack_bytes_def pack_bytes_def malloc_granted qm_tlv_unpack_direct_def value_bytes_def Let_def) blast
qed

theorem tlv_pack_truncates_witness:
  "\<exists>b' m' p. qm_tlv_pack_bytes ex_cfg (Some (ex_block 11 5 [1])) (Some (replicate 258 0)) (ex_mem 1) = (QM_EOK, Some b', m')
    \<and> blen b' = 2"
proof -
  have "length_byte ex_cfg = 1" "(2 :: nat) \<le> buf_size ex_cfg" "buf_size ex_cfg < 256 + 2"
    by (simp_all add: ex_cfg_def length_byte_def)
  then show ?thesis
    using tlv_pack_truncates [of ex_cfg "replicate 258 0" 2 "ex_mem 1" "ex_block 11 5 [1]"] by auto
qed

end
