(* ===== verification/Tlv_Codec.thy ===== *)
theory Tlv_Codec
  imports Tlv
begin

text \<open>
  The three wire formats of \<^verbatim>\<open>utility/tlv/qm_tlv.c\<close>: TLV (tag, length, value), DTTV (type, tag,
  a length for variable-size types, value) and TTLV (tag, type, a length for variable-size types,
  value). The serialisers and the deserialisers of the three formats differ only in the header of a
  block and in the predicted block length; here the header writer, the header reader and the length are
  functions of the format, and the loops take the format.

  A message is the memory from \<open>msg\<close> on, a function of the offset, so that reads and writes past the
  given length are visible: the deserialisers of TLV and DTTV are shown to depend only on the bytes below
  \<open>len\<close>, that of TTLV is shown not to, and the serialisers are shown to write only below \<open>*len\<close> for
  blocks whose length agrees with their type.
\<close>

datatype tlv_format = TLV | DTTV | TTLV

subsection \<open>Headers\<close>

definition qm_tlv_block_data_type_len :: "tlv_config \<Rightarrow> u8 \<Rightarrow> int" where
  "qm_tlv_block_data_type_len c t8 =
     (let t = unat (if force_update c then t8 AND 0x7F else t8)
      in if t \<le> 2 then 1
         else if int16_support c \<and> (3 \<le> t \<and> t \<le> 4 \<or> 15 \<le> t \<and> t \<le> 16 \<or> 19 \<le> t \<and> t \<le> 20) then 2
         else if int32_support c \<and> (5 \<le> t \<and> t \<le> 6 \<or> 17 \<le> t \<and> t \<le> 18 \<or> 21 \<le> t \<and> t \<le> 22) then 4
         else if int64_support c \<and> 7 \<le> t \<and> t \<le> 8 then 8
         else if float32_support c \<and> t = 9 then 4
         else if float64_support c \<and> t = 10 then 8
         else if bytes_support c \<and> (11 \<le> t \<and> t \<le> 14 \<or> 23 \<le> t \<and> t \<le> 24) then 0
         else - 1)"

text \<open>A field of one or two bytes: written, and read after the check that it is there.\<close>

definition put_field :: "tlv_config \<Rightarrow> nat \<Rightarrow> u16 \<Rightarrow> u8 list" where
  "put_field c n x = (if n = 2 then store16 (big_endian c) (cpu_to_be16 (big_endian c) x) else [ucast x])"

definition get_field :: "tlv_config \<Rightarrow> nat \<Rightarrow> (nat \<Rightarrow> u8) \<Rightarrow> int \<Rightarrow> nat \<Rightarrow> (u16 \<times> nat) option" where
  "get_field c n msg mlen index =
     (if mlen - int index < int n then None
      else Some (if n = 2 then be16_to_cpu (big_endian c) (load16 (big_endian c) [msg index, msg (index + 1)])
                 else ucast (msg index), index + n))"

definition dttv_header :: "tlv_config \<Rightarrow> tlv_block \<Rightarrow> u8 list" where
  "dttv_header c b =
     [ty b] @ put_field c (dttv_tag_size c) (tag b)
       @ (if qm_tlv_block_data_type_len c (ty b) = 0 then put_field c (dttv_length_size c) (len b) else [])"

definition tlv_header :: "tlv_config \<Rightarrow> tlv_block \<Rightarrow> u8 list" where
  "tlv_header c b = put_field c (tlv_tag_size c) (tag b) @ put_field c (tlv_length_size c) (len b)"

definition ttlv_header :: "tlv_config \<Rightarrow> tlv_block \<Rightarrow> u8 list" where
  "ttlv_header c b =
     put_field c (ttlv_tag_size c) (tag b) @ [ty b]
       @ (if qm_tlv_block_data_type_len c (ty b) = 0 then put_field c (ttlv_length_size c) (len b) else [])"

definition dttv_block_len :: "tlv_config \<Rightarrow> tlv_block \<Rightarrow> int" where
  "dttv_block_len c b =
     (let l = 1 + int (dttv_tag_size c); type_len = qm_tlv_block_data_type_len c (ty b)
      in if type_len > 0 then l + type_len
         else if type_len = 0 then l + int (dttv_length_size c) + int (blen b)
         else l)"

definition tlv_block_len :: "tlv_config \<Rightarrow> tlv_block \<Rightarrow> int" where
  "tlv_block_len c b = int (tlv_tag_size c) + int (tlv_length_size c) + int (blen b)"

text \<open>The length predicted for TTLV uses the widths of the block's fields, not those of the format.\<close>

definition ttlv_block_len :: "tlv_config \<Rightarrow> tlv_block \<Rightarrow> int" where
  "ttlv_block_len c b =
     (let l = int (tag_byte c) + 1; type_len = qm_tlv_block_data_type_len c (ty b)
      in if type_len > 0 then l + type_len
         else if type_len = 0 then l + int (length_byte c) + int (blen b)
         else l)"

text \<open>The header readers: the block with its fields set and the index after the header, or the error.\<close>

definition dttv_parse ::
  "tlv_config \<Rightarrow> (nat \<Rightarrow> u8) \<Rightarrow> int \<Rightarrow> nat \<Rightarrow> tlv_block \<Rightarrow> int + tlv_block \<times> nat" where
  "dttv_parse c msg mlen index b =
     (let type = msg index; type_len = qm_tlv_block_data_type_len c type
      in if type_len < 0 then Inl (- QM_EINVAL)
         else (case get_field c (dttv_tag_size c) msg mlen (index + 1) of
                 None \<Rightarrow> Inl (- QM_EINVAL)
               | Some (t, index) \<Rightarrow>
                   if type_len = 0
                   then (case get_field c (dttv_length_size c) msg mlen index of
                           None \<Rightarrow> Inl (- QM_EINVAL)
                         | Some (l, index) \<Rightarrow> Inr (b\<lparr>ty := type, tag := t, len := l\<rparr>, index))
                   else Inr (b\<lparr>ty := type, tag := t, len := word_of_int type_len\<rparr>, index)))"

definition tlv_parse ::
  "tlv_config \<Rightarrow> (nat \<Rightarrow> u8) \<Rightarrow> int \<Rightarrow> nat \<Rightarrow> tlv_block \<Rightarrow> int + tlv_block \<times> nat" where
  "tlv_parse c msg mlen index b =
     (case get_field c (tlv_tag_size c) msg mlen index of
        None \<Rightarrow> Inl (- QM_EINVAL)
      | Some (t, index) \<Rightarrow>
          (case get_field c (tlv_length_size c) msg mlen index of
             None \<Rightarrow> Inl (- QM_EINVAL)
           | Some (l, index) \<Rightarrow> Inr (b\<lparr>tag := t, len := l\<rparr>, index)))"

definition ttlv_parse ::
  "tlv_config \<Rightarrow> (nat \<Rightarrow> u8) \<Rightarrow> int \<Rightarrow> nat \<Rightarrow> tlv_block \<Rightarrow> int + tlv_block \<times> nat" where
  "ttlv_parse c msg mlen index b =
     (case get_field c (ttlv_tag_size c) msg mlen index of
        None \<Rightarrow> Inl (- QM_EINVAL)
      | Some (t, index) \<Rightarrow>
          (let type = msg index; type_len = qm_tlv_block_data_type_len c type; index = index + 1
           in if type_len < 0 then Inl (- QM_EINVAL)
              else if type_len = 0
              then (case get_field c (ttlv_length_size c) msg mlen index of
                      None \<Rightarrow> Inl (- QM_EINVAL)
                    | Some (l, index) \<Rightarrow> Inr (b\<lparr>tag := t, ty := type, len := l\<rparr>, index))
              else Inr (b\<lparr>tag := t, ty := type, len := word_of_int type_len\<rparr>, index)))"

fun header :: "tlv_format \<Rightarrow> tlv_config \<Rightarrow> tlv_block \<Rightarrow> u8 list" where
  "header TLV = tlv_header"
| "header DTTV = dttv_header"
| "header TTLV = ttlv_header"

fun block_len :: "tlv_format \<Rightarrow> tlv_config \<Rightarrow> tlv_block \<Rightarrow> int" where
  "block_len TLV = tlv_block_len"
| "block_len DTTV = dttv_block_len"
| "block_len TTLV = ttlv_block_len"

fun parse :: "tlv_format \<Rightarrow> tlv_config \<Rightarrow> (nat \<Rightarrow> u8) \<Rightarrow> int \<Rightarrow> nat \<Rightarrow> tlv_block \<Rightarrow> int + tlv_block \<times> nat" where
  "parse TLV = tlv_parse"
| "parse DTTV = dttv_parse"
| "parse TTLV = ttlv_parse"

subsection \<open>Deserialising\<close>

lemma get_field_index: "get_field c n msg mlen i = Some (x, j) \<Longrightarrow> j = i + n \<and> int j \<le> mlen"
  by (auto simp: get_field_def split: if_splits)

lemma parse_index_ge: "parse fmt c msg mlen i b = Inr (b', j) \<Longrightarrow> i \<le> j"
  by (cases fmt) (auto simp: tlv_parse_def dttv_parse_def ttlv_parse_def Let_def
      dest!: get_field_index split: option.splits if_splits)

text \<open>\<open>mem_slice\<close> is what \<open>memcpy\<close> reads from \<open>msg + index\<close>.\<close>

definition mem_slice :: "(nat \<Rightarrow> u8) \<Rightarrow> nat \<Rightarrow> nat \<Rightarrow> u8 list" where
  "mem_slice msg i n = map msg [i..<i + n]"

lemma length_mem_slice [simp]: "length (mem_slice msg i n) = n"
  by (simp add: mem_slice_def)

lemma get_field_less: "get_field c n msg mlen i = Some (x, j) \<Longrightarrow> n \<noteq> 2 \<Longrightarrow> unat x < 256"
  using unat_less_u8 [of "msg i"] by (auto simp: get_field_def unsigned_ucast_eq take_bit_nat_def split: if_splits)

lemma type_len_cases: "qm_tlv_block_data_type_len c t \<in> {- 1, 0, 1, 2, 4, 8}"
  by (simp add: qm_tlv_block_data_type_len_def Let_def)

lemma type_len_unat:
  "\<not> qm_tlv_block_data_type_len c t < 0 \<Longrightarrow>
    unat (word_of_int (qm_tlv_block_data_type_len c t) :: u16) = nat (qm_tlv_block_data_type_len c t)"
  "qm_tlv_block_data_type_len c t < 256"
  using type_len_cases [of c t] by auto

lemma length_field_fits:
  "get_field c n msg mlen i = Some (x, j) \<Longrightarrow> n = 2 \<longrightarrow> length_byte c = 2 \<Longrightarrow> fits (length_byte c) x"
  "\<not> qm_tlv_block_data_type_len c t < 0 \<Longrightarrow> fits (length_byte c) (word_of_int (qm_tlv_block_data_type_len c t))"
  using byte_widths(2) [of c] get_field_less [of c n msg mlen i x j] type_len_unat [of c t] by (auto simp: nat_less_iff)

lemma parse_len_fits:
  assumes "parse fmt c msg mlen i b = Inr (b', j)"
  shows "fits (length_byte c) (len b')"
proof -
  have sz: "tlv_length_size c = 2 \<longrightarrow> length_byte c = 2" "dttv_length_size c = 2 \<longrightarrow> length_byte c = 2"
    "ttlv_length_size c = 2 \<longrightarrow> length_byte c = 2" by (simp_all add: length_byte_def)
  show ?thesis
  proof (cases fmt)
    case TLV
    with assms length_field_fits(1) [OF _ sz(1)] show ?thesis
      by (auto simp: tlv_parse_def split: option.splits)
  next
    case DTTV
    with assms length_field_fits(1) [OF _ sz(2)] show ?thesis
      by (auto simp: dttv_parse_def Let_def length_field_fits(2) split: option.splits if_splits)
  next
    case TTLV
    with assms length_field_fits(1) [OF _ sz(3)] show ?thesis
      by (auto simp: ttlv_parse_def Let_def length_field_fits(2) split: option.splits if_splits)
  qed
qed

lemma pack_bytes_ok:
  assumes "pack_bytes c b bs m = (QM_EOK, b', m')" "length bs = blen b" "fits (length_byte c) (len b)"
  shows "len b' = len b" "0 < blen b"
  using assms by (auto simp: pack_bytes_def errno fits_def Let_def split: if_splits prod.splits option.splits)

lemma loop_progress:
  assumes "int index < mlen" "parse fmt c msg mlen index b = Inr (b1, index')"
    "pack_bytes c b1 (mem_slice msg index' (blen b1)) m1 = (QM_EOK, b', m2)"
  shows "nat (mlen - int (index' + blen b')) < nat (mlen - int index)"
proof -
  have p: "index \<le> index'" "fits (length_byte c) (len b1)"
    using assms(2) parse_index_ge parse_len_fits by blast+
  from pack_bytes_ok [OF assms(3) _ p(2)] have "len b' = len b1" "0 < blen b1" by simp_all
  with p(1) assms(1) show ?thesis by simp
qed

function deserialize_loop ::
  "tlv_format \<Rightarrow> tlv_config \<Rightarrow> (nat \<Rightarrow> u8) \<Rightarrow> int \<Rightarrow> nat \<Rightarrow> tlv_ctx \<Rightarrow> mem \<Rightarrow> int \<times> tlv_ctx \<times> mem" where
  "deserialize_loop fmt c msg mlen index ctx m =
     (if int index < mlen
      then (case qm_tlv_block_creat c m of
              (None, m) \<Rightarrow> (- QM_ENOMEM, ctx, m)
            | (Some (a, b), m) \<Rightarrow>
                (case parse fmt c msg mlen index b of
                   Inl e \<Rightarrow> (e, ctx, tlv_free a m)
                 | Inr (b, index') \<Rightarrow>
                     if mlen - int index' < int (blen b) then (- QM_EINVAL, ctx, tlv_free a m)
                     else (case pack_bytes c b (mem_slice msg index' (blen b)) m of (ret, b', m) \<Rightarrow>
                             if ret \<noteq> QM_EOK then (ret, ctx, tlv_free a m)
                             else (case block_add ctx (a, b') of (ret, ctx) \<Rightarrow>
                                     if ret \<noteq> QM_EOK then (ret, ctx, tlv_free a m)
                                     else deserialize_loop fmt c msg mlen (index' + blen b') ctx m))))
      else (QM_EOK, ctx, m))"
  by pat_completeness auto

termination
proof (relation "measure (\<lambda>(fmt, c, msg, mlen, index, ctx, m). nat (mlen - int index))", goal_cases)
  case 2
  then show ?case unfolding in_measure prod.case by (metis loop_progress)
qed simp

declare deserialize_loop.simps [simp del]

definition deserialize_msg ::
  "tlv_format \<Rightarrow> tlv_config \<Rightarrow> tlv_ctx option \<Rightarrow> (nat \<Rightarrow> u8) option \<Rightarrow> int \<Rightarrow> mem \<Rightarrow> int \<times> tlv_ctx option \<times> mem" where
  "deserialize_msg fmt c x msg mlen m =
     (case (x, msg) of
        (Some ctx, Some msg) \<Rightarrow>
          if mlen = 0 then (- QM_EINVAL, x, m)
          else (case deserialize_loop fmt c msg mlen 0 ctx m of (ret, ctx, m) \<Rightarrow> (ret, Some ctx, m))
      | _ \<Rightarrow> (- QM_EINVAL, x, m))"

definition qm_dttv_deserialize where
  "qm_dttv_deserialize = deserialize_msg DTTV"

definition qm_tlv_deserialize_tlv where
  "qm_tlv_deserialize_tlv = deserialize_msg TLV"

definition qm_ttlv_deserialize where
  "qm_ttlv_deserialize = deserialize_msg TTLV"

text \<open>The values of \<open>qm_tlv_block_type_t\<close>.\<close>

fun block_type :: "tlv_format \<Rightarrow> int" where
  "block_type TLV = 0"
| "block_type DTTV = 1"
| "block_type TTLV = 2"

definition qm_tlv_deserialize ::
  "tlv_config \<Rightarrow> tlv_ctx option \<Rightarrow> (nat \<Rightarrow> u8) option \<Rightarrow> int \<Rightarrow> int \<Rightarrow> mem \<Rightarrow> int \<times> tlv_ctx option \<times> mem" where
  "qm_tlv_deserialize c x msg mlen bt m =
     (if bt = block_type DTTV then qm_dttv_deserialize c x msg mlen m
      else if bt = block_type TLV then qm_tlv_deserialize_tlv c x msg mlen m
      else if bt = block_type TTLV then qm_ttlv_deserialize c x msg mlen m
      else (- QM_EINVAL, x, m))"

subsection \<open>Serialising\<close>

text \<open>\<open>mem_put\<close> is \<open>memcpy\<close> to \<open>msg + index\<close>.\<close>

definition mem_put :: "nat \<Rightarrow> u8 list \<Rightarrow> (nat \<Rightarrow> u8) \<Rightarrow> nat \<Rightarrow> u8" where
  "mem_put i bs msg = (\<lambda>j. if i \<le> j \<and> j < i + length bs then bs ! (j - i) else msg j)"

definition clear_flag :: "nat \<Rightarrow> tlv_block \<Rightarrow> tlv_block" where
  "clear_flag st b =
     (if st = 2 then b\<lparr>flag := (flag b)\<lparr>serialization := False\<rparr>\<rparr>
      else if st = 1 then b\<lparr>flag := (flag b)\<lparr>update := False\<rparr>\<rparr> else b)"

definition skipped :: "nat \<Rightarrow> tlv_block \<Rightarrow> bool" where
  "skipped st b \<longleftrightarrow> (if st = 2 then \<not> serialization (flag b) else if st = 1 then \<not> update (flag b) else False)"

text \<open>The header and the value of one block, written at \<open>index\<close>; reading the value clears the update flag.\<close>

definition write_block ::
  "tlv_format \<Rightarrow> tlv_config \<Rightarrow> nat \<Rightarrow> tlv_block \<Rightarrow> (nat \<Rightarrow> u8) \<Rightarrow> tlv_block \<times> (nat \<Rightarrow> u8)" where
  "write_block fmt c index b msg =
     (let hd = header fmt c b; msg = mem_put index hd msg
      in case qm_tlv_unpack_bytes_direct c (Some b) of
           (_, b', Some (sz, Some bytes)) \<Rightarrow> (the b', mem_put (index + length hd) bytes msg)
         | (_, b', _) \<Rightarrow> (the b', msg))"

fun serialize_loop ::
  "tlv_format \<Rightarrow> tlv_config \<Rightarrow> nat \<Rightarrow> int \<Rightarrow> (nat \<Rightarrow> u8) option \<Rightarrow> nat \<Rightarrow> (nat \<times> tlv_block) list
    \<Rightarrow> (nat \<times> tlv_block) list \<times> (nat \<Rightarrow> u8) option \<times> nat" where
  "serialize_loop fmt c st off msg index [] = ([], msg, index)"
| "serialize_loop fmt c st off msg index ((a, b) # bs) =
     (if skipped st b
      then (case serialize_loop fmt c st off msg index bs of (bs', r) \<Rightarrow> ((a, b) # bs', r))
      else (case msg of
              None \<Rightarrow>
                (case serialize_loop fmt c st off None (index + length (header fmt c b) + blen b) bs of
                   (bs', r) \<Rightarrow> ((a, b) # bs', r))
            | Some mem \<Rightarrow>
                if off - int index < block_len fmt c b then ((a, b) # bs, msg, index)
                else (case write_block fmt c index (clear_flag st b) mem of (b1, mem1) \<Rightarrow>
                        (case serialize_loop fmt c st off (Some mem1) (index + length (header fmt c b) + blen b) bs of
                           (bs', r) \<Rightarrow> ((a, b1) # bs', r)))))"

definition serialize_msg ::
  "tlv_format \<Rightarrow> tlv_config \<Rightarrow> tlv_ctx option \<Rightarrow> (nat \<Rightarrow> u8) option \<Rightarrow> int \<Rightarrow> nat
    \<Rightarrow> int \<times> tlv_ctx option \<times> (nat \<Rightarrow> u8) option \<times> int" where
  "serialize_msg fmt c x msg off st =
     (case x of
        None \<Rightarrow> (- QM_EINVAL, x, msg, off)
      | Some ctx \<Rightarrow>
          (case serialize_loop fmt c st off msg 0 (blocks ctx) of (bs, msg, index) \<Rightarrow>
             (QM_EOK, Some (ctx\<lparr>blocks := bs\<rparr>), msg, int index)))"

definition qm_dttv_serialize where
  "qm_dttv_serialize = serialize_msg DTTV"

definition qm_tlv_serialize_tlv where
  "qm_tlv_serialize_tlv = serialize_msg TLV"

definition qm_ttlv_serialize where
  "qm_ttlv_serialize = serialize_msg TTLV"

definition qm_tlv_serialize ::
  "tlv_config \<Rightarrow> tlv_ctx option \<Rightarrow> (nat \<Rightarrow> u8) option \<Rightarrow> int \<Rightarrow> int \<Rightarrow> nat
    \<Rightarrow> int \<times> tlv_ctx option \<times> (nat \<Rightarrow> u8) option \<times> int" where
  "qm_tlv_serialize c x msg off bt st =
     (if bt = block_type DTTV then qm_dttv_serialize c x msg off st
      else if bt = block_type TLV then qm_tlv_serialize_tlv c x msg off st
      else if bt = block_type TTLV then qm_ttlv_serialize c x msg off st
      else (- QM_EINVAL, x, msg, off))"

lemmas serialize_defs = qm_tlv_serialize_def qm_dttv_serialize_def qm_tlv_serialize_tlv_def qm_ttlv_serialize_def
lemmas deserialize_defs =
  qm_tlv_deserialize_def qm_dttv_deserialize_def qm_tlv_deserialize_tlv_def qm_ttlv_deserialize_def

lemma serialize_eq: "qm_tlv_serialize c x msg off (block_type fmt) st = serialize_msg fmt c x msg off st"
  by (cases fmt) (simp_all add: serialize_defs)

lemma deserialize_eq: "qm_tlv_deserialize c x msg mlen (block_type fmt) m = deserialize_msg fmt c x msg mlen m"
  by (cases fmt) (simp_all add: deserialize_defs)

subsection \<open>Memory\<close>

lemma mem_slice_put [simp]: "mem_slice (mem_put i bs msg) i (length bs) = bs"
  by (auto simp: mem_slice_def mem_put_def intro!: nth_equalityI)

lemma mem_put_append: "mem_put (i + length as) bs (mem_put i as msg) = mem_put i (as @ bs) msg"
  by (auto simp: mem_put_def fun_eq_iff nth_append)

lemma mem_put_other: "j < i \<or> i + length bs \<le> j \<Longrightarrow> mem_put i bs msg j = msg j"
  by (auto simp: mem_put_def)

lemma mem_slice_append: "mem_slice msg i (m + n) = mem_slice msg i m @ mem_slice msg (i + m) n"
  by (simp add: mem_slice_def upt_add_eq_append [of i "i + m" n] flip: add.assoc)

lemma mem_slice_cong: "(\<And>j. i \<le> j \<Longrightarrow> j < i + n \<Longrightarrow> msg j = msg' j) \<Longrightarrow> mem_slice msg i n = mem_slice msg' i n"
  by (simp add: mem_slice_def)

lemma mem_slice_appendD:
  assumes "mem_slice msg i (length as + n) = as @ bs" "length bs = n"
  shows "mem_slice msg i (length as) = as" "mem_slice msg (i + length as) n = bs"
  using assms by (simp_all add: mem_slice_append)

subsection \<open>The format contract\<close>

fun tag_size :: "tlv_format \<Rightarrow> tlv_config \<Rightarrow> nat" where
  "tag_size TLV = tlv_tag_size"
| "tag_size DTTV = dttv_tag_size"
| "tag_size TTLV = ttlv_tag_size"

fun length_size :: "tlv_format \<Rightarrow> tlv_config \<Rightarrow> nat" where
  "length_size TLV = tlv_length_size"
| "length_size DTTV = dttv_length_size"
| "length_size TTLV = ttlv_length_size"

text \<open>
  The blocks a format can carry: well formed, not empty, the tag fits its field, and for the typed
  formats the type is known and fixes the length, or the length fits its field.
\<close>

definition block_ok :: "tlv_format \<Rightarrow> tlv_config \<Rightarrow> tlv_block \<Rightarrow> bool" where
  "block_ok fmt c b \<longleftrightarrow> block_wf c b \<and> 0 < blen b \<and> fits (tag_size fmt c) (tag b)
     \<and> (if fmt = TLV then fits (length_size fmt c) (len b)
         else let t = qm_tlv_block_data_type_len c (ty b)
              in 0 \<le> t \<and> (if t = 0 then fits (length_size fmt c) (len b) else int (blen b) = t))"

definition carried_type :: "tlv_format \<Rightarrow> tlv_block \<Rightarrow> u8 \<Rightarrow> u8" where
  "carried_type fmt b t = (if fmt = TLV then t else ty b)"

locale tlv_codec =
  fixes fmt :: tlv_format
  assumes parse_header:
    "cfg_ok c \<Longrightarrow> block_ok fmt c b \<Longrightarrow> mem_slice msg i (length (header fmt c b)) = header fmt c b \<Longrightarrow>
      int (i + length (header fmt c b) + blen b) \<le> mlen \<Longrightarrow>
      parse fmt c msg mlen i b0 =
        Inr (b0\<lparr>ty := carried_type fmt b (ty b0), tag := tag b, len := len b\<rparr>, i + length (header fmt c b))"
    and block_len_bound: "cfg_ok c \<Longrightarrow> block_ok fmt c b \<Longrightarrow> int (length (header fmt c b) + blen b) \<le> block_len fmt c b"

text \<open>A codec whose header reader looks only at the message's bytes.\<close>

locale bounded_codec =
  fixes fmt :: tlv_format
  assumes parse_bounded:
    "cfg_ok c \<Longrightarrow> int i < mlen \<Longrightarrow> (\<And>j. int j < mlen \<Longrightarrow> msg j = msg' j) \<Longrightarrow>
      parse fmt c msg mlen i b = parse fmt c msg' mlen i b"

lemma length_put_field: "n \<in> {1, 2} \<Longrightarrow> length (put_field c n x) = n"
  by (auto simp: put_field_def)

lemma ucast_fits: "unat x < 256 \<Longrightarrow> ucast (ucast x :: u8) = (x :: u16)"
  using fits_1 [of x] by (simp add: fits_def narrow_def)

lemma get_put_field:
  assumes n: "n \<in> {1, 2}" and f: "fits n x" and "mem_slice msg i n = put_field c n x" "int (i + n) \<le> mlen"
  shows "get_field c n msg mlen i = Some (x, i + n)"
proof (cases "n = 2")
  case True
  then have "[msg i, msg (i + 1)] = store16 (big_endian c) (cpu_to_be16 (big_endian c) x)"
    using assms(3) by (simp add: mem_slice_def put_field_def upt_conv_Cons)
  then show ?thesis using True assms(4) by (simp add: get_field_def)
next
  case False
  then have "n = 1" using n by simp
  then show ?thesis using assms(2-4) ucast_fits [of x] by (simp add: mem_slice_def put_field_def get_field_def)
qed

lemma get_field_bounded:
  assumes "n \<in> {1, 2}" "\<And>j. int j < mlen \<Longrightarrow> msg j = msg' j"
  shows "get_field c n msg mlen = get_field c n msg' mlen"
  using assms by (auto simp: get_field_def fun_eq_iff)

lemma cfg_ok_sizes: "cfg_ok c \<Longrightarrow> tag_size fmt c \<in> {1, 2}" "cfg_ok c \<Longrightarrow> length_size fmt c \<in> {1, 2}"
  by (cases fmt; simp add: cfg_ok_def)+

lemma type_len_word:
  "0 < qm_tlv_block_data_type_len c t \<Longrightarrow> int (unat x) = qm_tlv_block_data_type_len c t \<Longrightarrow>
    word_of_int (qm_tlv_block_data_type_len c t) = (x :: u16)"
  by (metis of_int_of_nat_eq word_of_nat_unat)

lemma tlv_parse_header:
  assumes c: "cfg_ok c" and ok: "block_ok TLV c b"
    and s: "mem_slice msg i (length (tlv_header c b)) = tlv_header c b"
    and l: "int (i + length (tlv_header c b) + blen b) \<le> mlen"
  shows "tlv_parse c msg mlen i b0 = Inr (b0\<lparr>tag := tag b, len := len b\<rparr>, i + length (tlv_header c b))"
proof -
  note sz = cfg_ok_sizes(1) [OF c, of TLV] cfg_ok_sizes(2) [OF c, of TLV]
  let ?t = "put_field c (tlv_tag_size c) (tag b)" and ?l = "put_field c (tlv_length_size c) (len b)"
  have len: "length ?t = tlv_tag_size c" "length ?l = tlv_length_size c" using sz by (simp_all add: length_put_field)
  have "mem_slice msg i (length ?t + length ?l) = ?t @ ?l" using s by (simp add: tlv_header_def)
  note m = mem_slice_appendD [OF this refl, unfolded len]
  have "get_field c (tlv_tag_size c) msg mlen i = Some (tag b, i + tlv_tag_size c)"
    using sz ok m(1) l len by (intro get_put_field) (auto simp: block_ok_def tlv_header_def)
  moreover have "get_field c (tlv_length_size c) msg mlen (i + tlv_tag_size c)
      = Some (len b, i + tlv_tag_size c + tlv_length_size c)"
    using sz ok m(2) l len by (intro get_put_field) (auto simp: block_ok_def tlv_header_def)
  ultimately show ?thesis using len by (simp add: tlv_parse_def tlv_header_def)
qed

lemma typed_ok:
  assumes "fmt \<noteq> TLV" "block_ok fmt c b" "t = qm_tlv_block_data_type_len c (ty b)"
  shows "\<not> t < 0" "t = 0 \<Longrightarrow> fits (length_size fmt c) (len b)" "t \<noteq> 0 \<Longrightarrow> word_of_int t = len b"
    "fits (tag_size fmt c) (tag b)"
  using assms type_len_word [of c "ty b" "len b"] by (auto simp: block_ok_def Let_def)

lemma dttv_parse_header:
  assumes c: "cfg_ok c" and ok: "block_ok DTTV c b"
    and s: "mem_slice msg i (length (dttv_header c b)) = dttv_header c b"
    and l: "int (i + length (dttv_header c b) + blen b) \<le> mlen"
  shows "dttv_parse c msg mlen i b0 = Inr (b0\<lparr>ty := ty b, tag := tag b, len := len b\<rparr>, i + length (dttv_header c b))"
proof -
  define t where "t = qm_tlv_block_data_type_len c (ty b)"
  note sz = cfg_ok_sizes(1) [OF c, of DTTV] cfg_ok_sizes(2) [OF c, of DTTV]
  note ty = typed_ok [OF _ ok t_def]
  let ?t = "put_field c (dttv_tag_size c) (tag b)"
  let ?l = "if t = 0 then put_field c (dttv_length_size c) (len b) else []"
  have len: "length ?t = dttv_tag_size c" "t = 0 \<Longrightarrow> length ?l = dttv_length_size c"
    using sz by (simp_all add: length_put_field)
  have "mem_slice msg i (length [ty b] + length (?t @ ?l)) = [ty b] @ ?t @ ?l" using s by (simp add: dttv_header_def t_def)
  note m1 = mem_slice_appendD [OF this refl]
  note m2 = mem_slice_appendD [OF m1(2) [unfolded length_append] refl]
  have type: "msg i = ty b" using m1(1) by (simp add: mem_slice_def)
  have "get_field c (dttv_tag_size c) msg mlen (i + 1) = Some (tag b, i + 1 + dttv_tag_size c)"
    using sz ty(4) m2(1) l len(1) by (intro get_put_field) (auto simp: dttv_header_def)
  moreover have "get_field c (dttv_length_size c) msg mlen (i + 1 + dttv_tag_size c)
      = Some (len b, i + 1 + dttv_tag_size c + dttv_length_size c)" if "t = 0"
    using sz ty(2) m2(2) l len that by (intro get_put_field) (auto simp: dttv_header_def t_def)
  ultimately show ?thesis
    using len ty(1,3) by (simp add: dttv_parse_def dttv_header_def type Let_def t_def [symmetric])
qed

lemma ttlv_parse_header:
  assumes c: "cfg_ok c" and ok: "block_ok TTLV c b"
    and s: "mem_slice msg i (length (ttlv_header c b)) = ttlv_header c b"
    and l: "int (i + length (ttlv_header c b) + blen b) \<le> mlen"
  shows "ttlv_parse c msg mlen i b0 = Inr (b0\<lparr>ty := ty b, tag := tag b, len := len b\<rparr>, i + length (ttlv_header c b))"
proof -
  define t where "t = qm_tlv_block_data_type_len c (ty b)"
  note sz = cfg_ok_sizes(1) [OF c, of TTLV] cfg_ok_sizes(2) [OF c, of TTLV]
  note ty = typed_ok [OF _ ok t_def]
  let ?t = "put_field c (ttlv_tag_size c) (tag b)"
  let ?l = "if t = 0 then put_field c (ttlv_length_size c) (len b) else []"
  have len: "length ?t = ttlv_tag_size c" "t = 0 \<Longrightarrow> length ?l = ttlv_length_size c"
    using sz by (simp_all add: length_put_field)
  have "mem_slice msg i (length ?t + length ([ty b] @ ?l)) = ?t @ [ty b] @ ?l" using s by (simp add: ttlv_header_def t_def)
  note m1 = mem_slice_appendD [OF this refl]
  note m2 = mem_slice_appendD [OF m1(2) [unfolded length_append] refl]
  have type: "msg (i + ttlv_tag_size c) = ty b" using m2(1) len(1) by (simp add: mem_slice_def)
  have "get_field c (ttlv_tag_size c) msg mlen i = Some (tag b, i + ttlv_tag_size c)"
    using sz ty(4) m1(1) l len(1) by (intro get_put_field) (auto simp: ttlv_header_def)
  moreover have "get_field c (ttlv_length_size c) msg mlen (i + ttlv_tag_size c + 1)
      = Some (len b, i + ttlv_tag_size c + 1 + ttlv_length_size c)" if "t = 0"
    using sz ty(2) m2(2) l len that by (intro get_put_field) (auto simp: ttlv_header_def t_def)
  ultimately show ?thesis
    using len ty(1,3) by (simp add: ttlv_parse_def ttlv_header_def type Let_def t_def [symmetric])
qed

lemma typed_block_len:
  assumes "cfg_ok c" "fmt \<noteq> TLV" "block_ok fmt c b"
  shows "int (length (header fmt c b) + blen b) \<le> block_len fmt c b"
proof -
  have t: "tag_size fmt c \<le> tag_byte c" "length_size fmt c \<le> length_byte c"
    using cfg_ok_sizes [OF assms(1), of fmt] by (cases fmt; auto simp: tag_byte_def length_byte_def)+
  show ?thesis
    using assms(2,3) t cfg_ok_sizes [OF assms(1), of fmt]
    by (cases fmt) (auto simp: block_ok_def dttv_header_def ttlv_header_def dttv_block_len_def ttlv_block_len_def
        length_put_field Let_def)
qed

text \<open>What a format puts on the wire, and what of a block it transports.\<close>

definition encode :: "tlv_format \<Rightarrow> tlv_config \<Rightarrow> tlv_block \<Rightarrow> u8 list" where
  "encode fmt c b = header fmt c b @ content b"

abbreviation encode_all :: "tlv_format \<Rightarrow> tlv_config \<Rightarrow> tlv_block list \<Rightarrow> u8 list" where
  "encode_all fmt c bs \<equiv> concat (map (encode fmt c) bs)"

definition entry :: "tlv_block \<Rightarrow> u16 \<times> u8 \<times> u8 list" where
  "entry b = (tag b, ty b, content b)"

abbreviation entries :: "tlv_ctx \<Rightarrow> (u16 \<times> u8 \<times> u8 list) list" where
  "entries ctx \<equiv> map (\<lambda>x. entry (snd x)) (blocks ctx)"

definition wire_entry :: "tlv_format \<Rightarrow> tlv_block \<Rightarrow> u16 \<times> u8 \<times> u8 list" where
  "wire_entry fmt b = (tag b, carried_type fmt b 0, content b)"

lemma length_encode: "block_ok fmt c b \<Longrightarrow> length (encode fmt c b) = length (header fmt c b) + blen b"
  using length_content [of c b] by (simp add: encode_def block_ok_def)

lemma tag_size_fits:
  assumes "cfg_ok c" "fits (tag_size fmt c) x"
  shows "fits (tag_byte c) x"
proof (cases "tag_byte c = 2")
  case False
  then have "tag_byte c = 1" "tag_size fmt c \<noteq> 2" using byte_widths(1) by (cases fmt; auto simp: tag_byte_def split: if_splits)+
  with assms cfg_ok_sizes(1) [OF assms(1), of fmt] show ?thesis by auto
qed simp

lemma header_clear_flag [simp]: "header fmt c (clear_flag st b) = header fmt c b"
  by (cases fmt) (simp_all add: clear_flag_def tlv_header_def dttv_header_def ttlv_header_def)

lemma clear_flag_sel [simp]:
  "len (clear_flag st b) = len b" "tag (clear_flag st b) = tag b" "ty (clear_flag st b) = ty b" "val (clear_flag st b) = val b"
  by (simp_all add: clear_flag_def)

lemma block_wf_clear_flag [simp]: "block_wf c (clear_flag st b) = block_wf c b"
  by (simp add: block_wf_def split: tlv_value.splits option.splits)

lemma content_clear_flag [simp]: "content (clear_flag st b) = content b"
  by (simp add: content_def split: tlv_value.splits option.splits)

lemma write_block_wf:
  assumes "block_wf c b"
  shows "write_block fmt c i (clear_flag st b) msg = (set_update False (clear_flag st b), mem_put i (encode fmt c b) msg)"
  using unpack_direct_wf [of c "clear_flag st b"] assms
  by (simp add: write_block_def qm_tlv_unpack_bytes_direct_def Let_def encode_def mem_put_append)

lemma mem_put_chain:
  assumes "\<And>j. j < i + length as \<Longrightarrow> msg' j = mem_put i as msg j"
  shows "mem_slice msg' i (length as) = as"
proof -
  have "mem_slice msg' i (length as) = mem_slice (mem_put i as msg) i (length as)"
    using assms by (intro mem_slice_cong) auto
  then show ?thesis by simp
qed

context tlv_codec
begin

lemma serialize_bounds:
  assumes "cfg_ok c" "\<And>x. x \<in> set bs \<Longrightarrow> block_ok fmt c (snd x)" "int i \<le> off"
    "serialize_loop fmt c st off (Some msg) i bs = (bs', msg1, i')"
  shows "\<exists>msg'. msg1 = Some msg' \<and> i \<le> i' \<and> int i' \<le> off \<and> (\<forall>j. j < i \<or> i' \<le> j \<longrightarrow> msg' j = msg j)"
  using assms(2-4)
proof (induction bs arbitrary: msg i bs')
  case (Cons x bs)
  obtain a b where x: "x = (a, b)" by (cases x)
  have ok: "block_ok fmt c b" "block_wf c b" using Cons.prems(1) [of x] x by (auto simp: block_ok_def)
  let ?n = "length (encode fmt c b)"
  show ?case
  proof (cases "skipped st b \<or> off - int i < block_len fmt c b")
    case True
    then show ?thesis
      using Cons.prems Cons.IH [of i msg] x by (fastforce split: prod.splits if_splits)
  next
    case False
    then have room: "int (i + ?n) \<le> off"
      using block_len_bound [OF assms(1) ok(1)] length_encode [OF ok(1)] by simp
    obtain bs1 where e: "serialize_loop fmt c st off (Some (mem_put i (encode fmt c b) msg)) (i + ?n) bs = (bs1, msg1, i')"
      using Cons.prems(3) False x length_encode [OF ok(1)]
      by (auto simp: write_block_wf [OF ok(2)] add.assoc split: prod.splits)
    have okbs: "x \<in> set bs \<Longrightarrow> block_ok fmt c (snd x)" for x using Cons.prems(1) by simp
    from Cons.IH [OF okbs room e] obtain msg' where "msg1 = Some msg'" "i + ?n \<le> i'" "int i' \<le> off"
      "\<forall>j. j < i + ?n \<or> i' \<le> j \<longrightarrow> msg' j = mem_put i (encode fmt c b) msg j"
      by blast
    then show ?thesis by (auto simp: mem_put_def)
  qed
qed auto

lemma serialize_all:
  assumes "cfg_ok c" "\<And>x. x \<in> set bs \<Longrightarrow> block_ok fmt c (snd x)"
    "int i + (\<Sum>x\<leftarrow>bs. block_len fmt c (snd x)) \<le> off"
  shows "\<exists>bs' msg'. serialize_loop fmt c 0 off (Some msg) i bs
      = (bs', Some msg', i + length (encode_all fmt c (map snd bs)))
    \<and> mem_slice msg' i (length (encode_all fmt c (map snd bs))) = encode_all fmt c (map snd bs)
    \<and> (\<forall>j < i. msg' j = msg j)"
  using assms(2,3)
proof (induction bs arbitrary: msg i)
  case (Cons x bs)
  obtain a b where x: "x = (a, b)" by (cases x)
  have ok: "block_ok fmt c b" "block_wf c b" using Cons.prems(1) [of x] x by (auto simp: block_ok_def)
  let ?e = "encode fmt c b" and ?es = "encode_all fmt c (map snd bs)"
  have "0 \<le> (\<Sum>x\<leftarrow>bs. block_len fmt c (snd x))"
    using Cons.prems(1) block_len_bound [OF assms(1)] by (intro sum_list_nonneg) fastforce
  then have room: "\<not> off - int i < block_len fmt c b" using Cons.prems(2) x by simp
  have rest: "int (i + length ?e) + (\<Sum>x\<leftarrow>bs. block_len fmt c (snd x)) \<le> off"
    using Cons.prems(2) x block_len_bound [OF assms(1) ok(1)] length_encode [OF ok(1)] by simp
  have okbs: "x \<in> set bs \<Longrightarrow> block_ok fmt c (snd x)" for x using Cons.prems(1) by simp
  obtain bs' msg' where IH: "serialize_loop fmt c 0 off (Some (mem_put i ?e msg)) (i + length ?e) bs
      = (bs', Some msg', i + length ?e + length ?es)" "mem_slice msg' (i + length ?e) (length ?es) = ?es"
    "\<forall>j < i + length ?e. msg' j = mem_put i ?e msg j"
    using Cons.IH [OF okbs rest, of "mem_put i ?e msg"] by blast
  have sl: "mem_slice msg' i (length ?e) = ?e" using IH(3) by (intro mem_put_chain [where msg = msg]) simp
  have "mem_slice msg' i (length ?e + length ?es) = ?e @ ?es" by (simp only: mem_slice_append sl IH(2))
  moreover have "\<forall>j < i. msg' j = msg j" using IH(3) by (simp add: mem_put_other)
  moreover have "serialize_loop fmt c 0 off (Some msg) i (x # bs)
      = ((a, set_update False (clear_flag 0 b)) # bs', Some msg', i + length ?e + length ?es)"
    using room x IH(1) length_encode [OF ok(1)] by (simp add: skipped_def write_block_wf [OF ok(2)] add.assoc)
  ultimately show ?case using x by (simp add: add.assoc)
qed (simp add: mem_slice_def)

lemma deserialize_encoded:
  assumes c: "cfg_ok c" and "ctx_wf c m ctx" "all_granted m" "\<And>b. b \<in> set bs \<Longrightarrow> block_ok fmt c b"
    "distinct (tags (blocks ctx) @ map tag bs)"
    "mem_slice msg i (length (encode_all fmt c bs)) = encode_all fmt c bs" "mlen = int (i + length (encode_all fmt c bs))"
  shows "\<exists>ctx' m'. deserialize_loop fmt c msg mlen i ctx m = (QM_EOK, ctx', m') \<and> ctx_wf c m' ctx'
    \<and> entries ctx' = entries ctx @ map (wire_entry fmt) bs"
  using assms(2-)
proof (induction bs arbitrary: i ctx m)
  case Nil
  then show ?case by (subst deserialize_loop.simps) simp
next
  case (Cons b bs)
  let ?h = "header fmt c b" and ?es = "encode_all fmt c bs"
  have ok: "block_ok fmt c b" "block_wf c b" "0 < blen b" using Cons.prems(3) [of b] by (auto simp: block_ok_def)
  have lc: "length (content b) = blen b" by (rule length_content [OF ok(2)])
  have "mem_slice msg i (length ?h + length (content b @ ?es)) = ?h @ content b @ ?es"
    using Cons.prems(5) by (simp add: encode_def [of fmt c b] add.assoc)
  note m1 = mem_slice_appendD [OF this refl]
  note m2 = mem_slice_appendD [OF m1(2) [unfolded length_append] refl]
  define j where "j = i + length ?h + blen b"
  have ml: "mlen = int (j + length ?es)" using Cons.prems(6) lc by (simp add: encode_def [of fmt c b] j_def)
  obtain a b0 m1 where b0: "qm_tlv_block_creat c m = (Some (a, b0), m1)" "a = next_addr m" "next_addr m1 = Suc a"
    "all_granted m1" "ty b0 = 0"
    using creat_granted [OF Cons.prems(2), of c] by blast
  define b1 where "b1 = b0\<lparr>ty := carried_type fmt b 0, tag := tag b, len := len b\<rparr>"
  have pa: "parse fmt c msg mlen i b0 = Inr (b1, i + length ?h)"
    using parse_header [OF c ok(1) m1(1), of mlen b0] ml b0(5) by (simp add: b1_def j_def)
  have sl: "mem_slice msg (i + length ?h) (blen b1) = content b" using m2(1) lc by (simp add: b1_def)
  have "fits (tag_byte c) (tag b1)" using ok(2) by (simp add: b1_def block_wf_def)
  moreover have "content b \<noteq> []" using ok(3) lc by auto
  moreover have "length (content b) \<le> max_len c" using lc fits_max_len ok(2) by (simp add: block_wf_def)
  ultimately obtain b2 m2 where b2: "pack_bytes c b1 (content b) m1 = (QM_EOK, b2, m2)" "block_wf c b2"
    "content b2 = content b" "blen b2 = blen b" "ty b2 = carried_type fmt b 0" "tag b2 = tag b" "all_granted m2"
    "next_addr m1 \<le> next_addr m2"
    using pack_bytes_spec [of "content b" c m1 b1] b0(4) lc by (auto simp: b1_def)
  define ctx1 where "ctx1 = ctx\<lparr>blocks := blocks ctx @ [(a, set_update True b2)], count := count ctx + 1\<rparr>"
  have new: "tag b2 \<notin> set (tags (blocks ctx))" using Cons.prems(4) b2(6) by auto
  have add: "block_add ctx (a, b2) = (QM_EOK, ctx1)" using new by (simp add: block_add_eq ctx1_def)
  have "ctx_wf c m2 ctx" using ctx_wf_mono [OF Cons.prems(1)] b0(2,3) b2(8) by simp
  then have w1: "ctx_wf c m2 ctx1"
    unfolding ctx1_def using b0(2,3) b2(2,8) new ctx_wf_fresh [OF Cons.prems(1)] by (intro ctx_wf_add) auto
  have "distinct (tags (blocks ctx1) @ map tag bs)" using Cons.prems(4) b2(6) by (auto simp: ctx1_def)
  moreover have "mem_slice msg j (length ?es) = ?es" using m2(2) lc by (simp add: j_def)
  ultimately obtain ctx' m' where IH: "deserialize_loop fmt c msg mlen j ctx1 m2 = (QM_EOK, ctx', m')" "ctx_wf c m' ctx'"
    "entries ctx' = entries ctx1 @ map (wire_entry fmt) bs"
    using Cons.IH [OF w1 b2(7)] Cons.prems(3) ml by (metis list.set_intros(2))
  have "deserialize_loop fmt c msg mlen i ctx m = (QM_EOK, ctx', m')"
    using ml ok(3) b0(1) pa sl b2(1,4) add IH(1)
    by (subst deserialize_loop.simps) (simp add: j_def b1_def add.assoc)
  moreover have "entries ctx1 = entries ctx @ [wire_entry fmt b]"
    using b2(3,5,6) by (simp add: ctx1_def entry_def wire_entry_def)
  ultimately show ?case using IH by simp
qed

end

interpretation tlv: tlv_codec TLV
  by unfold_locales
    (simp_all add: tlv_parse_header carried_type_def tlv_header_def tlv_block_len_def length_put_field cfg_ok_sizes [of _ TLV, simplified])

interpretation dttv: tlv_codec DTTV
  by unfold_locales (use typed_block_len [of _ DTTV] in \<open>simp_all add: dttv_parse_header carried_type_def\<close>)

interpretation ttlv: tlv_codec TTLV
  by unfold_locales (use typed_block_len [of _ TTLV] in \<open>simp_all add: ttlv_parse_header carried_type_def\<close>)

interpretation tlv: bounded_codec TLV
proof
  fix c :: tlv_config and i mlen b and msg msg' :: "nat \<Rightarrow> u8"
  assume "cfg_ok c" "\<And>j. int j < mlen \<Longrightarrow> msg j = msg' j"
  then have "get_field c (tag_size TLV c) msg mlen = get_field c (tag_size TLV c) msg' mlen"
    "get_field c (length_size TLV c) msg mlen = get_field c (length_size TLV c) msg' mlen"
    using cfg_ok_sizes [of c TLV] by (blast intro: get_field_bounded)+
  then show "parse TLV c msg mlen i b = parse TLV c msg' mlen i b"
    unfolding parse.simps tag_size.simps length_size.simps tlv_parse_def by presburger
qed

interpretation dttv: bounded_codec DTTV
proof
  fix c :: tlv_config and i mlen b and msg msg' :: "nat \<Rightarrow> u8"
  assume c: "cfg_ok c" "int i < mlen" "\<And>j. int j < mlen \<Longrightarrow> msg j = msg' j"
  then have "get_field c (tag_size DTTV c) msg mlen = get_field c (tag_size DTTV c) msg' mlen"
    "get_field c (length_size DTTV c) msg mlen = get_field c (length_size DTTV c) msg' mlen"
    using cfg_ok_sizes [of c DTTV] by (blast intro: get_field_bounded)+
  with c(3) [OF c(2)] show "parse DTTV c msg mlen i b = parse DTTV c msg' mlen i b"
    unfolding parse.simps tag_size.simps length_size.simps dttv_parse_def Let_def by presburger
qed

context bounded_codec
begin

lemma deserialize_bounded:
  assumes "cfg_ok c" "\<And>j. int j < mlen \<Longrightarrow> msg j = msg' j"
  shows "deserialize_loop fmt c msg mlen i ctx m = deserialize_loop fmt c msg' mlen i ctx m"
proof (induction "nat (mlen - int i)" arbitrary: i ctx m rule: less_induct)
  case less
  show ?case
  proof (cases "int i < mlen")
    case True
    have pa: "parse fmt c msg mlen i b = parse fmt c msg' mlen i b" for b
      using parse_bounded [OF assms(1) True] assms(2) by blast
    have sl: "mem_slice msg j n = mem_slice msg' j n" if "\<not> mlen - int j < int n" for j n
      using that assms(2) by (intro mem_slice_cong) auto
    have rec: "deserialize_loop fmt c msg mlen (i' + blen b') ctx' m' = deserialize_loop fmt c msg' mlen (i' + blen b') ctx' m'"
      if "parse fmt c msg' mlen i b = Inr (b1, i')" "pack_bytes c b1 (mem_slice msg' i' (blen b1)) m1 = (QM_EOK, b', m2)"
      for b b1 i' b' m1 m2 ctx' m'
      using less loop_progress [OF True that] by blast
    show ?thesis
      by (subst (1 2) deserialize_loop.simps)
        (auto simp: pa sl intro: rec split: prod.splits option.splits sum.splits)
  qed (simp add: deserialize_loop.simps)
qed

end

subsection \<open>The invariant\<close>

lemma creat_eq:
  assumes "qm_tlv_block_creat c m = (r, m')"
  shows "next_addr m' = Suc (next_addr m)" "r = Some (a, b) \<Longrightarrow> a = next_addr m"
  using assms by (auto simp: qm_tlv_block_creat_def tlv_malloc_def split: if_splits)

lemma pack_bytes_wf:
  assumes "pack_bytes c b bs m = (QM_EOK, b', m')" "length bs \<le> max_len c" "fits (tag_byte c) (tag b)"
  shows "block_wf c b'" "tag b' = tag b"
proof -
  obtain b1 m1 where d: "drop_pdata c b m = (b1, m1)" by (cases "drop_pdata c b m")
  note f = drop_pdata_frame [OF d]
  note l = len_field [OF assms(2)]
  show "block_wf c b'" "tag b' = tag b"
    using assms(1,3) d f l
    by (auto simp: pack_bytes_def block_wf_def overlay_def fits_def errno Let_def tlv_malloc_def split: if_splits prod.splits)
qed

lemma pack_bytes_next: "pack_bytes c b bs m = (r, b', m') \<Longrightarrow> next_addr m \<le> next_addr m'"
  using drop_pdata_frame(7) [of c b m]
  by (fastforce simp: pack_bytes_def tlv_malloc_def Let_def split: if_splits prod.splits)

lemma parse_tag_fits:
  assumes "parse fmt c msg mlen i b = Inr (b', j)"
  shows "fits (tag_byte c) (tag b')"
proof -
  have "fits (tag_byte c) t" if "get_field c (tag_size fmt c) msg mlen k = Some (t, k')" for t k k'
    using get_field_less [OF that] by (cases fmt) (auto simp: tag_byte_def)
  with assms show ?thesis
    by (cases fmt) (auto simp: tlv_parse_def dttv_parse_def ttlv_parse_def Let_def split: option.splits if_splits)
qed

lemma deserialize_wf:
  assumes "ctx_wf c m ctx" "deserialize_loop fmt c msg mlen i ctx m = (r, ctx', m')"
  shows "ctx_wf c m' ctx' \<and> (\<exists>new. blocks ctx' = blocks ctx @ new)"
  using assms
proof (induction "nat (mlen - int i)" arbitrary: i ctx m rule: less_induct)
  case less
  note free = ctx_wf_mono [of c _ ctx "tlv_free _ _", simplified]
  obtain r1 m1 where cr: "qm_tlv_block_creat c m = (r1, m1)" by (cases "qm_tlv_block_creat c m")
  have w1: "ctx_wf c m1 ctx" using ctx_wf_mono [OF less(2)] creat_eq(1) [OF cr] by simp
  show ?case
  proof (cases "int i < mlen")
    case False
    then show ?thesis using less(2,3) by (simp add: deserialize_loop.simps)
  next
    case lt: True
    show ?thesis
    proof (cases r1)
      case None
      then show ?thesis using less(3) lt cr w1 by (simp add: deserialize_loop.simps [of fmt c msg mlen i ctx m])
    next
      case (Some ab)
      then obtain a b where ab: "r1 = Some (a, b)" by (cases ab) auto
      note eq = less(3) [unfolded deserialize_loop.simps [of fmt c msg mlen i ctx m]]
      show ?thesis
      proof (cases "parse fmt c msg mlen i b")
        case (Inl e)
        then show ?thesis using eq lt cr ab w1 free by auto
      next
        case (Inr bi)
        then obtain b1 i' where pa: "parse fmt c msg mlen i b = Inr (b1, i')" by (cases bi) auto
        obtain ret b2 m2 where pk: "pack_bytes c b1 (mem_slice msg i' (blen b1)) m1 = (ret, b2, m2)"
          by (cases "pack_bytes c b1 (mem_slice msg i' (blen b1)) m1")
        have w2: "ctx_wf c m2 ctx" using ctx_wf_mono [OF w1 pack_bytes_next [OF pk]] .
        show ?thesis
        proof (cases "mlen - int i' < int (blen b1) \<or> ret \<noteq> QM_EOK \<or> tag b2 \<in> set (tags (blocks ctx))")
          case True
          then have "ctx' = ctx \<and> (m' = tlv_free a m1 \<or> m' = tlv_free a m2)"
            using eq lt cr ab pa pk by (auto simp: block_add_eq errno split: if_splits)
          then show ?thesis using w1 w2 free by auto
        next
          case False
          then have pk': "pack_bytes c b1 (mem_slice msg i' (blen b1)) m1 = (QM_EOK, b2, m2)" using pk by simp
          define ctx1 where "ctx1 = ctx\<lparr>blocks := blocks ctx @ [(a, set_update True b2)], count := count ctx + 1\<rparr>"
          have wf2: "block_wf c b2" "tag b2 = tag b1"
            using pack_bytes_wf [OF pk'] fits_max_len [OF parse_len_fits [OF pa]] parse_tag_fits [OF pa] by simp_all
          have a: "a = next_addr m" using creat_eq(2) [OF cr ab] .
          have "ctx_wf c m2 ctx1"
            unfolding ctx1_def using wf2 False a creat_eq(1) [OF cr] pack_bytes_next [OF pk] ctx_wf_fresh [OF less(2)]
            by (intro ctx_wf_add [OF w2]) auto
          moreover have "deserialize_loop fmt c msg mlen (i' + blen b2) ctx1 m2 = (r, ctx', m')"
            using eq lt cr ab pa pk' False by (simp add: block_add_eq ctx1_def)
          ultimately have "ctx_wf c m' ctx' \<and> (\<exists>new. blocks ctx' = blocks ctx1 @ new)"
            using less(1) loop_progress [OF lt pa pk'] by blast
          then show ?thesis by (auto simp: ctx1_def)
        qed
      qed
    qed
  qed
qed

section \<open>Properties\<close>

definition empty_ctx :: tlv_ctx where
  "empty_ctx = \<lparr>count = 0, carg = 0, blocks = []\<rparr>"

lemma empty_ctx_wf: "ctx_wf c m empty_ctx"
  by (simp add: ctx_wf_def empty_ctx_def)

lemma codec: "tlv_codec fmt"
  by (cases fmt) (simp_all add: tlv.tlv_codec_axioms dttv.tlv_codec_axioms ttlv.tlv_codec_axioms)



text \<open>C29: a serialiser given a buffer of \<open>*len\<close> bytes writes nothing at or after that length, in any
  format and for any selection of blocks, and returns the length it wrote, provided each block's length
  agrees with its type.\<close>

theorem tlv_serialize_in_bounds:
  assumes "cfg_ok c" "\<forall>x \<in> set (blocks ctx). block_ok fmt c (snd x)" "0 \<le> off"
    "qm_tlv_serialize c (Some ctx) (Some msg) off (block_type fmt) st = (r, ctx', msg', n)"
  shows "r = QM_EOK \<and> 0 \<le> n \<and> n \<le> off \<and> (\<exists>mem. msg' = Some mem \<and> (\<forall>j. n \<le> int j \<longrightarrow> mem j = msg j))"
proof -
  obtain bs' m1 i where l: "serialize_loop fmt c st off (Some msg) 0 (blocks ctx) = (bs', m1, i)"
    by (metis prod_cases3)
  have ok: "x \<in> set (blocks ctx) \<Longrightarrow> block_ok fmt c (snd x)" for x using assms(2) by simp
  from tlv_codec.serialize_bounds [OF codec assms(1) ok _ l] assms(3)
  obtain mem where "m1 = Some mem" "int i \<le> off" "\<forall>j. j < 0 \<or> i \<le> j \<longrightarrow> mem j = msg j" by auto
  with l assms(4) show ?thesis by (auto simp: serialize_eq serialize_msg_def)
qed

theorem tlv_serialize_in_bounds_witness:
  "\<exists>r ctx' msg' n. qm_tlv_serialize ex_cfg (Some (ex_ctx [(2, 7, [9])])) (Some (\<lambda>_. 0)) 2 (block_type DTTV) 0
    = (r, ctx', msg', n) \<and> n \<le> 2"
proof -
  let ?x = "ex_ctx [(2, 7, [9])]"
  have t: "qm_tlv_block_data_type_len ex_cfg 2 = 1" by code_simp
  have "cfg_ok ex_cfg" by (simp add: cfg_ok_def ex_cfg_def)
  moreover have "\<forall>x \<in> set (blocks ?x). block_ok DTTV ex_cfg (snd x)"
    by (simp add: block_ok_def ex_ctx_def ex_block_def t)
      (simp add: block_wf_def ex_cfg_def tag_byte_def length_byte_def overlay_def)
  moreover obtain r ctx' msg' n where
    e: "qm_tlv_serialize ex_cfg (Some ?x) (Some (\<lambda>_. 0)) 2 (block_type DTTV) 0 = (r, ctx', msg', n)"
    by (metis prod_cases4)
  ultimately have "n \<le> 2" using tlv_serialize_in_bounds [of ex_cfg ?x DTTV 2 "\<lambda>_. 0" 0] by auto
  with e show ?thesis by blast
qed

text \<open>C28: the TLV and DTTV deserialisers read only the \<open>len\<close> bytes of the message: their result does not
  depend on the memory after it, whatever the message.\<close>

theorem tlv_deserialize_reads_in_bounds:
  assumes "cfg_ok c" "fmt \<noteq> TTLV" "\<forall>j. int j < mlen \<longrightarrow> msg j = msg' j"
  shows "qm_tlv_deserialize c (Some ctx) (Some msg) mlen (block_type fmt) m
    = qm_tlv_deserialize c (Some ctx) (Some msg') mlen (block_type fmt) m"
proof -
  have "deserialize_loop fmt c msg mlen 0 ctx m = deserialize_loop fmt c msg' mlen 0 ctx m"
  proof (cases fmt)
    case TLV
    with assms(3) show ?thesis using tlv.deserialize_bounded [OF assms(1)] by blast
  next
    case DTTV
    with assms(3) show ?thesis using dttv.deserialize_bounded [OF assms(1)] by blast
  qed (use assms(2) in simp)
  then show ?thesis unfolding deserialize_eq deserialize_msg_def by simp
qed

theorem tlv_deserialize_reads_in_bounds_witness:
  "qm_tlv_deserialize ex_cfg (Some empty_ctx) (Some (\<lambda>_. 0)) 3 (block_type DTTV) (ex_mem 1)
    = qm_tlv_deserialize ex_cfg (Some empty_ctx) (Some (\<lambda>j. if j < 3 then 0 else 9)) 3 (block_type DTTV) (ex_mem 1)"
proof -
  have "cfg_ok ex_cfg" by (simp add: cfg_ok_def ex_cfg_def)
  then show ?thesis
    using tlv_deserialize_reads_in_bounds [of ex_cfg DTTV 3 "\<lambda>_. 0" "\<lambda>j. if j < 3 then 0 else 9"] by simp
qed

text \<open>The TTLV deserialiser reads the type byte of a block without checking that it is inside the
  message: for a message that ends after a tag, what its header reader does depends on the byte after
  the message.\<close>

theorem ttlv_header_overreads:
  "\<exists>msg msg' b. msg 0 = msg' 0 \<and> ttlv_parse ex_cfg msg 1 0 b = Inl (- QM_EINVAL)
    \<and> (\<exists>b'. ttlv_parse ex_cfg msg' 1 0 b = Inr (b', 2))"
proof -
  define msg msg' :: "nat \<Rightarrow> u8" where "msg = (\<lambda>_. 0xFF)" and "msg' = (\<lambda>j. if j = 0 then 0xFF else 0)"
  have "qm_tlv_block_data_type_len ex_cfg 0xFF = - 1" "qm_tlv_block_data_type_len ex_cfg 0 = 1" by code_simp+
  then have "ttlv_parse ex_cfg msg 1 0 (ex_block 0 0 []) = Inl (- QM_EINVAL)"
    "\<exists>b'. ttlv_parse ex_cfg msg' 1 0 (ex_block 0 0 []) = Inr (b', 2)"
    by (simp_all add: ttlv_parse_def get_field_def msg_def msg'_def) (simp_all add: ex_cfg_def)
  moreover have "msg 0 = msg' 0" by (simp add: msg_def msg'_def)
  ultimately show ?thesis by blast
qed

text \<open>The DTTV serialiser checks the room for a block by the length its type implies but writes the
  block's own length: a block of type \<open>UINT8\<close> that was given three bytes is written past a buffer of three.\<close>

theorem dttv_serialize_overflows:
  "\<exists>ctx' mem. qm_tlv_serialize ex_cfg (Some (ex_ctx [(2, 7, [9, 9, 9])])) (Some (\<lambda>_. 0)) 3 (block_type DTTV) 0
    = (QM_EOK, ctx', Some mem, 5) \<and> mem 4 = 9"
proof -
  let ?b = "ex_block 2 7 [9, 9, 9]"
  have t: "qm_tlv_block_data_type_len ex_cfg 2 = 1" by code_simp
  have h: "dttv_header ex_cfg ?b = [2, 7]"
    by (simp add: dttv_header_def ex_block_def t) (simp add: put_field_def ex_cfg_def)
  have w: "block_wf ex_cfg ?b" "blen ?b = 3" "content ?b = [9, 9, 9]"
    by (simp_all add: block_wf_def ex_block_def ex_cfg_def content_def overlay_def tag_byte_def length_byte_def)
  have "dttv_block_len ex_cfg ?b = 3"
    by (simp add: dttv_block_len_def ex_block_def t Let_def) (simp add: ex_cfg_def)
  then have "serialize_loop DTTV ex_cfg 0 3 (Some (\<lambda>_. 0)) 0 [(1, ?b)]
      = ([(1, set_update False (clear_flag 0 ?b))], Some (mem_put 0 [2, 7, 9, 9, 9] (\<lambda>_. 0)), 5)"
    by (simp add: skipped_def write_block_wf [OF w(1)] h w encode_def)
  moreover have "blocks (ex_ctx [(2, 7, [9, 9, 9])]) = [(1, ?b)]" by (simp add: ex_ctx_def)
  ultimately show ?thesis
    unfolding serialize_eq serialize_msg_def by (simp add: mem_put_def)
qed

text \<open>C25: whatever the message and however memory fails, deserialising keeps the context's invariant (exact
  count, one block per tag, lengths that agree with the stored values) and the blocks it already had.\<close>

theorem tlv_deserialize_invariant:
  assumes "ctx_wf c m ctx" "qm_tlv_deserialize c (Some ctx) msg mlen bt m = (r, ctx', m')"
  shows "\<exists>ctx1. ctx' = Some ctx1 \<and> ctx_wf c m' ctx1 \<and> (\<exists>new. blocks ctx1 = blocks ctx @ new)"
proof -
  have *: "\<exists>ctx1. ctx' = Some ctx1 \<and> ctx_wf c m' ctx1 \<and> (\<exists>new. blocks ctx1 = blocks ctx @ new)"
    if "deserialize_msg fmt c (Some ctx) msg mlen m = (r, ctx', m')" for fmt
    using that assms(1) deserialize_wf [of c m ctx fmt "the msg" mlen 0 r _ m']
    by (auto simp: deserialize_msg_def split: option.splits if_splits prod.splits)
  show ?thesis using assms * by (auto simp: deserialize_defs split: if_splits)
qed

theorem tlv_deserialize_invariant_witness:
  "\<exists>r ctx1 m'. qm_tlv_deserialize ex_cfg (Some empty_ctx) (Some (\<lambda>_. 7)) 5 0 (ex_mem 1) = (r, Some ctx1, m')
    \<and> ctx_wf ex_cfg m' ctx1"
proof -
  obtain r ctx' m' where e: "qm_tlv_deserialize ex_cfg (Some empty_ctx) (Some (\<lambda>_. 7)) 5 0 (ex_mem 1) = (r, ctx', m')"
    by (metis prod_cases3)
  from tlv_deserialize_invariant [OF empty_ctx_wf e] e show ?thesis by auto
qed

end
