(* ===== verification/Virtual_Channel.thy ===== *)
theory Virtual_Channel
  imports Ringbuf
begin

text \<open>
  The in-process sockets of \<^verbatim>\<open>components/virtual_channel/virtual_channel.c\<close>: a table of servers,
  each with a table of accepted connections (listen nodes), and a table of clients. A descriptor encodes
  the table entry: a client is its number, a server its number times 256, a listen node its server's
  descriptor plus its own number. Each end of a connection owns a ring buffer, which the other end
  writes; the ring buffer's contract is the interpretation \<open>rbq\<close> of \<open>byte_fifo\<close>.

  The tables are lists of fixed length; a pointer to a node is a \<open>node_ref\<close>. Descriptors are natural
  numbers: for negative ones the code indexes outside its tables. Semaphores are counters, \<open>None\<close>
  when not created. Where the code blocks, other tasks run: a call that waits takes the argument
  \<open>env\<close>, the change the others make to the state meanwhile. A wait that finds its counter still zero
  afterwards times out, or, without a timeout, does not return (\<open>None\<close>). The allocator and the
  results of the operating system's calls are the record \<open>os\<close> (\<open>sem_wait_ret\<close> is what a wait that
  times out returns). Sections under a lock are atomic here and
  the locks only kept as created or not.
\<close>

definition CONFIG_VC_SERVER_NUM :: nat where "CONFIG_VC_SERVER_NUM = 4"
definition CONFIG_VC_LISTEN_NUM :: nat where "CONFIG_VC_LISTEN_NUM = 8"
definition CONFIG_VC_CLIENT_NUM :: nat where "CONFIG_VC_CLIENT_NUM = 8"
definition VC_HOST_MAX_LEN :: nat where "VC_HOST_MAX_LEN = 16"

datatype vc_role = VC_ROLE_NONE | VC_ROLE_CLIENT | VC_ROLE_LISTEN | VC_ROLE_SERVER

record vc_node =
  role :: vc_role
  fd :: nat
  err_code :: int
  server_fd :: nat
  client_fd :: nat
  nbuf :: bool
  nlock :: bool
  signal :: "nat option"
  ringbuf :: qm_ringbuf

record vc_server =
  sfd :: nat
  host :: string
  port :: int
  rd_size :: u32
  wr_size :: u32
  accept_sem :: "nat option"
  slock :: bool
  nodes :: "vc_node list"

record vc_state =
  servers :: "vc_server list"
  clients :: "vc_node list"

record os =
  malloc_ok :: bool
  sem_new_ret :: int
  mutex_new_ret :: int
  sem_wait_ret :: int

text \<open>Zero-filled structures, as \<open>memset\<close> leaves them.\<close>

definition zero_ringbuf :: qm_ringbuf where
  "zero_ringbuf = \<lparr>rb_size = 0, readpoint = 0, writepoint = 0, buffer = None, full = 0\<rparr>"

definition zero_node :: vc_node where
  "zero_node = \<lparr>role = VC_ROLE_NONE, fd = 0, err_code = 0, server_fd = 0, client_fd = 0, nbuf = False, nlock = False,
     signal = None, ringbuf = zero_ringbuf\<rparr>"

definition zero_server :: vc_server where
  "zero_server = \<lparr>sfd = 0, host = replicate (VC_HOST_MAX_LEN + 1) (CHR 0x00), port = 0, rd_size = 0, wr_size = 0,
     accept_sem = None, slock = False, nodes = replicate CONFIG_VC_LISTEN_NUM zero_node\<rparr>"

definition vc_initial :: vc_state where
  "vc_initial = \<lparr>servers = replicate CONFIG_VC_SERVER_NUM zero_server, clients = replicate CONFIG_VC_CLIENT_NUM zero_node\<rparr>"

subsection \<open>Tables\<close>

datatype node_ref = Client nat | Listen nat nat

fun get_node :: "vc_state \<Rightarrow> node_ref \<Rightarrow> vc_node" where
  "get_node s (Client i) = clients s ! i"
| "get_node s (Listen i j) = nodes (servers s ! i) ! j"

definition upd_server :: "nat \<Rightarrow> (vc_server \<Rightarrow> vc_server) \<Rightarrow> vc_state \<Rightarrow> vc_state" where
  "upd_server i f s = s\<lparr>servers := (servers s)[i := f (servers s ! i)]\<rparr>"

fun upd_node :: "node_ref \<Rightarrow> (vc_node \<Rightarrow> vc_node) \<Rightarrow> vc_state \<Rightarrow> vc_state" where
  "upd_node (Client i) f s = s\<lparr>clients := (clients s)[i := f (clients s ! i)]\<rparr>"
| "upd_node (Listen i j) f s = upd_server i (\<lambda>v. v\<lparr>nodes := (nodes v)[j := f (nodes v ! j)]\<rparr>) s"

text \<open>The first index, from \<open>i\<close> on, whose entry satisfies a condition: the code's search loops.\<close>

fun first_index :: "('a \<Rightarrow> bool) \<Rightarrow> 'a list \<Rightarrow> nat option" where
  "first_index P [] = None"
| "first_index P (x # xs) = (if P x then Some 0 else map_option Suc (first_index P xs))"

subsection \<open>Descriptors\<close>

definition vc_server_fd_new :: "vc_state \<Rightarrow> nat \<times> vc_state" where
  "vc_server_fd_new s =
     (case first_index (\<lambda>v. sfd v = 0) (servers s) of
        Some i \<Rightarrow> ((i + 1) * 256, upd_server i (\<lambda>v. v\<lparr>sfd := (i + 1) * 256\<rparr>) s)
      | None \<Rightarrow> (0, s))"

definition vc_server_fd_del :: "nat \<Rightarrow> vc_state \<Rightarrow> int \<times> vc_state" where
  "vc_server_fd_del f s =
     (let k = f div 256
      in if k > CONFIG_VC_SERVER_NUM \<or> k = 0 then (- QM_EINVAL, s)
         else (QM_EOK, upd_server (k - 1) (\<lambda>v. v\<lparr>sfd := 0\<rparr>) s))"

definition vc_server_fd_is_valid :: "nat \<Rightarrow> bool" where
  "vc_server_fd_is_valid f \<longleftrightarrow> f mod 256 = 0 \<and> \<not> (f div 256 > CONFIG_VC_SERVER_NUM \<or> f div 256 = 0)"

definition vc_server_get :: "nat \<Rightarrow> vc_state \<Rightarrow> nat option" where
  "vc_server_get f s =
     (if \<not> vc_server_fd_is_valid f then None
      else if sfd (servers s ! (f div 256 - 1)) = 0 then None
      else Some (f div 256 - 1))"

definition vc_listen_fd_is_valid :: "nat \<Rightarrow> bool" where
  "vc_listen_fd_is_valid f \<longleftrightarrow>
     (let server = f div 256; listen = f mod 256
      in listen \<noteq> 0 \<and> \<not> (server > CONFIG_VC_SERVER_NUM \<or> server = 0) \<and> \<not> (listen > CONFIG_VC_LISTEN_NUM \<or> listen = 0))"

definition vc_listen_get :: "nat \<Rightarrow> vc_state \<Rightarrow> node_ref option" where
  "vc_listen_get f s =
     (if \<not> vc_listen_fd_is_valid f then None
      else let i = f div 256 - 1; j = f mod 256 - 1
           in if sfd (servers s ! i) = 0 then None
              else if fd (nodes (servers s ! i) ! j) = 0 then None
              else Some (Listen i j))"

definition vc_listen_fd_del :: "nat \<Rightarrow> vc_state \<Rightarrow> int \<times> vc_state" where
  "vc_listen_fd_del f s =
     (if \<not> vc_listen_fd_is_valid f then (- QM_EINVAL, s)
      else (QM_EOK, upd_node (Listen (f div 256 - 1) (f mod 256 - 1)) (\<lambda>n. n\<lparr>fd := 0\<rparr>) s))"

text \<open>The C string at the start of a character array.\<close>

definition c_str :: "string \<Rightarrow> string" where
  "c_str h = takeWhile (\<lambda>ch. ch \<noteq> CHR 0x00) h"

definition host_matches :: "string option \<Rightarrow> int \<Rightarrow> vc_server \<Rightarrow> bool" where
  "host_matches h p v \<longleftrightarrow> sfd v \<noteq> 0 \<and> port v = p \<and>
     (case h of
        Some name \<Rightarrow> c_str (host v) \<noteq> [] \<and> c_str (host v) = name
      | None \<Rightarrow> c_str (host v) = [])"

definition vc_server_fd_find :: "string option \<Rightarrow> int \<Rightarrow> vc_state \<Rightarrow> nat" where
  "vc_server_fd_find h p s =
     (case first_index (host_matches h p) (servers s) of Some i \<Rightarrow> (i + 1) * 256 | None \<Rightarrow> 0)"

definition vc_client_connect_set :: "nat \<Rightarrow> nat \<Rightarrow> vc_state \<Rightarrow> int \<times> vc_state" where
  "vc_client_connect_set server client s =
     (case vc_server_get server s of
        None \<Rightarrow> (- QM_EINVAL, s)
      | Some i \<Rightarrow>
          (case first_index (\<lambda>n. fd n = 0 \<and> client_fd n = 0) (nodes (servers s ! i)) of
             Some j \<Rightarrow> (QM_EOK, upd_node (Listen i j) (\<lambda>n. n\<lparr>server_fd := server, client_fd := client\<rparr>) s)
           | None \<Rightarrow> (- QM_EIO, s)))"

definition vc_server_fd_accept :: "nat \<Rightarrow> vc_state \<Rightarrow> nat \<times> vc_state" where
  "vc_server_fd_accept f s =
     (if \<not> vc_server_fd_is_valid f then (0, s)
      else (case vc_server_get f s of
              None \<Rightarrow> (0, s)
            | Some i \<Rightarrow>
                (case first_index (\<lambda>n. fd n = 0) (nodes (servers s ! i)) of
                   Some j \<Rightarrow> (f + (j + 1), upd_node (Listen i j) (\<lambda>n. n\<lparr>server_fd := f, fd := f + (j + 1)\<rparr>) s)
                 | None \<Rightarrow> (0, s))))"

definition vc_client_get :: "nat \<Rightarrow> vc_state \<Rightarrow> node_ref option" where
  "vc_client_get f s =
     (if f > CONFIG_VC_CLIENT_NUM \<or> f = 0 then None
      else if fd (clients s ! (f - 1)) = 0 then None
      else Some (Client (f - 1)))"

definition vc_client_fd_new :: "vc_state \<Rightarrow> nat \<times> vc_state" where
  "vc_client_fd_new s =
     (case first_index (\<lambda>n. fd n = 0) (clients s) of
        Some i \<Rightarrow> (i + 1, upd_node (Client i) (\<lambda>n. n\<lparr>fd := i + 1\<rparr>) s)
      | None \<Rightarrow> (0, s))"

definition vc_client_fd_del :: "nat \<Rightarrow> vc_state \<Rightarrow> int \<times> vc_state" where
  "vc_client_fd_del f s =
     (if f > CONFIG_VC_CLIENT_NUM \<or> f = 0 then (- QM_EINVAL, s)
      else (QM_EOK, upd_node (Client (f - 1)) (\<lambda>n. n\<lparr>fd := 0\<rparr>) s))"

subsection \<open>Creation\<close>

definition virtual_channel_server_creat ::
  "os \<Rightarrow> string option \<Rightarrow> int \<Rightarrow> u32 \<Rightarrow> u32 \<Rightarrow> vc_state \<Rightarrow> int \<times> vc_state" where
  "virtual_channel_server_creat os h p rd wr s =
     (if rd = 0 \<or> wr = 0 then (- QM_EINVAL, s)
      else if (case h of Some name \<Rightarrow> length name > VC_HOST_MAX_LEN | None \<Rightarrow> False) then (- QM_EINVAL, s)
      else (case vc_server_fd_new s of (f, s1) \<Rightarrow>
        if f = 0 then (- QM_EFULL, s1)
        else
          let i = f div 256 - 1;
              copy = (\<lambda>v. case h of Some name \<Rightarrow> v\<lparr>host := name @ drop (length name) (host v)\<rparr> | None \<Rightarrow> v);
              s2 = upd_server i (\<lambda>v. (copy v)\<lparr>port := p, rd_size := rd, wr_size := wr\<rparr>) s1;
              exit = (\<lambda>ret s. (ret, snd (vc_server_fd_del f (upd_server i (\<lambda>v. v\<lparr>accept_sem := None, slock := False\<rparr>) s))))
          in if sem_new_ret os \<noteq> QM_EOK then exit (sem_new_ret os) s2
             else
               let s3 = upd_server i (\<lambda>v. v\<lparr>accept_sem := Some 0\<rparr>) s2
               in if mutex_new_ret os \<noteq> QM_EOK then exit (mutex_new_ret os) s3
                  else (int f, upd_server i (\<lambda>v. v\<lparr>slock := True\<rparr>) s3)))"

text \<open>
  The part of \<open>virtual_channel_listen_creat\<close> and \<open>virtual_channel_client_creat\<close> that fills a node:
  its result code and the state, with the error exit's releases done.
\<close>

definition node_setup :: "os \<Rightarrow> node_ref \<Rightarrow> vc_role \<Rightarrow> u32 \<Rightarrow> vc_state \<Rightarrow> int \<times> vc_state" where
  "node_setup os r ro rd s =
     (let exit = upd_node r (\<lambda>n. n\<lparr>signal := None, nlock := False, nbuf := False\<rparr>)
      in if \<not> malloc_ok os then (- QM_ENOMEM, exit s)
         else
           let s1 = upd_node r (\<lambda>n. n\<lparr>nbuf := True,
                      ringbuf := the (snd (qm_ringbuf_init (Some (ringbuf n)) (Some (replicate (unat rd) 0)) rd))\<rparr>) s
           in if sem_new_ret os \<noteq> QM_EOK then (sem_new_ret os, exit s1)
              else
                let s2 = upd_node r (\<lambda>n. n\<lparr>signal := Some 0\<rparr>) s1
                in if mutex_new_ret os \<noteq> QM_EOK then (mutex_new_ret os, exit s2)
                   else (QM_EOK, upd_node r (\<lambda>n. n\<lparr>nlock := True, role := ro\<rparr>) s2))"

definition virtual_channel_listen_creat :: "os \<Rightarrow> nat \<Rightarrow> u32 \<Rightarrow> u32 \<Rightarrow> vc_state \<Rightarrow> int \<times> vc_state" where
  "virtual_channel_listen_creat os f rd wr s =
     (if rd = 0 \<or> wr = 0 then (- QM_EINVAL, s)
      else (case vc_server_fd_accept f s of (lf, s1) \<Rightarrow>
        if lf = 0 then (0, s1)
        else (case vc_listen_get lf s1 of
                None \<Rightarrow> (0, s1)
              | Some r \<Rightarrow>
                  (case node_setup os r VC_ROLE_LISTEN rd s1 of (ret, s2) \<Rightarrow>
                     if ret \<noteq> QM_EOK then (0, snd (vc_listen_fd_del lf s2)) else (int lf, s2)))))"

definition virtual_channel_client_creat :: "os \<Rightarrow> u32 \<Rightarrow> u32 \<Rightarrow> vc_state \<Rightarrow> int \<times> vc_state" where
  "virtual_channel_client_creat os rd wr s =
     (if rd = 0 \<or> wr = 0 then (- QM_EINVAL, s)
      else (case vc_client_fd_new s of (f, s1) \<Rightarrow>
        if f = 0 then (- QM_EFULL, s1)
        else (case node_setup os (Client (f - 1)) VC_ROLE_CLIENT rd s1 of (ret, s2) \<Rightarrow>
                if ret \<noteq> QM_EOK then (ret, snd (vc_client_fd_del f s2)) else (int f, s2))))"

subsection \<open>Semaphores\<close>

definition sem_take :: "(vc_state \<Rightarrow> nat option) \<Rightarrow> (nat option \<Rightarrow> vc_state \<Rightarrow> vc_state)
    \<Rightarrow> (vc_state \<Rightarrow> vc_state) \<Rightarrow> vc_state \<Rightarrow> bool \<times> vc_state" where
  "sem_take sel put env s =
     (case sel s of
        Some (Suc n) \<Rightarrow> (True, put (Some n) s)
      | _ \<Rightarrow> (let s' = env s in case sel s' of Some (Suc n) \<Rightarrow> (True, put (Some n) s') | _ \<Rightarrow> (False, s')))"

definition node_wait :: "node_ref \<Rightarrow> (vc_state \<Rightarrow> vc_state) \<Rightarrow> vc_state \<Rightarrow> bool \<times> vc_state" where
  "node_wait r env s = sem_take (\<lambda>s. signal (get_node s r)) (\<lambda>x. upd_node r (\<lambda>n. n\<lparr>signal := x\<rparr>)) env s"

definition accept_wait :: "nat \<Rightarrow> (vc_state \<Rightarrow> vc_state) \<Rightarrow> vc_state \<Rightarrow> bool \<times> vc_state" where
  "accept_wait i env s =
     sem_take (\<lambda>s. accept_sem (servers s ! i)) (\<lambda>x. upd_server i (\<lambda>v. v\<lparr>accept_sem := x\<rparr>)) env s"

definition node_signal :: "node_ref \<Rightarrow> vc_state \<Rightarrow> vc_state" where
  "node_signal r s = upd_node r (\<lambda>n. n\<lparr>signal := map_option Suc (signal n)\<rparr>) s"

subsection \<open>Connecting\<close>

definition virtual_channel_connect ::
  "os \<Rightarrow> (vc_state \<Rightarrow> vc_state) \<Rightarrow> nat \<Rightarrow> string option \<Rightarrow> int \<Rightarrow> vc_state \<Rightarrow> int \<times> vc_state" where
  "virtual_channel_connect os env f h p s =
     (if f > CONFIG_VC_CLIENT_NUM \<or> f = 0 then (- QM_EINVAL, s)
      else
        let server = vc_server_fd_find h p s
        in if server = 0 then (- QM_EIO, s)
           else (case vc_client_connect_set server f s of (ret, s1) \<Rightarrow>
             if ret \<noteq> QM_EOK then (ret, s1)
             else (case vc_server_get server s1 of
                     None \<Rightarrow> (- QM_EIO, s1)
                   | Some i \<Rightarrow>
                       (case vc_client_get f s1 of
                          None \<Rightarrow> (- QM_EIO, s1)
                        | Some r \<Rightarrow>
                            (case node_wait r env (upd_server i (\<lambda>v. v\<lparr>accept_sem := map_option Suc (accept_sem v)\<rparr>) s1) of
                               (ok, s2) \<Rightarrow> (if ok then QM_EOK else sem_wait_ret os, s2))))))"

definition virtual_channel_accept ::
  "os \<Rightarrow> (vc_state \<Rightarrow> vc_state) \<Rightarrow> nat \<Rightarrow> vc_state \<Rightarrow> (int \<times> vc_state) option" where
  "virtual_channel_accept os env f s =
     (case vc_server_get f s of
        None \<Rightarrow> Some (- QM_EINVAL, s)
      | Some i \<Rightarrow>
          (case accept_wait i env s of (ok, s1) \<Rightarrow>
             if \<not> ok then None
             else (case virtual_channel_listen_creat os f (rd_size (servers s1 ! i)) (wr_size (servers s1 ! i)) s1 of
               (af, s2) \<Rightarrow>
                 if af = 0 then Some (0, s2)
                 else (case vc_listen_get (nat af) s2 of
                         None \<Rightarrow> Some (0, s2)
                       | Some l \<Rightarrow>
                           (case vc_client_get (client_fd (get_node s2 l)) s2 of
                              None \<Rightarrow> Some (0, s2)
                            | Some r \<Rightarrow> Some (af, node_signal r (upd_node r (\<lambda>n. n\<lparr>client_fd := nat af\<rparr>) s2)))))))"

subsection \<open>Data\<close>

definition vc_role_get :: "nat \<Rightarrow> vc_role" where
  "vc_role_get f =
     (if f div 256 > 0 then (if f mod 256 > 0 then VC_ROLE_LISTEN else VC_ROLE_SERVER)
      else (if f mod 256 > 0 then VC_ROLE_CLIENT else VC_ROLE_NONE))"

definition vc_node_write_get :: "nat \<Rightarrow> vc_state \<Rightarrow> node_ref option" where
  "vc_node_write_get f s =
     (case vc_role_get f of
        VC_ROLE_CLIENT \<Rightarrow>
          (case vc_client_get f s of None \<Rightarrow> None | Some r \<Rightarrow> vc_listen_get (client_fd (get_node s r)) s)
      | VC_ROLE_LISTEN \<Rightarrow>
          (case vc_listen_get f s of None \<Rightarrow> None | Some r \<Rightarrow> vc_client_get (client_fd (get_node s r)) s)
      | _ \<Rightarrow> None)"

definition vc_node_read_get :: "nat \<Rightarrow> vc_state \<Rightarrow> node_ref option" where
  "vc_node_read_get f s =
     (case vc_role_get f of
        VC_ROLE_CLIENT \<Rightarrow> vc_client_get f s
      | VC_ROLE_LISTEN \<Rightarrow> vc_listen_get f s
      | _ \<Rightarrow> None)"

definition virtual_channel_write :: "nat \<Rightarrow> u8 list option \<Rightarrow> u32 \<Rightarrow> vc_state \<Rightarrow> int \<times> vc_state" where
  "virtual_channel_write f data len s =
     (if f = 0 \<or> data = None \<or> len = 0 then (- QM_EINVAL, s)
      else (case vc_node_write_get f s of
              None \<Rightarrow> (- QM_EIO, s)
            | Some r \<Rightarrow>
                (case qm_ringbuf_push (Some (ringbuf (get_node s r))) data (sint len) of
                   (n, rb) \<Rightarrow> (n, node_signal r (upd_node r (\<lambda>n. n\<lparr>ringbuf := the rb\<rparr>) s)))))"

text \<open>Reading returns the code's result, the bytes stored and the state; \<open>data\<close> says that a buffer is given.\<close>

definition virtual_channel_read ::
  "(vc_state \<Rightarrow> vc_state) \<Rightarrow> nat \<Rightarrow> bool \<Rightarrow> u32 \<Rightarrow> vc_state \<Rightarrow> int \<times> u8 list \<times> vc_state" where
  "virtual_channel_read env f data len s =
     (if f = 0 \<or> \<not> data \<or> len = 0 then (- QM_EINVAL, [], s)
      else (case vc_node_read_get f s of
              None \<Rightarrow> (- QM_EIO, [], s)
            | Some r \<Rightarrow>
                let n = get_node s r
                in if err_code n \<noteq> QM_EOK then (- QM_EIO, [], s)
                   else
                     let (read_len, bs, s1) =
                           (if qm_ringbuf_isempty (ringbuf n) then (0, [], s)
                            else (case qm_ringbuf_pop (ringbuf n) (sint len) of
                                    (k, bs, rb) \<Rightarrow> (k, bs, upd_node r (\<lambda>n. n\<lparr>ringbuf := rb\<rparr>) s)))
                     in if \<not> qm_ringbuf_isempty (ringbuf n) \<and> word_of_int read_len = len then (read_len, bs, s1)
                        else (case node_wait r env s1 of (ok, s2) \<Rightarrow>
                                if \<not> ok then (read_len, bs, s2)
                                else (case qm_ringbuf_pop (ringbuf (get_node s2 r)) (sint (len - word_of_int read_len)) of
                                        (k, bs2, rb) \<Rightarrow>
                                          (read_len + k, bs @ bs2, upd_node r (\<lambda>n. n\<lparr>ringbuf := rb\<rparr>) s2)))))"

subsection \<open>Destruction\<close>

definition vc_client_destroy :: "nat \<Rightarrow> vc_state \<Rightarrow> int \<times> vc_state" where
  "vc_client_destroy f s =
     (if f > CONFIG_VC_CLIENT_NUM \<or> f = 0 then (- QM_EINVAL, s)
      else (case vc_client_get f s of
              None \<Rightarrow> (- QM_EINVAL, s)
            | Some r \<Rightarrow>
                let n = get_node s r;
                    s1 = snd (vc_client_fd_del f s);
                    s2 = (if err_code n = QM_EOK
                          then (case vc_listen_get (client_fd n) s1 of
                                  None \<Rightarrow> s1
                                | Some l \<Rightarrow> upd_node l (\<lambda>n. n\<lparr>err_code := - QM_EIO\<rparr>) s1)
                          else s1)
                in (QM_EOK, upd_node r (\<lambda>_. zero_node) s2)))"

definition vc_listen_destroy :: "nat \<Rightarrow> vc_state \<Rightarrow> int \<times> vc_state" where
  "vc_listen_destroy f s =
     (case vc_listen_get f s of
        None \<Rightarrow> (- QM_EINVAL, s)
      | Some r \<Rightarrow>
          let n = get_node s r;
              s1 = snd (vc_listen_fd_del f s);
              s2 = (if err_code n = QM_EOK
                    then (case vc_client_get (client_fd n) s1 of
                            None \<Rightarrow> s1
                          | Some l \<Rightarrow> upd_node l (\<lambda>n. n\<lparr>err_code := - QM_EIO\<rparr>) s1)
                    else s1)
          in (QM_EOK, upd_node r (\<lambda>_. zero_node) s2))"

fun destroy_nodes :: "nat \<Rightarrow> nat list \<Rightarrow> vc_state \<Rightarrow> vc_state" where
  "destroy_nodes i [] s = s"
| "destroy_nodes i (j # js) s =
     (let f = fd (nodes (servers s ! i) ! j)
      in destroy_nodes i js (if f > 0 then snd (vc_listen_destroy f s) else s))"

definition vc_server_destroy :: "nat \<Rightarrow> vc_state \<Rightarrow> int \<times> vc_state" where
  "vc_server_destroy f s =
     (case vc_server_get f s of
        None \<Rightarrow> (- QM_EINVAL, s)
      | Some i \<Rightarrow>
          let s1 = snd (vc_server_fd_del f s);
              s2 = destroy_nodes i [0..<CONFIG_VC_LISTEN_NUM] s1
          in (QM_EOK, upd_server i (\<lambda>_. zero_server) s2))"

definition virtual_channel_destroy :: "nat \<Rightarrow> vc_state \<Rightarrow> int \<times> vc_state" where
  "virtual_channel_destroy f s =
     (case vc_role_get f of
        VC_ROLE_NONE \<Rightarrow> (- QM_EINVAL, s)
      | VC_ROLE_CLIENT \<Rightarrow> vc_client_destroy f s
      | VC_ROLE_LISTEN \<Rightarrow> vc_listen_destroy f s
      | VC_ROLE_SERVER \<Rightarrow> vc_server_destroy f s)"

section \<open>Invariant\<close>

fun ref_fd :: "node_ref \<Rightarrow> nat" where
  "ref_fd (Client i) = i + 1"
| "ref_fd (Listen i j) = (i + 1) * 256 + (j + 1)"

fun valid_ref :: "node_ref \<Rightarrow> bool" where
  "valid_ref (Client i) \<longleftrightarrow> i < CONFIG_VC_CLIENT_NUM"
| "valid_ref (Listen i j) \<longleftrightarrow> i < CONFIG_VC_SERVER_NUM \<and> j < CONFIG_VC_LISTEN_NUM"

lemmas vc_nums = CONFIG_VC_SERVER_NUM_def CONFIG_VC_LISTEN_NUM_def CONFIG_VC_CLIENT_NUM_def

text \<open>A node holds its own descriptor or none; one in use has a ring buffer in order and its semaphore.\<close>

definition node_ok :: "nat \<Rightarrow> vc_node \<Rightarrow> bool" where
  "node_ok f n \<longleftrightarrow> fd n \<in> {0, f} \<and> (fd n \<noteq> 0 \<longrightarrow> rb_inv (ringbuf n) \<and> signal n \<noteq> None)"

definition vc_shape :: "vc_state \<Rightarrow> bool" where
  "vc_shape s \<longleftrightarrow> length (servers s) = CONFIG_VC_SERVER_NUM \<and> length (clients s) = CONFIG_VC_CLIENT_NUM
     \<and> (\<forall>v \<in> set (servers s). length (nodes v) = CONFIG_VC_LISTEN_NUM)"

definition vc_wf :: "vc_state \<Rightarrow> bool" where
  "vc_wf s \<longleftrightarrow> vc_shape s
     \<and> (\<forall>i < CONFIG_VC_SERVER_NUM. sfd (servers s ! i) \<in> {0, (i + 1) * 256}
          \<and> (sfd (servers s ! i) \<noteq> 0 \<longrightarrow> rd_size (servers s ! i) \<noteq> 0 \<and> wr_size (servers s ! i) \<noteq> 0))
     \<and> (\<forall>r. valid_ref r \<longrightarrow> node_ok (ref_fd r) (get_node s r))"

lemma vc_shape_lengths:
  assumes "vc_shape s"
  shows "length (servers s) = CONFIG_VC_SERVER_NUM" "length (clients s) = CONFIG_VC_CLIENT_NUM"
    "i < CONFIG_VC_SERVER_NUM \<Longrightarrow> length (nodes (servers s ! i)) = CONFIG_VC_LISTEN_NUM"
  using assms by (auto simp: vc_shape_def)

lemma vc_wf_shape: "vc_wf s \<Longrightarrow> vc_shape s"
  by (simp add: vc_wf_def)

lemma get_upd_node:
  assumes "vc_shape s" "valid_ref r" "valid_ref r'"
  shows "get_node (upd_node r f s) r' = (if r = r' then f (get_node s r) else get_node s r')"
  using assms vc_shape_lengths [OF assms(1)]
  by (cases r; cases r') (auto simp: upd_server_def nth_list_update)

lemma upd_node_twice: "upd_node r f (upd_node r g s) = upd_node r (\<lambda>n. f (g n)) s" if "vc_shape s" "valid_ref r"
  using that vc_shape_lengths [OF that(1)] by (cases r) (auto simp: upd_server_def)

lemma vc_shape_upd_server [simp]:
  assumes "vc_shape s" "\<And>v. length (nodes (f v)) = length (nodes v)"
  shows "vc_shape (upd_server i f s)"
  using assms by (cases "i < length (servers s)")
    (auto simp: vc_shape_def upd_server_def list_update_beyond dest!: set_update_subset_insert [THEN subsetD])

lemma vc_shape_upd_node [simp]: "vc_shape s \<Longrightarrow> vc_shape (upd_node r f s)"
  by (cases r) (simp_all add: vc_shape_def [of "_\<lparr>clients := _\<rparr>"], simp add: vc_shape_def)

lemma nth_upd_server:
  "servers (upd_server k f s) ! i = (if i = k \<and> k < length (servers s) then f (servers s ! k) else servers s ! i)"
  by (cases "i = k"; cases "k < length (servers s)") (auto simp: upd_server_def list_update_beyond)

lemma clients_upd_server [simp]: "clients (upd_server k f s) = clients s"
  by (simp add: upd_server_def)

lemma servers_upd_node [simp]:
  "sfd (servers (upd_node r f s) ! i) = sfd (servers s ! i)" "rd_size (servers (upd_node r f s) ! i) = rd_size (servers s ! i)"
  "wr_size (servers (upd_node r f s) ! i) = wr_size (servers s ! i)"
  "accept_sem (servers (upd_node r f s) ! i) = accept_sem (servers s ! i)"
  "port (servers (upd_node r f s) ! i) = port (servers s ! i)" "host (servers (upd_node r f s) ! i) = host (servers s ! i)"
  by (cases r; simp add: nth_upd_server)+

lemma vc_wf_upd_node:
  assumes "vc_wf s" "valid_ref r" "node_ok (ref_fd r) (f (get_node s r))"
  shows "vc_wf (upd_node r f s)"
  using assms get_upd_node [OF vc_wf_shape [OF assms(1)] assms(2)] by (auto simp: vc_wf_def)

lemma vc_wf_upd_server:
  assumes "vc_wf s" "i < CONFIG_VC_SERVER_NUM" "\<And>v. nodes (f v) = nodes v" "sfd (f (servers s ! i)) \<in> {0, (i + 1) * 256}"
    "sfd (f (servers s ! i)) \<noteq> 0 \<longrightarrow> rd_size (f (servers s ! i)) \<noteq> 0 \<and> wr_size (f (servers s ! i)) \<noteq> 0"
  shows "vc_wf (upd_server i f s)"
proof -
  have "get_node (upd_server i f s) r = get_node s r" for r
    by (cases r) (auto simp: nth_upd_server assms(3))
  then show ?thesis using assms by (auto simp: vc_wf_def nth_upd_server)
qed

lemma vc_wf_node: "vc_wf s \<Longrightarrow> valid_ref r \<Longrightarrow> node_ok (ref_fd r) (get_node s r)"
  by (simp add: vc_wf_def)

subsection \<open>Lookups\<close>

lemma first_index_Some: "first_index P xs = Some i \<Longrightarrow> i < length xs \<and> P (xs ! i) \<and> (\<forall>k < i. \<not> P (xs ! k))"
proof (induction xs arbitrary: i)
  case (Cons x xs)
  show ?case
  proof (cases "P x")
    case False
    then obtain j where j: "first_index P xs = Some j" "i = Suc j" using Cons.prems by auto
    have "\<not> P ((x # xs) ! k)" if "k < i" for k using Cons.IH [OF j(1)] that j(2) False by (cases k) auto
    then show ?thesis using Cons.IH [OF j(1)] j(2) by auto
  qed (use Cons.prems in auto)
qed simp

lemma first_index_None: "first_index P xs = None \<longleftrightarrow> (\<forall>x \<in> set xs. \<not> P x)"
  by (induction xs) auto

lemma client_getD:
  assumes "vc_client_get f s = Some r"
  shows "r = Client (f - 1)" "valid_ref r" "ref_fd r = f" "fd (get_node s r) \<noteq> 0"
  using assms by (auto simp: vc_client_get_def split: if_splits)

lemma listen_getD:
  assumes "vc_listen_get f s = Some r"
  shows "r = Listen (f div 256 - 1) (f mod 256 - 1)" "valid_ref r" "ref_fd r = f" "fd (get_node s r) \<noteq> 0"
    "sfd (servers s ! (f div 256 - 1)) \<noteq> 0" "vc_listen_fd_is_valid f"
proof -
  show r: "r = Listen (f div 256 - 1) (f mod 256 - 1)" and v: "vc_listen_fd_is_valid f"
    and "fd (get_node s r) \<noteq> 0" "sfd (servers s ! (f div 256 - 1)) \<noteq> 0"
    using assms by (auto simp: vc_listen_get_def Let_def split: if_splits)
  show "valid_ref r" using v by (auto simp: r vc_listen_fd_is_valid_def Let_def vc_nums)
  have "(f div 256) * 256 + f mod 256 = f" by simp
  then show "ref_fd r = f" using v by (auto simp: r vc_listen_fd_is_valid_def Let_def)
qed

lemma server_getD:
  assumes "vc_server_get f s = Some i"
  shows "i = f div 256 - 1" "i < CONFIG_VC_SERVER_NUM" "sfd (servers s ! i) \<noteq> 0" "f = (i + 1) * 256"
  using assms by (auto simp: vc_server_get_def vc_server_fd_is_valid_def split: if_splits)

lemma read_getD:
  assumes "vc_node_read_get f s = Some r"
  shows "valid_ref r" "fd (get_node s r) \<noteq> 0" "ref_fd r = f"
  using assms client_getD listen_getD by (auto simp: vc_node_read_get_def split: vc_role.splits)

lemma write_getD:
  assumes "vc_node_write_get f s = Some r"
  shows "valid_ref r" "fd (get_node s r) \<noteq> 0"
  using assms client_getD listen_getD by (auto simp: vc_node_write_get_def split: vc_role.splits option.splits)

lemma client_get_ref:
  "valid_ref (Client i) \<Longrightarrow> fd (get_node s (Client i)) \<noteq> 0 \<Longrightarrow> vc_client_get (ref_fd (Client i)) s = Some (Client i)"
  by (simp add: vc_client_get_def)

lemma listen_get_ref:
  assumes "valid_ref (Listen i j)" "sfd (servers s ! i) \<noteq> 0" "fd (get_node s (Listen i j)) \<noteq> 0"
  shows "vc_listen_get (ref_fd (Listen i j)) s = Some (Listen i j)"
proof -
  have "((i + 1) * 256 + (j + 1)) div 256 = i + 1" "((i + 1) * 256 + (j + 1)) mod 256 = j + 1"
    unfolding mod_mult_self3 using assms(1) by (auto simp: vc_nums)
  then show ?thesis using assms by (auto simp: vc_listen_get_def vc_listen_fd_is_valid_def Let_def vc_nums)
qed

declare get_node.simps [simp del] upd_node.simps [simp del]

subsection \<open>The operations keep the invariant\<close>

lemma push_inv:
  assumes "rb_inv rb" "qm_ringbuf_push (Some rb) ds len = (n, rb')"
  shows "\<exists>rb1. rb' = Some rb1 \<and> rb_inv rb1"
  using assms push_loop_spec [OF assms(1)]
  by (auto simp: qm_ringbuf_push_def split: option.splits if_splits prod.splits)

lemma pop_inv: "rb_inv rb \<Longrightarrow> qm_ringbuf_pop rb len = (n, bs, rb') \<Longrightarrow> rb_inv rb'"
  using pop_loop_spec [of rb] by (auto simp: qm_ringbuf_pop_def split: prod.splits)

definition os_ok :: "os \<Rightarrow> bool" where
  "os_ok os \<longleftrightarrow> malloc_ok os \<and> sem_new_ret os = QM_EOK \<and> mutex_new_ret os = QM_EOK"

lemma node_setup_spec:
  assumes "vc_shape s" "valid_ref r" "rd \<noteq> 0" "node_setup os r ro rd s = (ret, s')"
  shows "\<exists>g. s' = upd_node r g s
    \<and> (\<forall>n. fd (g n) = fd n \<and> client_fd (g n) = client_fd n \<and> err_code (g n) = err_code n)
    \<and> (ret = QM_EOK \<longrightarrow> (\<forall>n. rb_inv (ringbuf (g n)) \<and> rb_list (ringbuf (g n)) = []
         \<and> rb_cap (ringbuf (g n)) = unat rd - 1 \<and> signal (g n) = Some 0))
    \<and> (malloc_ok os \<and> sem_new_ret os = QM_EOK \<and> mutex_new_ret os = QM_EOK \<longrightarrow> ret = QM_EOK)"
proof -
  define init where "init = (\<lambda>n :: vc_node. the (snd (qm_ringbuf_init (Some (ringbuf n)) (Some (replicate (unat rd) 0)) rd)))"
  have rb: "rb_inv (init n) \<and> rb_list (init n) = [] \<and> rb_cap (init n) = unat rd - 1" for n
    unfolding init_def using assms(3) by (rule init_spec [of rd "replicate (unat rd) 0" "ringbuf n"]) simp_all
  define x where "x = (\<lambda>n :: vc_node. n\<lparr>signal := None, nlock := False, nbuf := False\<rparr>)"
  define y where "y = (\<lambda>n :: vc_node. n\<lparr>nbuf := True, ringbuf := init n\<rparr>)"
  have xy: "fd (x n) = fd n" "client_fd (x n) = client_fd n" "err_code (x n) = err_code n"
    "fd (y n) = fd n" "client_fd (y n) = client_fd n" "err_code (y n) = err_code n" "ringbuf (y n) = init n" for n
    by (simp_all add: x_def y_def)
  have st: "node_setup os r ro rd s =
      (if \<not> malloc_ok os then (- QM_ENOMEM, upd_node r x s)
       else if sem_new_ret os \<noteq> QM_EOK then (sem_new_ret os, upd_node r (\<lambda>n. x (y n)) s)
       else if mutex_new_ret os \<noteq> QM_EOK then (mutex_new_ret os, upd_node r (\<lambda>n. x ((y n)\<lparr>signal := Some 0\<rparr>)) s)
       else (QM_EOK, upd_node r (\<lambda>n. (y n)\<lparr>signal := Some 0, nlock := True, role := ro\<rparr>) s))"
    using assms(1,2) by (simp add: node_setup_def Let_def upd_node_twice x_def y_def init_def)
  consider "\<not> malloc_ok os" | "malloc_ok os" "sem_new_ret os \<noteq> QM_EOK"
    | "malloc_ok os" "sem_new_ret os = QM_EOK" "mutex_new_ret os \<noteq> QM_EOK"
    | "malloc_ok os" "sem_new_ret os = QM_EOK" "mutex_new_ret os = QM_EOK" by blast
  then show ?thesis
  proof cases
    case 1
    then show ?thesis using assms(4) st xy by (intro exI [of _ x]) (auto simp: errno)
  next
    case 2
    then show ?thesis using assms(4) st xy by (intro exI [of _ "\<lambda>n. x (y n)"]) auto
  next
    case 3
    then show ?thesis using assms(4) st xy by (intro exI [of _ "\<lambda>n. x ((y n)\<lparr>signal := Some 0\<rparr>)"]) auto
  next
    case 4
    then show ?thesis
      using assms(4) st xy rb by (intro exI [of _ "\<lambda>n. (y n)\<lparr>signal := Some 0, nlock := True, role := ro\<rparr>"]) auto
  qed
qed

lemma fd_accept_spec:
  assumes "vc_wf s" "vc_server_fd_accept f s = (lf, s1)" "lf \<noteq> 0"
  shows "\<exists>i j. vc_server_get f s = Some i \<and> valid_ref (Listen i j) \<and> lf = ref_fd (Listen i j)
    \<and> first_index (\<lambda>n. fd n = 0) (nodes (servers s ! i)) = Some j
    \<and> s1 = upd_node (Listen i j) (\<lambda>n. n\<lparr>server_fd := f, fd := lf\<rparr>) s"
proof -
  obtain i j where ij: "vc_server_get f s = Some i" "first_index (\<lambda>n. fd n = 0) (nodes (servers s ! i)) = Some j"
    "lf = f + (j + 1)" "s1 = upd_node (Listen i j) (\<lambda>n. n\<lparr>server_fd := f, fd := f + (j + 1)\<rparr>) s"
    using assms(2,3) by (auto simp: vc_server_fd_accept_def split: if_splits option.splits)
  have i: "i < CONFIG_VC_SERVER_NUM" "f = (i + 1) * 256" using server_getD [OF ij(1)] by auto
  have "j < CONFIG_VC_LISTEN_NUM"
    using first_index_Some [OF ij(2)] vc_shape_lengths(3) [OF vc_wf_shape [OF assms(1)] i(1)] by simp
  then show ?thesis using ij i by auto
qed

lemma listen_creat_spec:
  assumes wf: "vc_wf s" and c: "virtual_channel_listen_creat os f rd wr s = (ret, s')"
  shows "vc_wf s' \<and> (ret = 0 \<or> ret < 0 \<or> (\<exists>i j g. vc_server_get f s = Some i \<and> valid_ref (Listen i j)
      \<and> first_index (\<lambda>n. fd n = 0) (nodes (servers s ! i)) = Some j
      \<and> ret = int (ref_fd (Listen i j)) \<and> s' = upd_node (Listen i j) g s
      \<and> (\<forall>n. fd (g n) = ref_fd (Listen i j) \<and> client_fd (g n) = client_fd n \<and> err_code (g n) = err_code n
           \<and> rb_inv (ringbuf (g n)) \<and> rb_list (ringbuf (g n)) = [] \<and> signal (g n) = Some 0)))
    \<and> (os_ok os \<and> rd \<noteq> 0 \<and> wr \<noteq> 0 \<and> fst (vc_server_fd_accept f s) \<noteq> 0 \<longrightarrow> 0 < ret)"
proof (cases "rd = 0 \<or> wr = 0 \<or> fst (vc_server_fd_accept f s) = 0")
  case True
  then show ?thesis
    using c wf by (auto simp: virtual_channel_listen_creat_def vc_server_fd_accept_def errno split: prod.splits if_splits option.splits)
next
  case False
  then obtain lf s1 where a: "vc_server_fd_accept f s = (lf, s1)" "lf \<noteq> 0" by (cases "vc_server_fd_accept f s") auto
  obtain i j where ij: "vc_server_get f s = Some i" "valid_ref (Listen i j)" "lf = ref_fd (Listen i j)"
    "first_index (\<lambda>n. fd n = 0) (nodes (servers s ! i)) = Some j"
    "s1 = upd_node (Listen i j) (\<lambda>n. n\<lparr>server_fd := f, fd := lf\<rparr>) s"
    using fd_accept_spec [OF wf a] by blast
  let ?r = "Listen i j"
  note sh = vc_wf_shape [OF wf]
  have sh1: "vc_shape s1" using sh ij(5) by simp
  have "fd (get_node s1 ?r) \<noteq> 0" using get_upd_node [OF sh ij(2,2)] ij(5) a(2) by simp
  moreover have "sfd (servers s1 ! i) \<noteq> 0" using server_getD(3) [OF ij(1)] ij(5) by (simp)
  ultimately have get: "vc_listen_get lf s1 = Some ?r" using listen_get_ref [OF ij(2)] ij(3) by blast
  obtain ret2 s2 where st: "node_setup os ?r VC_ROLE_LISTEN rd s1 = (ret2, s2)" by (cases "node_setup os ?r VC_ROLE_LISTEN rd s1")
  obtain g where g: "s2 = upd_node ?r g s1" "\<forall>n. fd (g n) = fd n \<and> client_fd (g n) = client_fd n \<and> err_code (g n) = err_code n"
    "ret2 = QM_EOK \<longrightarrow> (\<forall>n. rb_inv (ringbuf (g n)) \<and> rb_list (ringbuf (g n)) = []
         \<and> rb_cap (ringbuf (g n)) = unat rd - 1 \<and> signal (g n) = Some 0)" "os_ok os \<longrightarrow> ret2 = QM_EOK"
    using node_setup_spec [OF sh1 ij(2) _ st] False unfolding os_ok_def by blast
  define h where "h = (\<lambda>n. g (n\<lparr>server_fd := f, fd := lf\<rparr>))"
  have s2: "s2 = upd_node ?r h s" using upd_node_twice [OF sh ij(2)] by (simp add: g(1) ij(5) h_def)
  show ?thesis
  proof (cases "ret2 = QM_EOK")
    case True
    have "(ret, s') = (int lf, s2)" using c a get st True False by (simp add: virtual_channel_listen_creat_def)
    moreover have "vc_wf s2" unfolding s2 using g(2,3) True ij(3) by (intro vc_wf_upd_node [OF wf ij(2)]) (simp add: node_ok_def h_def)
    moreover have "0 < lf" using a(2) by simp
    ultimately show ?thesis
      using s2 g(2,3) True ij(1-4) by (intro conjI disjI2 exI [of _ i] exI [of _ j] exI [of _ h]) (auto simp: h_def)
  next
    case False': False
    have valid: "vc_listen_fd_is_valid lf" using listen_getD(6) [OF get] .
    have "(ret, s') = (0, snd (vc_listen_fd_del lf s2))"
      using c a get st False False' by (simp add: virtual_channel_listen_creat_def)
    moreover have "snd (vc_listen_fd_del lf s2) = upd_node ?r (\<lambda>n. (h n)\<lparr>fd := 0\<rparr>) s"
      using valid listen_getD(1) [OF get] upd_node_twice [OF sh ij(2)] by (simp add: vc_listen_fd_del_def s2)
    moreover have "vc_wf (upd_node ?r (\<lambda>n. (h n)\<lparr>fd := 0\<rparr>) s)"
      by (rule vc_wf_upd_node [OF wf ij(2)]) (simp add: node_ok_def)
    ultimately show ?thesis using g(4) False' by simp
  qed
qed

lemma upd_server_twice: "i < length (servers s) \<Longrightarrow> upd_server i f (upd_server i g s) = upd_server i (\<lambda>v. f (g v)) s"
  by (simp add: upd_server_def)

lemma server_creat_wf:
  assumes wf: "vc_wf s" and c: "virtual_channel_server_creat os h p rd wr s = (ret, s')"
  shows "vc_wf s'"
proof (cases "first_index (\<lambda>v. sfd v = 0) (servers s)")
  case None
  then show ?thesis
    using c wf by (auto simp: virtual_channel_server_creat_def vc_server_fd_new_def split: if_splits)
next
  case (Some i)
  have i: "i < CONFIG_VC_SERVER_NUM" "i < length (servers s)"
    using first_index_Some [OF Some] vc_shape_lengths(1) [OF vc_wf_shape [OF wf]] by auto
  have new: "vc_server_fd_new s = ((i + 1) * 256, upd_server i (\<lambda>v. v\<lparr>sfd := (i + 1) * 256\<rparr>) s)"
    by (simp add: vc_server_fd_new_def Some)
  have d: "((i + 1) * 256) div 256 = i + 1" by simp
  have wf1: "vc_wf (upd_server i f s)" if "\<And>v. nodes (f v) = nodes v" "sfd (f (servers s ! i)) = 0
      \<or> sfd (f (servers s ! i)) = (i + 1) * 256 \<and> rd_size (f (servers s ! i)) = rd \<and> wr_size (f (servers s ! i)) = wr"
    "rd \<noteq> 0" "wr \<noteq> 0" for f
    using that by (intro vc_wf_upd_server [OF wf i(1)]) auto
  show ?thesis
    using c i wf
    by (auto simp: virtual_channel_server_creat_def new d Let_def upd_server_twice vc_server_fd_del_def vc_nums
        split: if_splits option.splits intro!: wf1)
qed

lemma client_creat_spec:
  assumes wf: "vc_wf s" and c: "virtual_channel_client_creat os rd wr s = (ret, s')"
  shows "vc_wf s'"
proof (cases "rd = 0 \<or> wr = 0 \<or> first_index (\<lambda>n. fd n = 0) (clients s) = None")
  case True
  then show ?thesis
    using c wf by (auto simp: virtual_channel_client_creat_def vc_client_fd_new_def split: if_splits)
next
  case False
  then obtain i where i: "first_index (\<lambda>n. fd n = 0) (clients s) = Some i" and rd: "rd \<noteq> 0" by auto
  let ?r = "Client i"
  note sh = vc_wf_shape [OF wf]
  have v: "valid_ref ?r" using first_index_Some [OF i] vc_shape_lengths(2) [OF sh] by simp
  define s1 where "s1 = upd_node ?r (\<lambda>n. n\<lparr>fd := i + 1\<rparr>) s"
  have new: "vc_client_fd_new s = (i + 1, s1)" by (simp add: vc_client_fd_new_def i s1_def)
  obtain ret2 s2 where st: "node_setup os ?r VC_ROLE_CLIENT rd s1 = (ret2, s2)" by (cases "node_setup os ?r VC_ROLE_CLIENT rd s1")
  obtain g where g: "s2 = upd_node ?r g s1" "\<forall>n. fd (g n) = fd n"
    "ret2 = QM_EOK \<longrightarrow> (\<forall>n. rb_inv (ringbuf (g n)) \<and> signal (g n) = Some 0)"
    using node_setup_spec [OF _ v rd st] sh s1_def by auto
  have s2: "s2 = upd_node ?r (\<lambda>n. g (n\<lparr>fd := i + 1\<rparr>)) s" using upd_node_twice [OF sh v] by (simp add: g(1) s1_def)
  have "s' = (if ret2 \<noteq> QM_EOK then upd_node ?r (\<lambda>n. (g (n\<lparr>fd := i + 1\<rparr>))\<lparr>fd := 0\<rparr>) s else s2)"
    using c False v by (auto simp: virtual_channel_client_creat_def new st vc_client_fd_del_def s2 upd_node_twice [OF sh v])
  moreover have "vc_wf (upd_node ?r (\<lambda>n. (g (n\<lparr>fd := i + 1\<rparr>))\<lparr>fd := 0\<rparr>) s)"
    by (rule vc_wf_upd_node [OF wf v]) (simp add: node_ok_def)
  moreover have "vc_wf s2" if "ret2 = QM_EOK"
    unfolding s2 using g that by (intro vc_wf_upd_node [OF wf v]) (simp add: node_ok_def)
  ultimately show ?thesis by (simp split: if_splits)
qed

text \<open>What is assumed of the other tasks: they keep the invariant.\<close>

definition env_ok :: "(vc_state \<Rightarrow> vc_state) \<Rightarrow> bool" where
  "env_ok env \<longleftrightarrow> (\<forall>s. vc_wf s \<longrightarrow> vc_wf (env s))"

lemma node_wait_wf:
  assumes "vc_wf s" "env_ok env" "valid_ref r" "node_wait r env s = (ok, s')"
  shows "vc_wf s'"
proof -
  have "vc_wf (upd_node r (\<lambda>n. n\<lparr>signal := Some k\<rparr>) t)" if "vc_wf t" for t k
    using vc_wf_node [OF that assms(3)] by (intro vc_wf_upd_node [OF that assms(3)]) (auto simp: node_ok_def)
  with assms show ?thesis
    by (auto simp: node_wait_def sem_take_def env_ok_def Let_def split: option.splits nat.splits)
qed

lemma accept_wait_wf:
  assumes "vc_wf s" "env_ok env" "i < CONFIG_VC_SERVER_NUM" "accept_wait i env s = (ok, s')"
  shows "vc_wf s'"
proof -
  have "vc_wf (upd_server i (\<lambda>v. v\<lparr>accept_sem := k\<rparr>) t)" if "vc_wf t" for t k
    using that assms(3) by (intro vc_wf_upd_server [OF that assms(3)]) (auto simp: vc_wf_def)
  with assms show ?thesis
    by (auto simp: accept_wait_def sem_take_def env_ok_def Let_def split: option.splits nat.splits)
qed

lemma connect_set_wf:
  assumes wf: "vc_wf s" and c: "vc_client_connect_set f g s = (ret, s')"
  shows "vc_wf s'"
proof -
  have "vc_wf (upd_node (Listen i j) (\<lambda>n. n\<lparr>server_fd := f, client_fd := g\<rparr>) s)"
    if "vc_server_get f s = Some i" "first_index (\<lambda>n. fd n = 0 \<and> client_fd n = 0) (nodes (servers s ! i)) = Some j" for i j
  proof -
    have v: "valid_ref (Listen i j)"
      using first_index_Some [OF that(2)] server_getD(2) [OF that(1)] vc_shape_lengths(3) [OF vc_wf_shape [OF wf]] by simp
    then show ?thesis using vc_wf_node [OF wf v] by (intro vc_wf_upd_node [OF wf v]) (auto simp: node_ok_def)
  qed
  with c wf show ?thesis by (auto simp: vc_client_connect_set_def split: option.splits)
qed

lemma connect_wf:
  assumes wf: "vc_wf s" and e: "env_ok env" and c: "virtual_channel_connect os env f h p s = (ret, s')"
  shows "vc_wf s'"
proof -
  let ?v = "vc_server_fd_find h p s"
  obtain r1 s1 where cs: "vc_client_connect_set ?v f s = (r1, s1)" by (cases "vc_client_connect_set ?v f s")
  have wf1: "vc_wf s1" using connect_set_wf [OF wf cs] .
  have "vc_wf t" if "vc_server_get ?v s1 = Some i" "vc_client_get f s1 = Some r"
    "node_wait r env (upd_server i (\<lambda>v. v\<lparr>accept_sem := map_option Suc (accept_sem v)\<rparr>) s1) = (ok, t)" for i r ok t
  proof -
    have "vc_wf (upd_server i (\<lambda>v. v\<lparr>accept_sem := map_option Suc (accept_sem v)\<rparr>) s1)"
      using wf1 server_getD(2) [OF that(1)] by (intro vc_wf_upd_server) (auto simp: vc_wf_def)
    then show ?thesis using node_wait_wf [OF _ e client_getD(2) [OF that(2)] that(3)] by blast
  qed
  with c wf wf1 cs show ?thesis
    by (auto simp: virtual_channel_connect_def Let_def split: if_splits option.splits prod.splits)
qed

lemma node_signal_wf: "vc_wf s \<Longrightarrow> valid_ref r \<Longrightarrow> vc_wf (node_signal r s)"
  unfolding node_signal_def using vc_wf_node [of s r] by (intro vc_wf_upd_node) (auto simp: node_ok_def)

lemma accept_wf:
  assumes wf: "vc_wf s" and e: "env_ok env" and c: "virtual_channel_accept os env f s = Some (ret, s')"
  shows "vc_wf s'"
proof (cases "vc_server_get f s")
  case None
  then show ?thesis using c wf by (simp add: virtual_channel_accept_def)
next
  case (Some i)
  obtain ok s1 where w: "accept_wait i env s = (ok, s1)" by (cases "accept_wait i env s")
  have wf1: "vc_wf s1" using accept_wait_wf [OF wf e server_getD(2) [OF Some] w] .
  obtain af s2 where l: "virtual_channel_listen_creat os f (rd_size (servers s1 ! i)) (wr_size (servers s1 ! i)) s1 = (af, s2)"
    by fastforce
  have wf2: "vc_wf s2" using listen_creat_spec [OF wf1 l] by simp
  have "vc_wf (node_signal r (upd_node r (\<lambda>n. n\<lparr>client_fd := k\<rparr>) s2))" if "vc_client_get g s2 = Some r" for r g k
  proof -
    have "valid_ref r" using client_getD(2) [OF that] .
    moreover from this have "vc_wf (upd_node r (\<lambda>n. n\<lparr>client_fd := k\<rparr>) s2)"
      using vc_wf_node [OF wf2] by (intro vc_wf_upd_node [OF wf2]) (auto simp: node_ok_def)
    ultimately show ?thesis by (intro node_signal_wf)
  qed
  with c Some w l wf2 show ?thesis
    by (auto simp: virtual_channel_accept_def split: if_splits option.splits)
qed

lemma upd_ringbuf_wf:
  assumes "vc_wf s" "valid_ref r" "rb_inv (ringbuf (get_node s r)) \<Longrightarrow> rb_inv rb"
  shows "vc_wf (upd_node r (\<lambda>n. n\<lparr>ringbuf := rb\<rparr>) s)"
  using assms vc_wf_node [OF assms(1,2)] by (intro vc_wf_upd_node) (auto simp: node_ok_def)

lemma write_wf:
  assumes wf: "vc_wf s" and c: "virtual_channel_write f data len s = (ret, s')"
  shows "vc_wf s'"
proof -
  have "vc_wf (node_signal r (upd_node r (\<lambda>n. n\<lparr>ringbuf := the rb\<rparr>) s))"
    if "vc_node_write_get f s = Some r" "qm_ringbuf_push (Some (ringbuf (get_node s r))) data l = (n, rb)" for r n rb l
    using write_getD(1) [OF that(1)] push_inv [OF _ that(2)]
    by (intro node_signal_wf upd_ringbuf_wf [OF wf]) auto
  with c wf show ?thesis
    by (auto simp: virtual_channel_write_def split: if_splits option.splits prod.splits)
qed

lemma pop_wf:
  assumes "vc_wf s" "valid_ref r" "qm_ringbuf_pop (ringbuf (get_node s r)) l = (k, bs, rb)"
  shows "vc_wf (upd_node r (\<lambda>n. n\<lparr>ringbuf := rb\<rparr>) s)"
  by (rule upd_ringbuf_wf [OF assms(1,2) pop_inv [OF _ assms(3)]])

lemma read_wf:
  assumes wf: "vc_wf s" and e: "env_ok env" and c: "virtual_channel_read env f data len s = (ret, bs, s')"
  shows "vc_wf s'"
proof (cases "f = 0 \<or> \<not> data \<or> len = 0 \<or> vc_node_read_get f s = None")
  case True
  then show ?thesis using c wf by (auto simp: virtual_channel_read_def split: if_splits)
next
  case False
  then obtain r where r: "vc_node_read_get f s = Some r" by auto
  note v = read_getD(1) [OF r]
  define first where "first = (if qm_ringbuf_isempty (ringbuf (get_node s r)) then (0, [], s)
    else (case qm_ringbuf_pop (ringbuf (get_node s r)) (sint len) of
            (k, bs, rb) \<Rightarrow> (k, bs, upd_node r (\<lambda>n. n\<lparr>ringbuf := rb\<rparr>) s)))"
  obtain k bs1 s1 where f1: "first = (k, bs1, s1)" by (cases first)
  have wf1: "vc_wf s1" using f1 wf pop_wf [OF wf v] by (auto simp: first_def split: if_splits prod.splits)
  obtain ok s2 where w: "node_wait r env s1 = (ok, s2)" by (cases "node_wait r env s1")
  have wf2: "vc_wf s2" using node_wait_wf [OF wf1 e v w] .
  obtain k2 bs2 rb2 where p2: "qm_ringbuf_pop (ringbuf (get_node s2 r)) (sint (len - word_of_int k)) = (k2, bs2, rb2)"
    by (cases "qm_ringbuf_pop (ringbuf (get_node s2 r)) (sint (len - word_of_int k))")
  have "vc_wf (upd_node r (\<lambda>n. n\<lparr>ringbuf := rb2\<rparr>) s2)" by (rule pop_wf [OF wf2 v p2])
  moreover have "virtual_channel_read env f data len s =
      (if err_code (get_node s r) \<noteq> QM_EOK then (- QM_EIO, [], s)
       else if \<not> qm_ringbuf_isempty (ringbuf (get_node s r)) \<and> word_of_int k = len then (k, bs1, s1)
       else if \<not> ok then (k, bs1, s2) else (k + k2, bs1 @ bs2, upd_node r (\<lambda>n. n\<lparr>ringbuf := rb2\<rparr>) s2))"
    unfolding virtual_channel_read_def Let_def r option.case first_def [symmetric] f1 prod.case w p2
    using False by simp
  ultimately show ?thesis using c wf wf1 wf2 by (simp split: if_splits)
qed

lemma upd_err_wf: "vc_wf s \<Longrightarrow> valid_ref r \<Longrightarrow> vc_wf (upd_node r (\<lambda>n. n\<lparr>err_code := e\<rparr>) s)"
  using vc_wf_node [of s r] by (intro vc_wf_upd_node) (auto simp: node_ok_def)

lemma fd_clear_wf: "vc_wf s \<Longrightarrow> valid_ref r \<Longrightarrow> vc_wf (upd_node r (\<lambda>n. n\<lparr>fd := 0\<rparr>) s)"
  by (intro vc_wf_upd_node) (auto simp: node_ok_def)

lemma zero_node_wf: "vc_wf s \<Longrightarrow> valid_ref r \<Longrightarrow> vc_wf (upd_node r (\<lambda>_. zero_node) s)"
  by (intro vc_wf_upd_node) (auto simp: node_ok_def zero_node_def)

lemma client_destroy_wf:
  assumes wf: "vc_wf s" and c: "vc_client_destroy f s = (ret, s')"
  shows "vc_wf s'"
proof (cases "f > CONFIG_VC_CLIENT_NUM \<or> f = 0 \<or> vc_client_get f s = None")
  case True
  then show ?thesis using c wf by (auto simp: vc_client_destroy_def split: if_splits)
next
  case False
  then obtain r where r: "vc_client_get f s = Some r" by auto
  note v = client_getD(2) [OF r]
  define s1 where "s1 = upd_node r (\<lambda>n. n\<lparr>fd := 0\<rparr>) s"
  have wf1: "vc_wf s1" unfolding s1_def by (rule fd_clear_wf [OF wf v])
  have "snd (vc_client_fd_del f s) = s1" using False client_getD(1) [OF r] by (auto simp: vc_client_fd_del_def s1_def)
  then obtain s2 where "s' = upd_node r (\<lambda>_. zero_node) s2" "s2 = s1 \<or> (\<exists>l g. vc_listen_get g s1 = Some l
      \<and> s2 = upd_node l (\<lambda>n. n\<lparr>err_code := - QM_EIO\<rparr>) s1)"
    using c False r by (auto simp: vc_client_destroy_def Let_def split: if_splits option.splits)
  moreover have "vc_wf (upd_node l (\<lambda>n. n\<lparr>err_code := - QM_EIO\<rparr>) s1)" if "vc_listen_get g s1 = Some l" for l g
    by (rule upd_err_wf [OF wf1 listen_getD(2) [OF that]])
  ultimately show ?thesis using wf1 zero_node_wf [OF _ v] by auto
qed

lemma listen_destroy_wf:
  assumes wf: "vc_wf s" and c: "vc_listen_destroy f s = (ret, s')"
  shows "vc_wf s'"
proof (cases "vc_listen_get f s")
  case None
  then show ?thesis using c wf by (simp add: vc_listen_destroy_def)
next
  case (Some r)
  note v = listen_getD(2) [OF Some]
  define s1 where "s1 = upd_node r (\<lambda>n. n\<lparr>fd := 0\<rparr>) s"
  have wf1: "vc_wf s1" unfolding s1_def by (rule fd_clear_wf [OF wf v])
  have "snd (vc_listen_fd_del f s) = s1"
    using listen_getD(1,6) [OF Some] by (auto simp: vc_listen_fd_del_def s1_def)
  then obtain s2 where "s' = upd_node r (\<lambda>_. zero_node) s2" "s2 = s1 \<or> (\<exists>l g. vc_client_get g s1 = Some l
      \<and> s2 = upd_node l (\<lambda>n. n\<lparr>err_code := - QM_EIO\<rparr>) s1)"
    using c Some by (auto simp: vc_listen_destroy_def Let_def split: if_splits option.splits)
  moreover have "vc_wf (upd_node l (\<lambda>n. n\<lparr>err_code := - QM_EIO\<rparr>) s1)" if "vc_client_get g s1 = Some l" for l g
    by (rule upd_err_wf [OF wf1 client_getD(2) [OF that]])
  ultimately show ?thesis using wf1 zero_node_wf [OF _ v] by auto
qed

text \<open>After the server's descriptor is cleared, no listen node of it is found any more.\<close>

lemma listen_get_dead: "sfd (servers s ! (f div 256 - 1)) = 0 \<Longrightarrow> vc_listen_get f s = None"
  by (simp add: vc_listen_get_def Let_def)

lemma destroy_nodes_noop:
  assumes wf: "vc_wf s" and i: "i < CONFIG_VC_SERVER_NUM" and dead: "sfd (servers s ! i) = 0"
    and js: "\<And>j. j \<in> set js \<Longrightarrow> j < CONFIG_VC_LISTEN_NUM"
  shows "destroy_nodes i js s = s"
  using js
proof (induction js)
  case (Cons j js)
  let ?f = "fd (nodes (servers s ! i) ! j)"
  have "valid_ref (Listen i j)" using i Cons.prems by simp
  from vc_wf_node [OF wf this] have "?f = 0 \<or> ?f = (i + 1) * 256 + (j + 1)"
    by (auto simp: node_ok_def get_node.simps)
  moreover have "((i + 1) * 256 + (j + 1)) div 256 = i + 1" using Cons.prems [of j] by (simp add: vc_nums)
  ultimately have "?f = 0 \<or> ?f div 256 - 1 = i" by auto
  then have "?f = 0 \<or> vc_listen_destroy ?f s = (- QM_EINVAL, s)"
    using listen_get_dead [of s ?f] dead by (auto simp: vc_listen_destroy_def)
  then have "(if ?f > 0 then snd (vc_listen_destroy ?f s) else s) = s" by auto
  then show ?case using Cons.IH Cons.prems by (simp add: Let_def)
qed simp

lemma zero_server_nodes: "j < CONFIG_VC_LISTEN_NUM \<Longrightarrow> nodes zero_server ! j = zero_node"
  by (simp add: zero_server_def)

lemma server_destroy_eq:
  assumes wf: "vc_wf s" and g: "vc_server_get f s = Some i"
  shows "vc_server_destroy f s = (QM_EOK, upd_server i (\<lambda>_. zero_server) s)"
proof -
  note i = server_getD(2) [OF g]
  have l: "i < length (servers s)" using i vc_shape_lengths(1) [OF vc_wf_shape [OF wf]] by simp
  let ?s1 = "upd_server i (\<lambda>v. v\<lparr>sfd := 0\<rparr>) s"
  have f: "f div 256 = i + 1" using server_getD(4) [OF g] by simp
  have "snd (vc_server_fd_del f s) = ?s1" using i by (simp add: vc_server_fd_del_def f)
  moreover have "vc_wf ?s1" by (rule vc_wf_upd_server [OF wf i]) auto
  moreover have "sfd (servers ?s1 ! i) = 0" using l by (simp add: nth_upd_server)
  ultimately have "destroy_nodes i [0..<CONFIG_VC_LISTEN_NUM] (snd (vc_server_fd_del f s)) = ?s1"
    using destroy_nodes_noop [OF _ i, of ?s1 "[0..<CONFIG_VC_LISTEN_NUM]"] by auto
  then show ?thesis using g l by (simp add: vc_server_destroy_def Let_def upd_server_twice)
qed

lemma server_destroy_wf:
  assumes wf: "vc_wf s" and c: "vc_server_destroy f s = (ret, s')"
  shows "vc_wf s'"
proof (cases "vc_server_get f s")
  case None
  then show ?thesis using c wf by (simp add: vc_server_destroy_def)
next
  case (Some i)
  note i = server_getD(2) [OF Some]
  have l: "i < length (servers s)" using i vc_shape_lengths(1) [OF vc_wf_shape [OF wf]] by simp
  have s': "s' = upd_server i (\<lambda>_. zero_server) s" using server_destroy_eq [OF wf Some] c by simp
  have "vc_shape s'"
    using vc_wf_shape [OF wf] unfolding s' vc_shape_def upd_server_def
    by (auto simp: zero_server_def dest!: set_update_subset_insert [THEN subsetD])
  moreover have "node_ok (ref_fd r) (get_node s' r)" if "valid_ref r" for r
    using that vc_wf_node [OF wf that] zero_server_nodes
    by (cases r) (auto simp: get_node.simps s' nth_upd_server node_ok_def zero_node_def)
  ultimately show ?thesis using wf by (auto simp: vc_wf_def s' nth_upd_server zero_server_def)
qed

lemma destroy_wf: "vc_wf s \<Longrightarrow> virtual_channel_destroy f s = (ret, s') \<Longrightarrow> vc_wf s'"
  unfolding virtual_channel_destroy_def
  by (cases "vc_role_get f") (auto intro: client_destroy_wf listen_destroy_wf server_destroy_wf)


section \<open>Sequences of calls\<close>

datatype vc_call =
    Server_Creat os "string option" int u32 u32
  | Client_Creat os u32 u32
  | Connect os "vc_state \<Rightarrow> vc_state" nat "string option" int
  | Accept os "vc_state \<Rightarrow> vc_state" nat
  | Write nat "u8 list option" u32
  | Read "vc_state \<Rightarrow> vc_state" nat bool u32
  | Destroy nat

fun vc_exec :: "vc_call \<Rightarrow> vc_state \<Rightarrow> vc_state option" where
  "vc_exec (Server_Creat os h p rd wr) s = Some (snd (virtual_channel_server_creat os h p rd wr s))"
| "vc_exec (Client_Creat os rd wr) s = Some (snd (virtual_channel_client_creat os rd wr s))"
| "vc_exec (Connect os env f h p) s = Some (snd (virtual_channel_connect os env f h p s))"
| "vc_exec (Accept os env f) s = map_option snd (virtual_channel_accept os env f s)"
| "vc_exec (Write f data len) s = Some (snd (virtual_channel_write f data len s))"
| "vc_exec (Read env f data len) s = Some (snd (snd (virtual_channel_read env f data len s)))"
| "vc_exec (Destroy f) s = Some (snd (virtual_channel_destroy f s))"

fun vc_run :: "vc_call list \<Rightarrow> vc_state \<Rightarrow> vc_state option" where
  "vc_run [] s = Some s"
| "vc_run (c # cs) s = (case vc_exec c s of None \<Rightarrow> None | Some s' \<Rightarrow> vc_run cs s')"

fun call_ok :: "vc_call \<Rightarrow> bool" where
  "call_ok (Connect os env f h p) = env_ok env"
| "call_ok (Accept os env f) = env_ok env"
| "call_ok (Read env f data len) = env_ok env"
| "call_ok _ = True"

lemma vc_initial_wf: "vc_wf vc_initial"
proof -
  have "get_node vc_initial r = zero_node" if "valid_ref r" for r
    using that by (cases r) (auto simp: get_node.simps vc_initial_def zero_server_nodes)
  then show ?thesis
    by (auto simp: vc_wf_def vc_shape_def node_ok_def) (auto simp: vc_initial_def zero_server_def zero_node_def)
qed

lemma exec_wf:
  assumes wf: "vc_wf s" and ok: "call_ok c" and e: "vc_exec c s = Some s'"
  shows "vc_wf s'"
proof (cases c)
  case (Server_Creat os h p rd wr)
  then show ?thesis using e server_creat_wf [OF wf prod.collapse [symmetric]] by auto
next
  case (Client_Creat os rd wr)
  then show ?thesis using e client_creat_spec [OF wf prod.collapse [symmetric]] by auto
next
  case (Connect os env f h p)
  then show ?thesis using e ok connect_wf [OF wf _ prod.collapse [symmetric], of env] by auto
next
  case (Accept os env f)
  then show ?thesis using e ok accept_wf [OF wf, of env os f] by auto
next
  case (Write f data len)
  then show ?thesis using e write_wf [OF wf prod.collapse [symmetric]] by auto
next
  case (Read env f data len)
  obtain a b t where r: "virtual_channel_read env f data len s = (a, b, t)"
    by (cases "virtual_channel_read env f data len s") auto
  show ?thesis using e ok Read read_wf [OF wf _ r] by (auto simp: r)
next
  case (Destroy f)
  then show ?thesis using e destroy_wf [OF wf prod.collapse [symmetric]] by auto
qed

lemma run_wf: "vc_wf s \<Longrightarrow> list_all call_ok cs \<Longrightarrow> vc_run cs s = Some s' \<Longrightarrow> vc_wf s'"
proof (induction cs arbitrary: s)
  case (Cons c cs)
  obtain t where t: "vc_exec c s = Some t" "vc_run cs t = Some s'" using Cons.prems(3) by (auto split: option.splits)
  have "vc_wf t" using exec_wf [OF Cons.prems(1) _ t(1)] Cons.prems(2) by simp
  then show ?case using Cons.IH [OF _ _ t(2)] Cons.prems(2) by simp
qed simp


section \<open>Transfer\<close>

lemma client_get_node: "vc_client_get f s = (if f > CONFIG_VC_CLIENT_NUM \<or> f = 0 then None
    else if fd (get_node s (Client (f - 1))) = 0 then None else Some (Client (f - 1)))"
  by (simp add: vc_client_get_def get_node.simps)

lemma listen_get_node: "vc_listen_get f s = (if \<not> vc_listen_fd_is_valid f then None
    else if sfd (servers s ! (f div 256 - 1)) = 0 then None
    else if fd (get_node s (Listen (f div 256 - 1) (f mod 256 - 1))) = 0 then None
    else Some (Listen (f div 256 - 1) (f mod 256 - 1)))"
  by (simp add: vc_listen_get_def get_node.simps Let_def)

lemma listen_fd_ref: "vc_listen_fd_is_valid f \<Longrightarrow> valid_ref (Listen (f div 256 - 1) (f mod 256 - 1))"
  by (auto simp: vc_listen_fd_is_valid_def Let_def vc_nums)

text \<open>Changing a node without touching its descriptor changes no lookup.\<close>

lemma get_upd_same_fd:
  assumes "vc_shape s" "valid_ref r" "\<And>n. fd (g n) = fd n"
  shows "vc_client_get f (upd_node r g s) = vc_client_get f s"
    and "vc_listen_get f (upd_node r g s) = vc_listen_get f s"
    and "vc_node_read_get f (upd_node r g s) = vc_node_read_get f s"
proof -
  have fd: "fd (get_node (upd_node r g s) r') = fd (get_node s r')" if "valid_ref r'" for r'
    using get_upd_node [OF assms(1,2) that] assms(3) by simp
  show c: "vc_client_get f (upd_node r g s) = vc_client_get f s"
    using fd [of "Client (f - 1)"] by (cases "f > CONFIG_VC_CLIENT_NUM \<or> f = 0") (auto simp: client_get_node)
  show l: "vc_listen_get f (upd_node r g s) = vc_listen_get f s"
    using fd [OF listen_fd_ref] by (auto simp: listen_get_node)
  show "vc_node_read_get f (upd_node r g s) = vc_node_read_get f s"
    unfolding vc_node_read_get_def c l ..
qed

lemma sint_small: "n < 2 ^ 31 \<Longrightarrow> sint (word_of_nat n :: u32) = int n"
  by (simp add: signed_of_nat signed_take_bit_int_eq_self)

lemma word_of_nat_ne_0: "0 < n \<Longrightarrow> n < 2 ^ 31 \<Longrightarrow> (word_of_nat n :: u32) \<noteq> 0"
  using sint_small [of n] by (cases "(word_of_nat n :: u32) = 0") simp_all

lemma node_in_use: "vc_wf s \<Longrightarrow> valid_ref r \<Longrightarrow> fd (get_node s r) \<noteq> 0 \<Longrightarrow> rb_inv (ringbuf (get_node s r))"
  using vc_wf_node by (auto simp: node_ok_def)

lemma push_all:
  assumes "rb_inv rb" "data \<noteq> []" "length data \<le> rb_cap rb - rb_count rb"
  shows "\<exists>rb'. qm_ringbuf_push (Some rb) (Some data) (int (length data)) = (int (length data), Some rb')
    \<and> rb_inv rb' \<and> rb_list rb' = rb_list rb @ data"
proof -
  obtain n rb1 where p: "qm_ringbuf_push (Some rb) (Some data) (int (length data)) = (n, Some rb1)"
    using push_inv [OF assms(1) surjective_pairing] by (metis prod.collapse)
  have w: "rb_write rb data = (nat n, rb1)" by (simp add: rb_write_def p)
  have "nat n = length data" using rbq.put_fits [OF assms(1) w] assms(3) by simp
  moreover have "rb_list rb1 = rb_list rb @ take (nat n) data" "rb_inv rb1"
    using rbq.put_content [OF assms(1) w] rbq.put_invar [OF assms(1) w] by auto
  moreover have "n = int (length data)"
    using \<open>nat n = length data\<close> assms(2) by (metis length_greater_0_conv nat_0_le zero_less_nat_eq order_less_imp_le)
  ultimately show ?thesis using p by simp
qed

lemma pop_some:
  assumes "rb_inv rb" "n \<le> length (rb_list rb)"
  shows "\<exists>rb'. qm_ringbuf_pop rb (int n) = (int n, take n (rb_list rb), rb') \<and> rb_inv rb' \<and> rb_list rb' = drop n (rb_list rb)"
proof -
  obtain ds rb' where p: "pop_loop rb n = (ds, rb')" by (cases "pop_loop rb n")
  then show ?thesis using pop_loop_spec [OF assms(1) p] assms(2) by (auto simp: qm_ringbuf_pop_def)
qed

lemma role_0 [simp]: "vc_node_write_get 0 s = None" "vc_node_read_get 0 s = None"
  by (simp_all add: vc_node_write_get_def vc_node_read_get_def vc_role_get_def)

lemma write_spec:
  assumes "vc_wf s" "vc_node_write_get f s = Some r" "data \<noteq> []" "length data < 2 ^ 31"
    "length data \<le> rb_cap (ringbuf (get_node s r)) - rb_count (ringbuf (get_node s r))"
  shows "\<exists>g. virtual_channel_write f (Some data) (word_of_nat (length data)) s = (int (length data), upd_node r g s)
    \<and> (\<forall>n. fd (g n) = fd n \<and> err_code (g n) = err_code n)
    \<and> rb_list (ringbuf (g (get_node s r))) = rb_list (ringbuf (get_node s r)) @ data"
proof -
  note v = write_getD [OF assms(2)]
  have f: "f \<noteq> 0" using assms(2) by (metis role_0(1) option.distinct(1))
  obtain rb' where rb': "qm_ringbuf_push (Some (ringbuf (get_node s r))) (Some data) (int (length data))
      = (int (length data), Some rb')" "rb_list rb' = rb_list (ringbuf (get_node s r)) @ data"
    using push_all [OF node_in_use [OF assms(1) v] assms(3,5)] by blast
  have "(word_of_nat (length data) :: u32) \<noteq> 0" using word_of_nat_ne_0 assms(3,4) by blast
  then have "virtual_channel_write f (Some data) (word_of_nat (length data)) s = (int (length data),
      upd_node r (\<lambda>n. n\<lparr>ringbuf := rb', signal := map_option Suc (signal n)\<rparr>) s)"
    using f assms(2) rb'(1) sint_small [OF assms(4)] upd_node_twice [OF vc_wf_shape [OF assms(1)] v(1)]
    by (simp add: virtual_channel_write_def node_signal_def)
  with rb'(2) show ?thesis by (intro exI conjI) auto
qed

lemma read_spec:
  assumes "vc_wf s" "vc_node_read_get f s = Some r" "err_code (get_node s r) = QM_EOK" "0 < n" "n < 2 ^ 31"
    "n \<le> length (rb_list (ringbuf (get_node s r)))"
  shows "\<exists>rb. virtual_channel_read env f True (word_of_nat n) s
      = (int n, take n (rb_list (ringbuf (get_node s r))), upd_node r (\<lambda>n. n\<lparr>ringbuf := rb\<rparr>) s)
    \<and> rb_list rb = drop n (rb_list (ringbuf (get_node s r)))"
proof -
  note v = read_getD [OF assms(2)]
  have f: "f \<noteq> 0" using assms(2) by (metis role_0(2) option.distinct(1))
  note inv = node_in_use [OF assms(1) v(1,2)]
  obtain rb where rb: "qm_ringbuf_pop (ringbuf (get_node s r)) (int n) = (int n, take n (rb_list (ringbuf (get_node s r))), rb)"
    "rb_list rb = drop n (rb_list (ringbuf (get_node s r)))"
    using pop_some [OF inv assms(6)] by blast
  have "rb_list (ringbuf (get_node s r)) \<noteq> []" using assms(4,6) by (metis le_zero_eq less_numeral_extra(3) list.size(3))
  then have "\<not> qm_ringbuf_isempty (ringbuf (get_node s r))" using isempty_iff [OF inv] by simp
  moreover have "(word_of_nat n :: u32) \<noteq> 0" using word_of_nat_ne_0 assms(4,5) by blast
  ultimately have "virtual_channel_read env f True (word_of_nat n) s
      = (int n, take n (rb_list (ringbuf (get_node s r))), upd_node r (\<lambda>n. n\<lparr>ringbuf := rb\<rparr>) s)"
    using f assms(2,3) rb(1) sint_small [OF assms(5)] by (simp add: virtual_channel_read_def)
  with rb(2) show ?thesis by blast
qed


section \<open>Connection\<close>

lemma first_index_conj: "first_index P xs = Some j \<Longrightarrow> Q (xs ! j) \<Longrightarrow> first_index (\<lambda>x. P x \<and> Q x) xs = Some j"
  by (induction xs arbitrary: j) (auto split: if_splits)

lemma first_index_update: "P x = P (xs ! j) \<Longrightarrow> first_index P (xs[j := x]) = first_index P xs"
  by (induction xs arbitrary: j) (auto split: nat.splits)

lemma get_node_upd_server: "(\<And>v. nodes (f v) = nodes v) \<Longrightarrow> get_node (upd_server i f s) r = get_node s r"
  by (cases r) (auto simp: get_node.simps nth_upd_server)

lemma client_get_upd_server: "vc_client_get f (upd_server i g s) = vc_client_get f s"
  by (simp add: vc_client_get_def)

lemma nodes_upd_server: "(\<And>v. nodes (f v) = nodes v) \<Longrightarrow> nodes (servers (upd_server k f s) ! i) = nodes (servers s ! i)"
  by (simp add: nth_upd_server)

lemma sfd_upd_server: "(\<And>v. sfd (f v) = sfd v) \<Longrightarrow> sfd (servers (upd_server k f s) ! i) = sfd (servers s ! i)"
  by (simp add: nth_upd_server)

lemma server_get_sfd: "(\<And>i. sfd (servers t ! i) = sfd (servers s ! i)) \<Longrightarrow> vc_server_get f t = vc_server_get f s"
  by (simp add: vc_server_get_def)

lemma accept_sem_wf: "vc_wf s \<Longrightarrow> i < CONFIG_VC_SERVER_NUM \<Longrightarrow> (\<And>v. \<exists>x. g v = v\<lparr>accept_sem := x\<rparr>) \<Longrightarrow> vc_wf (upd_server i g s)"
proof -
  assume wf: "vc_wf s" and i: "i < CONFIG_VC_SERVER_NUM" and g: "\<And>v. \<exists>x. g v = v\<lparr>accept_sem := x\<rparr>"
  have g': "nodes (g v) = nodes v" "sfd (g v) = sfd v" "rd_size (g v) = rd_size v" "wr_size (g v) = wr_size v" for v
    using g [of v] by auto
  show ?thesis using wf i by (intro vc_wf_upd_server [OF wf i]) (auto simp: g' vc_wf_def)
qed

text \<open>An accept that finds its semaphore raised takes the first free slot \<open>j\<close>, whichever client that slot names.\<close>

lemma accept_takes_slot:
  assumes wf: "vc_wf s" and sv: "vc_server_get f s = Some i" and sem: "accept_sem (servers s ! i) = Some (Suc k)"
    and os: "os_ok os" and j: "first_index (\<lambda>n. fd n = 0) (nodes (servers s ! i)) = Some j"
  obtains g where "virtual_channel_accept os env f s =
      (let t = upd_node (Listen i j) g (upd_server i (\<lambda>v. v\<lparr>accept_sem := Some k\<rparr>) s)
       in case vc_client_get (client_fd (get_node s (Listen i j))) s of
            None \<Rightarrow> Some (0, t)
          | Some r \<Rightarrow> Some (int (ref_fd (Listen i j)), node_signal r (upd_node r (\<lambda>n. n\<lparr>client_fd := ref_fd (Listen i j)\<rparr>) t)))"
    "\<forall>n. fd (g n) = ref_fd (Listen i j) \<and> client_fd (g n) = client_fd n \<and> err_code (g n) = err_code n
         \<and> rb_inv (ringbuf (g n)) \<and> rb_list (ringbuf (g n)) = [] \<and> signal (g n) = Some 0"
    "valid_ref (Listen i j)"
proof -
  let ?L = "Listen i j"
  note i = server_getD(2,3) [OF sv]
  define s3 where "s3 = upd_server i (\<lambda>v. v\<lparr>accept_sem := Some k\<rparr>) s"
  have wf3: "vc_wf s3" unfolding s3_def by (rule accept_sem_wf [OF wf i(1)]) blast
  have sfd3: "sfd (servers s3 ! m) = sfd (servers s ! m)" for m unfolding s3_def by (rule sfd_upd_server) simp
  have sv3: "vc_server_get f s3 = Some i" using sv server_get_sfd [of s3 s] sfd3 by simp
  have n3: "nodes (servers s3 ! i) = nodes (servers s ! i)" unfolding s3_def by (rule nodes_upd_server) simp
  have g3: "get_node s3 r = get_node s r" for r unfolding s3_def by (rule get_node_upd_server) simp
  have w: "accept_wait i env s = (True, s3)" by (simp add: accept_wait_def sem_take_def sem s3_def)
  let ?rd = "rd_size (servers s3 ! i)" and ?wr = "wr_size (servers s3 ! i)"
  have rw: "?rd \<noteq> 0" "?wr \<noteq> 0" using wf3 i sfd3 [of i] by (auto simp: vc_wf_def)
  obtain af s4 where l: "virtual_channel_listen_creat os f ?rd ?wr s3 = (af, s4)"
    by (cases "virtual_channel_listen_creat os f ?rd ?wr s3")
  have "fst (vc_server_fd_accept f s3) \<noteq> 0"
    using sv3 j n3 by (auto simp: vc_server_fd_accept_def vc_server_get_def split: if_splits)
  then have "0 < af" using listen_creat_spec [OF wf3 l] os rw by simp
  then obtain g where g: "valid_ref ?L" "af = int (ref_fd ?L)" "s4 = upd_node ?L g s3"
    "\<forall>n. fd (g n) = ref_fd ?L \<and> client_fd (g n) = client_fd n \<and> err_code (g n) = err_code n
         \<and> rb_inv (ringbuf (g n)) \<and> rb_list (ringbuf (g n)) = [] \<and> signal (g n) = Some 0"
    using listen_creat_spec [OF wf3 l] sv3 j n3 by auto
  note up = get_upd_node [OF vc_wf_shape [OF wf3] g(1), of _ g, folded g(3)]
  have sfd4: "sfd (servers s4 ! i) \<noteq> 0" using i(2) sfd3 by (simp add: g(3))
  have L4: "vc_listen_get (ref_fd ?L) s4 = Some ?L"
    by (rule listen_get_ref [OF g(1) sfd4]) (simp add: up [OF g(1)] g(4))
  have c4: "client_fd (get_node s4 ?L) = client_fd (get_node s ?L)" by (simp add: up [OF g(1)] g(4) g3 del: ref_fd.simps)
  have C4: "vc_client_get m s4 = vc_client_get m s" for m
    by (simp add: g(3) s3_def vc_client_get_def upd_node.simps)
  have "virtual_channel_accept os env f s =
      (case vc_client_get (client_fd (get_node s ?L)) s of None \<Rightarrow> Some (0, s4)
       | Some r \<Rightarrow> Some (af, node_signal r (upd_node r (\<lambda>n. n\<lparr>client_fd := nat af\<rparr>) s4)))"
    using \<open>0 < af\<close> by (simp add: virtual_channel_accept_def sv w l L4 c4 C4 g(2) del: ref_fd.simps of_nat_add split: option.split)
  then show thesis unfolding g(2,3) nat_int s3_def using g(1,4) by (intro that [of g]) (simp_all add: Let_def del: ref_fd.simps)
qed

lemma accept_pending:
  assumes wf: "vc_wf s" and sv: "vc_server_get f s = Some i" and sem: "accept_sem (servers s ! i) = Some (Suc k)"
    and os: "os_ok os" and j: "first_index (\<lambda>n. fd n = 0) (nodes (servers s ! i)) = Some j"
    and cf: "client_fd (get_node s (Listen i j)) = c + 1" and c: "valid_ref (Client c)" "fd (get_node s (Client c)) \<noteq> 0"
  shows "\<exists>g. virtual_channel_accept os env f s = Some (int (ref_fd (Listen i j)),
      upd_node (Client c) (\<lambda>n. n\<lparr>client_fd := ref_fd (Listen i j), signal := map_option Suc (signal n)\<rparr>)
        (upd_node (Listen i j) g (upd_server i (\<lambda>v. v\<lparr>accept_sem := Some k\<rparr>) s)))
    \<and> (\<forall>n. fd (g n) = ref_fd (Listen i j) \<and> client_fd (g n) = client_fd n \<and> err_code (g n) = err_code n
         \<and> rb_inv (ringbuf (g n)) \<and> rb_list (ringbuf (g n)) = [] \<and> signal (g n) = Some 0)"
proof -
  obtain g where g: "virtual_channel_accept os env f s =
      (let t = upd_node (Listen i j) g (upd_server i (\<lambda>v. v\<lparr>accept_sem := Some k\<rparr>) s)
       in case vc_client_get (client_fd (get_node s (Listen i j))) s of
            None \<Rightarrow> Some (0, t)
          | Some r \<Rightarrow> Some (int (ref_fd (Listen i j)), node_signal r (upd_node r (\<lambda>n. n\<lparr>client_fd := ref_fd (Listen i j)\<rparr>) t)))"
    "\<forall>n. fd (g n) = ref_fd (Listen i j) \<and> client_fd (g n) = client_fd n \<and> err_code (g n) = err_code n
         \<and> rb_inv (ringbuf (g n)) \<and> rb_list (ringbuf (g n)) = [] \<and> signal (g n) = Some 0"
    by (rule accept_takes_slot [OF wf sv sem os j, of env]) blast
  have "vc_client_get (client_fd (get_node s (Listen i j))) s = Some (Client c)"
    using client_get_ref [OF c] cf by simp
  moreover have "vc_shape (upd_node (Listen i j) g (upd_server i (\<lambda>v. v\<lparr>accept_sem := Some k\<rparr>) s))"
    using vc_wf_shape [OF wf] by simp
  ultimately show ?thesis
    using g(2) upd_node_twice [OF _ c(1)] unfolding g(1) by (intro exI [of _ g]) (simp add: node_signal_def Let_def del: ref_fd.simps)
qed

text \<open>The two ends of a connection: the descriptors are in use, and each end's peer is the other.\<close>

fun live :: "vc_state \<Rightarrow> node_ref \<Rightarrow> bool" where
  "live s (Client c) \<longleftrightarrow> fd (get_node s (Client c)) \<noteq> 0"
| "live s (Listen i j) \<longleftrightarrow> fd (get_node s (Listen i j)) \<noteq> 0 \<and> sfd (servers s ! i) \<noteq> 0"

definition vc_linked :: "vc_state \<Rightarrow> nat \<Rightarrow> nat \<Rightarrow> bool" where
  "vc_linked s f g \<longleftrightarrow> vc_node_read_get f s \<noteq> None \<and> vc_node_read_get g s \<noteq> None
     \<and> vc_node_write_get f s = vc_node_read_get g s \<and> vc_node_write_get g s = vc_node_read_get f s"

lemma client_get_live: "valid_ref (Client c) \<Longrightarrow> vc_client_get (ref_fd (Client c)) s = (if live s (Client c) then Some (Client c) else None)"
  by (simp add: client_get_node)

lemma listen_fd_split:
  assumes "valid_ref (Listen i j)"
  shows "ref_fd (Listen i j) div 256 = i + 1" "ref_fd (Listen i j) mod 256 = j + 1" "vc_listen_fd_is_valid (ref_fd (Listen i j))"
proof -
  show *: "ref_fd (Listen i j) div 256 = i + 1" "ref_fd (Listen i j) mod 256 = j + 1"
    unfolding ref_fd.simps mod_mult_self3 using assms by (auto simp: vc_nums)
  show "vc_listen_fd_is_valid (ref_fd (Listen i j))"
    unfolding vc_listen_fd_is_valid_def Let_def * using assms by auto
qed

lemma listen_get_live:
  "valid_ref (Listen i j) \<Longrightarrow> vc_listen_get (ref_fd (Listen i j)) s = (if live s (Listen i j) then Some (Listen i j) else None)"
  unfolding listen_get_node using listen_fd_split [of i j] by simp

lemma role_ref:
  assumes "valid_ref r"
  shows "vc_role_get (ref_fd r) = (case r of Client _ \<Rightarrow> VC_ROLE_CLIENT | Listen _ _ \<Rightarrow> VC_ROLE_LISTEN)"
proof (cases r)
  case (Listen i j)
  then show ?thesis using listen_fd_split [of i j] assms unfolding vc_role_get_def by simp
qed (use assms in \<open>simp add: vc_role_get_def vc_nums\<close>)

lemma read_get_live: "valid_ref r \<Longrightarrow> vc_node_read_get (ref_fd r) s = (if live s r then Some r else None)"
  unfolding vc_node_read_get_def by (cases r) (simp_all only: role_ref client_get_live listen_get_live, simp_all)

lemma write_get_live:
  "valid_ref r \<Longrightarrow> vc_node_write_get (ref_fd r) s =
     (if live s r then (case r of Client _ \<Rightarrow> vc_listen_get (client_fd (get_node s r)) s
                                | Listen _ _ \<Rightarrow> vc_client_get (client_fd (get_node s r)) s) else None)"
  unfolding vc_node_write_get_def by (cases r) (simp_all only: role_ref client_get_live listen_get_live, simp_all)

definition server_task :: "os \<Rightarrow> nat \<Rightarrow> vc_state \<Rightarrow> vc_state" where
  "server_task os f s = (case virtual_channel_accept os (\<lambda>t. t) f s of Some (_, t) \<Rightarrow> t | None \<Rightarrow> s)"

text \<open>The first half of a connect: the free slot \<open>j\<close> of the server names the client and the accept semaphore is raised.\<close>

lemma connect_request:
  assumes wf: "vc_wf s" and find: "vc_server_fd_find h p s = f" "vc_server_get f s = Some i"
    and sem: "accept_sem (servers s ! i) = Some k"
    and j: "first_index (\<lambda>n. fd n = 0) (nodes (servers s ! i)) = Some j" "client_fd (get_node s (Listen i j)) = 0"
    and c: "valid_ref (Client c)" "fd (get_node s (Client c)) \<noteq> 0"
  obtains s2 where "vc_wf s2" "vc_server_get f s2 = Some i" "accept_sem (servers s2 ! i) = Some (Suc k)"
    "first_index (\<lambda>n. fd n = 0) (nodes (servers s2 ! i)) = Some j" "client_fd (get_node s2 (Listen i j)) = c + 1"
    "get_node s2 (Client c) = get_node s (Client c)" "valid_ref (Listen i j)"
    "\<And>env. virtual_channel_connect os env (c + 1) h p s
       = (case node_wait (Client c) env s2 of (ok, t) \<Rightarrow> (if ok then QM_EOK else sem_wait_ret os, t))"
proof
  let ?L = "Listen i j" and ?C = "Client c"
  note i = server_getD [OF find(2)]
  note sh = vc_wf_shape [OF wf]
  show L: "valid_ref ?L" using first_index_Some [OF j(1)] vc_shape_lengths(3) [OF sh i(2)] i(2) by simp
  define s1 where "s1 = upd_node ?L (\<lambda>n. n\<lparr>server_fd := f, client_fd := c + 1\<rparr>) s"
  define s2 where "s2 = upd_server i (\<lambda>v. v\<lparr>accept_sem := map_option Suc (accept_sem v)\<rparr>) s1"
  have cs: "vc_client_connect_set f (c + 1) s = (QM_EOK, s1)"
    using first_index_conj [OF j(1), of "\<lambda>n. client_fd n = 0"] j(2)
    by (simp add: vc_client_connect_set_def find(2) s1_def get_node.simps)
  have wf1: "vc_wf s1" using connect_set_wf [OF wf cs] .
  show "vc_wf s2" unfolding s2_def by (rule accept_sem_wf [OF wf1 i(2)]) blast
  have sfd2: "sfd (servers s2 ! m) = sfd (servers s ! m)" for m
    unfolding s2_def using sfd_upd_server [of _ _ s1] by (simp add: s1_def)
  show "vc_server_get f s2 = Some i" using find(2) server_get_sfd [of s2 s] sfd2 by simp
  have sv: "vc_server_get f s1 = Some i" using find(2) server_get_sfd [of s1 s] by (simp add: s1_def)
  have g2: "get_node s2 r = get_node s1 r" for r unfolding s2_def by (rule get_node_upd_server) simp
  note g1 = get_upd_node [OF sh L, of _ "\<lambda>n. n\<lparr>server_fd := f, client_fd := c + 1\<rparr>", folded s1_def]
  have il: "i < length (servers s)" using i(2) vc_shape_lengths(1) [OF sh] by simp
  show "first_index (\<lambda>n. fd n = 0) (nodes (servers s2 ! i)) = Some j"
    using j(1) il by (simp add: s2_def s1_def nodes_upd_server upd_node.simps nth_upd_server first_index_update)
  show "accept_sem (servers s2 ! i) = Some (Suc k)"
    using sem vc_shape_lengths(1) [OF vc_wf_shape [OF wf1]] i(2) by (simp add: s2_def nth_upd_server s1_def)
  show "client_fd (get_node s2 ?L) = c + 1" by (simp add: g2 g1 [OF L])
  show "get_node s2 ?C = get_node s ?C" by (simp add: g2 g1 [OF c(1)])
  have "vc_client_get (c + 1) s1 = Some ?C"
    using client_get_ref [OF c(1), of s1] g1 [OF c(1)] c(2) by simp
  moreover have "f \<noteq> 0" using i(4) by simp
  ultimately show "virtual_channel_connect os env (c + 1) h p s
       = (case node_wait ?C env s2 of (ok, t) \<Rightarrow> (if ok then QM_EOK else sem_wait_ret os, t))" for env
    using c(1) cs sv by (simp add: virtual_channel_connect_def find(1) s2_def [symmetric])
qed

lemma connect_links:
  assumes wf: "vc_wf s" and find: "vc_server_fd_find h p s = f" "vc_server_get f s = Some i"
    and sem: "accept_sem (servers s ! i) = Some k" and os: "os_ok os"
    and j: "first_index (\<lambda>n. fd n = 0) (nodes (servers s ! i)) = Some j" "client_fd (get_node s (Listen i j)) = 0"
    and c: "valid_ref (Client c)" "fd (get_node s (Client c)) \<noteq> 0" "signal (get_node s (Client c)) = Some 0"
  shows "\<exists>s'. virtual_channel_connect os (server_task os f) (c + 1) h p s = (QM_EOK, s')
    \<and> vc_linked s' (c + 1) (f + (j + 1)) \<and> rb_list (ringbuf (get_node s' (Listen i j))) = []
    \<and> ringbuf (get_node s' (Client c)) = ringbuf (get_node s (Client c))"
proof -
  let ?L = "Listen i j" and ?C = "Client c"
  obtain s2 where s2: "vc_wf s2" "vc_server_get f s2 = Some i" "accept_sem (servers s2 ! i) = Some (Suc k)"
    "first_index (\<lambda>n. fd n = 0) (nodes (servers s2 ! i)) = Some j" "client_fd (get_node s2 ?L) = c + 1"
    "get_node s2 ?C = get_node s ?C" and L: "valid_ref ?L"
    and conn: "virtual_channel_connect os env (c + 1) h p s
       = (case node_wait ?C env s2 of (ok, t) \<Rightarrow> (if ok then QM_EOK else sem_wait_ret os, t))" for env
    by (rule connect_request [OF wf find sem j c(1,2), where os = os]) (rule that)
  obtain g where g: "virtual_channel_accept os (\<lambda>t. t) f s2 = Some (int (ref_fd ?L),
      upd_node ?C (\<lambda>n. n\<lparr>client_fd := ref_fd ?L, signal := map_option Suc (signal n)\<rparr>)
        (upd_node ?L g (upd_server i (\<lambda>v. v\<lparr>accept_sem := Some k\<rparr>) s2)))"
    "\<forall>n. fd (g n) = ref_fd ?L \<and> client_fd (g n) = client_fd n \<and> rb_list (ringbuf (g n)) = []"
    using accept_pending [OF s2(1-3) os s2(4,5) c(1)] c(2) s2(6) by force
  define s3 where "s3 = upd_server i (\<lambda>v. v\<lparr>accept_sem := Some k\<rparr>) s2"
  define s4 where "s4 = upd_node ?C (\<lambda>n. n\<lparr>client_fd := ref_fd ?L, signal := map_option Suc (signal n)\<rparr>) (upd_node ?L g s3)"
  define s5 where "s5 = upd_node ?C (\<lambda>n. n\<lparr>signal := Some 0\<rparr>) s4"
  have sh3: "vc_shape s3" unfolding s3_def using vc_wf_shape [OF s2(1)] by simp
  have g3: "get_node s3 r = get_node s2 r" for r unfolding s3_def by (rule get_node_upd_server) simp
  have C4: "get_node s4 ?C = (get_node s ?C)\<lparr>client_fd := ref_fd ?L, signal := Some (Suc 0)\<rparr>"
    and L4: "get_node s4 ?L = g (get_node s2 ?L)"
    using c(3) by (simp_all add: s4_def get_upd_node [OF vc_shape_upd_node [OF sh3] c(1)] get_upd_node [OF sh3 L] L c(1)
        g3 s2(6) del: ref_fd.simps valid_ref.simps)
  have sh4: "vc_shape s4" using sh3 by (simp add: s4_def)
  have C5: "get_node s5 ?C = (get_node s4 ?C)\<lparr>signal := Some 0\<rparr>" and L5: "get_node s5 ?L = get_node s4 ?L"
    by (simp_all add: s5_def get_upd_node [OF sh4 c(1)] L c(1) del: valid_ref.simps)
  have task: "server_task os f s2 = s4" unfolding server_task_def g(1) s4_def s3_def by simp
  have "virtual_channel_connect os (server_task os f) (c + 1) h p s = (QM_EOK, s5)"
    unfolding conn using c(3) by (simp add: node_wait_def sem_take_def s2(6) task C4 s5_def)
  moreover have "live s5 ?C" "live s5 ?L"
    using c(2) g(2) server_getD(3) [OF s2(2)] sfd_upd_server [of "\<lambda>v. v\<lparr>accept_sem := Some k\<rparr>" i s2 i]
    by (simp_all add: C5 C4 L5 L4) (simp add: s5_def s4_def s3_def)
  then have "vc_linked s5 (ref_fd ?C) (ref_fd ?L)"
    unfolding vc_linked_def write_get_live [OF c(1)] write_get_live [OF L] read_get_live [OF c(1)] read_get_live [OF L]
    using client_get_live [OF c(1), of s5] listen_get_live [OF L, of s5] g(2) s2(5)
    by (simp add: C5 C4 L5 L4 del: live.simps)
  ultimately show ?thesis
    using g(2) server_getD(4) [OF find(2)] by (intro exI [of _ s5]) (simp add: C5 C4 L5 L4)
qed

section \<open>Closing\<close>

lemma zero_node_fd [simp]: "fd zero_node = 0"
  by (simp add: zero_node_def)

text \<open>Closing the end \<open>r\<close> whose peer is \<open>l\<close>.\<close>

definition closed_end :: "node_ref \<Rightarrow> node_ref \<Rightarrow> vc_state \<Rightarrow> vc_state" where
  "closed_end r l s = upd_node r (\<lambda>_. zero_node) (upd_node l (\<lambda>n. n\<lparr>err_code := - QM_EIO\<rparr>) (upd_node r (\<lambda>n. n\<lparr>fd := 0\<rparr>) s))"

lemma closed_end_get:
  assumes "vc_shape s" "valid_ref r" "valid_ref l" "r \<noteq> l"
  shows "get_node (closed_end r l s) r = zero_node"
    "get_node (closed_end r l s) l = (get_node s l)\<lparr>err_code := - QM_EIO\<rparr>"
    "sfd (servers (closed_end r l s) ! i) = sfd (servers s ! i)"
  using assms by (auto simp: closed_end_def get_upd_node)

lemma get_liveD: "vc_client_get f s = Some l \<Longrightarrow> live s l" "vc_listen_get f s = Some l \<Longrightarrow> live s l"
  by (auto simp: client_get_node listen_get_node split: if_splits)

lemma write_get_peer:
  assumes "valid_ref r" "vc_node_write_get (ref_fd r) s = Some l"
  shows "valid_ref l" "live s l" "r \<noteq> l" "live s r" "ref_fd l = client_fd (get_node s r)"
    "(\<exists>c i j. r = Client c \<and> l = Listen i j) \<or> (\<exists>c i j. r = Listen i j \<and> l = Client c)"
proof -
  show v: "valid_ref l" using write_getD(1) [OF assms(2)] .
  have w: "live s r" "(case r of Client _ \<Rightarrow> vc_listen_get (client_fd (get_node s r)) s
      | Listen _ _ \<Rightarrow> vc_client_get (client_fd (get_node s r)) s) = Some l"
    using assms(2) unfolding write_get_live [OF assms(1)] by (auto split: if_splits)
  show "live s r" by (rule w(1))
  let ?f = "client_fd (get_node s r)"
  show "(\<exists>c i j. r = Client c \<and> l = Listen i j) \<or> (\<exists>c i j. r = Listen i j \<and> l = Client c)"
    using w(2) client_getD(1) [of ?f s l] listen_getD(1) [of ?f s l] by (cases r) simp_all
  then show "r \<noteq> l" by auto
  show "ref_fd l = ?f"
    using w(2) client_getD(1,3) [of ?f s l] listen_getD(1,3) [of ?f s l] by (cases r) force+
  show "live s l"
    using w(2) get_liveD [of ?f s l] by (cases r) simp_all
qed


lemma destroy_linked:
  assumes wf: "vc_wf s" and r: "valid_ref r" and peer: "vc_node_write_get (ref_fd r) s = Some l"
    and ok: "err_code (get_node s r) = QM_EOK"
  shows "virtual_channel_destroy (ref_fd r) s = (QM_EOK, closed_end r l s)"
proof -
  note p = write_get_peer [OF r peer]
  note sh = vc_wf_shape [OF wf]
  let ?s1 = "upd_node r (\<lambda>n. n\<lparr>fd := 0\<rparr>) s"
  have live: "live ?s1 l" using p(2,3) get_upd_node [OF sh r p(1), of "\<lambda>n. n\<lparr>fd := 0\<rparr>"] by (cases l) auto
  show ?thesis
  proof (cases r)
    case (Client c)
    then obtain i j where l: "l = Listen i j"
      using p(6) by blast
    have g: "vc_client_get (ref_fd r) s = Some r" using client_get_live [of c s] r p(4) Client by simp
    have "snd (vc_client_fd_del (ref_fd r) s) = ?s1" using r Client by (simp add: vc_client_fd_del_def)
    moreover have "vc_listen_get (client_fd (get_node s r)) ?s1 = Some l"
      using listen_get_live [of i j ?s1] p(1,5) l live by simp
    ultimately have "vc_client_destroy (ref_fd r) s = (QM_EOK, closed_end r l s)"
      using g ok r Client unfolding vc_client_destroy_def by (simp add: closed_end_def)
    then show ?thesis unfolding virtual_channel_destroy_def role_ref [OF r] using Client by simp
  next
    case (Listen i j)
    then obtain c where l: "l = Client c"
      using p(6) by blast
    have v: "valid_ref (Listen i j)" using r Listen by simp
    have g: "vc_listen_get (ref_fd r) s = Some r" using listen_get_live [OF v, of s] p(4) Listen by simp
    have "snd (vc_listen_fd_del (ref_fd r) s) = ?s1"
      unfolding vc_listen_fd_del_def Listen listen_fd_split [OF v] using listen_fd_split(3) [OF v] by simp
    moreover have "vc_client_get (client_fd (get_node s r)) ?s1 = Some l"
      using client_get_live [of c ?s1] p(1,5) l live by simp
    ultimately have "vc_listen_destroy (ref_fd r) s = (QM_EOK, closed_end r l s)"
      using g ok unfolding vc_listen_destroy_def by (simp add: closed_end_def)
    then show ?thesis unfolding virtual_channel_destroy_def role_ref [OF r] using Listen by simp
  qed
qed

lemma ref_fd_pos: "ref_fd r \<noteq> 0"
  by (cases r) simp_all

lemma closed_end_notified:
  assumes wf: "vc_wf s" and r: "valid_ref r" and peer: "vc_node_write_get (ref_fd r) s = Some l"
    "vc_node_write_get (ref_fd l) s = Some r" and len: "len \<noteq> 0"
  shows "vc_node_read_get (ref_fd r) (closed_end r l s) = None"
    "virtual_channel_read env (ref_fd l) True len (closed_end r l s) = (- QM_EIO, [], closed_end r l s)"
    "virtual_channel_write (ref_fd l) (Some data) len (closed_end r l s) = (- QM_EIO, closed_end r l s)"
proof -
  let ?t = "closed_end r l s"
  note p = write_get_peer [OF r peer(1)]
  note q = write_get_peer [OF p(1) peer(2)]
  note g = closed_end_get [OF vc_wf_shape [OF wf] r p(1,3)]
  have dead: "\<not> live ?t r" using g(1) by (cases r) auto
  have live: "live ?t l" using p(2) g(2,3) by (cases l) auto
  show "vc_node_read_get (ref_fd r) ?t = None" using read_get_live [OF r] dead by simp
  have "vc_node_read_get (ref_fd l) ?t = Some l" using read_get_live [OF p(1)] live by simp
  then show "virtual_channel_read env (ref_fd l) True len ?t = (- QM_EIO, [], ?t)"
    using len g(2) ref_fd_pos [of l] by (simp add: virtual_channel_read_def errno)
  have "vc_node_write_get (ref_fd l) ?t = None"
    using p(6)
  proof (elim disjE exE conjE)
    fix c i j
    assume *: "r = Client c" "l = Listen i j"
    have "vc_client_get (ref_fd r) ?t = None" using client_get_live [of c ?t] r dead * by simp
    then show ?thesis unfolding write_get_live [OF p(1)] g(2) using q(5) * by simp
  next
    fix c i j
    assume *: "r = Listen i j" "l = Client c"
    have "vc_listen_get (ref_fd r) ?t = None" using listen_get_live [of i j ?t] r dead * by simp
    then show ?thesis unfolding write_get_live [OF p(1)] g(2) using q(5) * by simp
  qed
  then show "virtual_channel_write (ref_fd l) (Some data) len ?t = (- QM_EIO, ?t)"
    using len ref_fd_pos [of l] by (simp add: virtual_channel_write_def)
qed


section \<open>Properties\<close>

definition vc_demo_os :: os where
  "vc_demo_os = \<lparr>malloc_ok = True, sem_new_ret = QM_EOK, mutex_new_ret = QM_EOK, sem_wait_ret = - QM_ETIMEOUT\<rparr>"

text \<open>A server on port 80 without a host name, one client, and the client connected.\<close>

definition vc_demo0 :: vc_state where
  "vc_demo0 = snd (virtual_channel_client_creat vc_demo_os 8 8 (snd (virtual_channel_server_creat vc_demo_os None 80 8 8 vc_initial)))"

definition vc_demo1 :: vc_state where
  "vc_demo1 = snd (virtual_channel_connect vc_demo_os (server_task vc_demo_os 256) 1 None 80 vc_demo0)"

lemma demo_task_ok: "env_ok (server_task os f)"
proof -
  have "vc_wf (server_task os f s)" if wf: "vc_wf s" for s
  proof (cases "virtual_channel_accept os (\<lambda>t. t) f s")
    case (Some x)
    obtain a t where x: "x = (a, t)" by (cases x)
    have "env_ok (\<lambda>t. t)" by (simp add: env_ok_def)
    then show ?thesis using accept_wf [OF wf _ Some [unfolded x]] by (simp add: server_task_def Some x)
  qed (use wf in \<open>simp add: server_task_def\<close>)
  then show ?thesis by (simp add: env_ok_def)
qed

lemma demo0_wf: "vc_wf vc_demo0"
  unfolding vc_demo0_def
  by (rule client_creat_spec [OF server_creat_wf [OF vc_initial_wf prod.collapse [symmetric]] prod.collapse [symmetric]])

lemma demo1_wf: "vc_wf vc_demo1"
  unfolding vc_demo1_def by (rule connect_wf [OF demo0_wf demo_task_ok prod.collapse [symmetric]])


text \<open>C19: In every sequence of calls from the zeroed tables, whatever the allocator, the semaphores and
  the other tasks do, each table entry holds its own descriptor or none, every node in use has a ring
  buffer in order and a semaphore, and every server in use has nonzero buffer sizes.\<close>

theorem vc_calls_keep_wf:
  assumes "list_all call_ok calls" and "vc_run calls vc_initial = Some s"
  shows "vc_wf s"
  using run_wf [OF vc_initial_wf assms] .

theorem vc_calls_keep_wf_witness:
  "vc_wf (the (vc_run [Server_Creat vc_demo_os None 80 8 8, Client_Creat vc_demo_os 8 8,
     Connect vc_demo_os (server_task vc_demo_os 256) 1 None 80, Write 1 (Some [1, 2]) 2, Destroy 1] vc_initial))"
  by (rule vc_calls_keep_wf [OF _ option.collapse [symmetric]]) (simp_all add: demo_task_ok)

text \<open>C15: Bytes written on one end of a connection are read on the other end, in order and after the bytes
  that were waiting; nothing is lost when they fit, and no other node changes.\<close>

theorem vc_transfer:
  assumes wf: "vc_wf s" and w: "vc_node_write_get f s = Some r" and r: "vc_node_read_get g s = Some r"
    and ok: "err_code (get_node s r) = QM_EOK" and data: "data \<noteq> []" "length data < 2 ^ 31"
    and fits: "length data \<le> rb_cap (ringbuf (get_node s r)) - rb_count (ringbuf (get_node s r))"
    and n: "0 < n" "n < 2 ^ 31" "n \<le> rb_count (ringbuf (get_node s r)) + length data"
  shows "\<exists>s1 s2. virtual_channel_write f (Some data) (word_of_nat (length data)) s = (int (length data), s1)
    \<and> virtual_channel_read env g True (word_of_nat n) s1
        = (int n, take n (rb_list (ringbuf (get_node s r)) @ data), s2)
    \<and> rb_list (ringbuf (get_node s2 r)) = drop n (rb_list (ringbuf (get_node s r)) @ data)
    \<and> (\<forall>r'. valid_ref r' \<longrightarrow> r' \<noteq> r \<longrightarrow> get_node s2 r' = get_node s r')"
proof -
  note v = read_getD(1) [OF r] and sh = vc_wf_shape [OF wf]
  obtain h where h: "virtual_channel_write f (Some data) (word_of_nat (length data)) s = (int (length data), upd_node r h s)"
    "\<forall>n. fd (h n) = fd n \<and> err_code (h n) = err_code n"
    "rb_list (ringbuf (h (get_node s r))) = rb_list (ringbuf (get_node s r)) @ data"
    using write_spec [OF wf w data fits] by blast
  let ?s1 = "upd_node r h s"
  have g1: "get_node ?s1 r' = (if r = r' then h (get_node s r) else get_node s r')" if "valid_ref r'" for r'
    using get_upd_node [OF sh v that] .
  have "vc_node_read_get g ?s1 = Some r" using get_upd_same_fd(3) [OF sh v, of h] h(2) r by simp
  from read_spec [OF write_wf [OF wf h(1)] this _ n(1,2), of env] obtain rb where rb:
    "virtual_channel_read env g True (word_of_nat n) ?s1
      = (int n, take n (rb_list (ringbuf (get_node s r)) @ data), upd_node r (\<lambda>n. n\<lparr>ringbuf := rb\<rparr>) ?s1)"
    "rb_list rb = drop n (rb_list (ringbuf (get_node s r)) @ data)"
    using g1 [OF v] h(2,3) ok n(3) by (auto simp del: take_append drop_append) 
  show ?thesis
    using h(1) rb get_upd_node [OF vc_shape_upd_node [OF sh] v] v g1 by (intro exI conjI) auto
qed

theorem vc_transfer_witness:
  "\<exists>s1 s2. virtual_channel_write 1 (Some [10, 20, 30]) (word_of_nat (length [10, 20, 30 :: u8])) vc_demo1 = (int (length [10, 20, 30 :: u8]), s1)
    \<and> virtual_channel_read (\<lambda>t. t) 257 True (word_of_nat 2) s1
        = (int 2, take 2 (rb_list (ringbuf (get_node vc_demo1 (Listen 0 0))) @ [10, 20, 30]), s2)"
proof -
  have "vc_node_write_get 1 vc_demo1 = Some (Listen 0 0)" "vc_node_read_get 257 vc_demo1 = Some (Listen 0 0)"
    "err_code (get_node vc_demo1 (Listen 0 0)) = QM_EOK"
    "length [10, 20, 30 :: u8] \<le> rb_cap (ringbuf (get_node vc_demo1 (Listen 0 0))) - rb_count (ringbuf (get_node vc_demo1 (Listen 0 0)))"
    by code_simp+
  from vc_transfer [OF demo1_wf this(1-3) _ _ this(4), of 2 "\<lambda>t. t"] show ?thesis by (simp, blast)
qed




text \<open>C32: Closing one end of a connection closes its descriptor and makes every read and every write on
  the other end fail with \<open>-QM_EIO\<close>, whether the client or the listener closes.\<close>

theorem vc_close_notifies_peer:
  assumes "vc_wf s" "vc_node_read_get f s = Some r" "vc_node_read_get g s = Some l" "vc_linked s f g"
    "err_code (get_node s r) = QM_EOK" "len \<noteq> 0"
  shows "\<exists>s'. virtual_channel_destroy f s = (QM_EOK, s') \<and> vc_node_read_get f s' = None
    \<and> virtual_channel_read env g True len s' = (- QM_EIO, [], s')
    \<and> virtual_channel_write g (Some data) len s' = (- QM_EIO, s')"
proof -
  note r = read_getD [OF assms(2)] and l = read_getD [OF assms(3)]
  have p: "vc_node_write_get (ref_fd r) s = Some l" "vc_node_write_get (ref_fd l) s = Some r"
    using assms(2-4) r(3) l(3) by (simp_all add: vc_linked_def)
  show ?thesis
    using destroy_linked [OF assms(1) r(1) p(1) assms(5)] closed_end_notified [OF assms(1) r(1) p assms(6)] r(3) l(3) by auto
qed

theorem vc_close_notifies_peer_witness:
  "\<exists>s'. virtual_channel_destroy 1 vc_demo1 = (QM_EOK, s') \<and> vc_node_read_get 1 s' = None
    \<and> virtual_channel_read (\<lambda>t. t) 257 True 4 s' = (- QM_EIO, [], s')
    \<and> virtual_channel_write 257 (Some [1]) 4 s' = (- QM_EIO, s')"
  by (rule vc_close_notifies_peer [OF demo1_wf, where r = "Client 0" and l = "Listen 0 0"]; code_simp)

text \<open>Destroying a server tells none of its clients: \<open>vc_server_destroy\<close> clears the server's
  descriptor first, so that \<open>vc_listen_destroy\<close> finds no node, and the accepted nodes are only zeroed, their
  buffers and semaphores not freed. The clients' nodes stay as they are, with no error set.\<close>

theorem vc_server_destroy_silent:
  assumes "vc_wf s" "vc_server_get f s = Some i"
  shows "\<exists>s'. virtual_channel_destroy f s = (QM_EOK, s') \<and> clients s' = clients s
    \<and> servers s' = (servers s)[i := zero_server]"
proof -
  have "vc_role_get f = VC_ROLE_SERVER" using server_getD(4) [OF assms(2)] by (simp add: vc_role_get_def)
  then show ?thesis using server_destroy_eq [OF assms] by (simp add: virtual_channel_destroy_def upd_server_def)
qed

theorem vc_server_destroy_silent_witness:
  "\<exists>s'. virtual_channel_destroy 256 vc_demo1 = (QM_EOK, s') \<and> clients s' = clients vc_demo1
    \<and> servers s' = (servers vc_demo1)[0 := zero_server]"
  by (rule vc_server_destroy_silent [OF demo1_wf]) code_simp

text \<open>An accept takes the first free slot even when no client asked through it: when a slot before
  the requesting client's was freed, the accept uses up the request, occupies that slot, returns 0 and
  changes no client, so the waiting client is never connected.\<close>

theorem vc_accept_misses_request:
  assumes wf: "vc_wf s" and sv: "vc_server_get f s = Some i" and sem: "accept_sem (servers s ! i) = Some (Suc k)"
    and os: "malloc_ok os" "sem_new_ret os = QM_EOK" "mutex_new_ret os = QM_EOK"
    and j: "first_index (\<lambda>n. fd n = 0) (nodes (servers s ! i)) = Some j" "client_fd (get_node s (Listen i j)) = 0"
  shows "\<exists>s'. virtual_channel_accept os env f s = Some (0, s') \<and> clients s' = clients s
    \<and> accept_sem (servers s' ! i) = Some k \<and> fd (get_node s' (Listen i j)) = f + (j + 1)"
proof -
  let ?t = "upd_server i (\<lambda>v. v\<lparr>accept_sem := Some k\<rparr>) s"
  have os': "os_ok os" using os by (simp add: os_ok_def)
  obtain g where g: "virtual_channel_accept os env f s =
      (let t = upd_node (Listen i j) g ?t
       in case vc_client_get (client_fd (get_node s (Listen i j))) s of
            None \<Rightarrow> Some (0, t)
          | Some r \<Rightarrow> Some (int (ref_fd (Listen i j)), node_signal r (upd_node r (\<lambda>n. n\<lparr>client_fd := ref_fd (Listen i j)\<rparr>) t)))"
    "\<forall>n. fd (g n) = ref_fd (Listen i j)" and L: "valid_ref (Listen i j)"
    by (rule accept_takes_slot [OF wf sv sem os' j(1), of env]) blast
  have "vc_client_get (client_fd (get_node s (Listen i j))) s = None" by (simp add: j(2) vc_client_get_def)
  then have "virtual_channel_accept os env f s = Some (0, upd_node (Listen i j) g ?t)" unfolding g(1) by simp
  moreover have "clients (upd_node (Listen i j) g ?t) = clients s" by (simp add: upd_node.simps)
  moreover have "accept_sem (servers (upd_node (Listen i j) g ?t) ! i) = Some k"
    using server_getD(2) [OF sv] vc_shape_lengths(1) [OF vc_wf_shape [OF wf]] by (simp add: nth_upd_server)
  moreover have "fd (get_node (upd_node (Listen i j) g ?t) (Listen i j)) = f + (j + 1)"
    using get_upd_node [OF _ L L, of ?t g] vc_wf_shape [OF wf] g(2) server_getD(4) [OF sv] by simp
  ultimately show ?thesis by blast
qed

text \<open>The connected client of \<open>vc_demo1\<close> is served by slot 0; a second client requests, through slot 1, and
  the server closes the first connection before it accepts.\<close>

definition vc_demo2 :: vc_state where
  "vc_demo2 = snd (virtual_channel_destroy 257 (snd (virtual_channel_connect vc_demo_os (\<lambda>t. t) 2 None 80
     (snd (virtual_channel_client_creat vc_demo_os 8 8 vc_demo1)))))"

lemma demo2_wf: "vc_wf vc_demo2"
proof -
  have "env_ok (\<lambda>t. t)" by (simp add: env_ok_def)
  then show ?thesis unfolding vc_demo2_def
    by (rule destroy_wf [OF connect_wf [OF client_creat_spec [OF demo1_wf prod.collapse [symmetric]] _ prod.collapse [symmetric]]
        prod.collapse [symmetric]])
qed

theorem vc_accept_misses_request_witness:
  "client_fd (get_node vc_demo2 (Listen 0 1)) = 2 \<and>
   (\<exists>s'. virtual_channel_accept vc_demo_os (\<lambda>t. t) 256 vc_demo2 = Some (0, s') \<and> clients s' = clients vc_demo2
    \<and> accept_sem (servers s' ! 0) = Some 0 \<and> fd (get_node s' (Listen 0 0)) = 256 + (0 + 1))"
  by (rule conjI, code_simp, rule vc_accept_misses_request [OF demo2_wf]; code_simp)

end
