(* ===== verification/Crc.thy ===== *)
theory Crc
  imports QM_Prelude
begin

text \<open>
  The checksums of \<^verbatim>\<open>utility/crc/qm_crc.c\<close> and \<^verbatim>\<open>utility/crc32/qm_utils_crc32.c\<close>. The routines of the first
  file share two loops, shifting right (bit-reflected) or left; their constants come from each routine.
  The data argument is the list of the bytes at the pointer, and \<open>len\<close> says how many of them are read.

  The reference is the division of polynomials over two elements, on lists of bits: a routine is correct
  when it returns the remainder for the polynomial, initial value, reflections and final mask that the
  comment above it names. The locale \<open>crc_engine\<close> holds the argument that a shift register divides, and is
  interpreted on both loops. The second file has a table-driven and a bitwise version of one function.
\<close>

unbundle bit_operations_syntax

section \<open>The routines\<close>

definition crc_right_step :: "'a::len word \<Rightarrow> 'a word \<Rightarrow> 'a word" where
  "crc_right_step poly crc = (if crc AND 1 \<noteq> 0 then drop_bit 1 crc XOR poly else drop_bit 1 crc)"

definition crc_left_step :: "'a::len word \<Rightarrow> 'a word \<Rightarrow> 'a word" where
  "crc_left_step poly crc =
     (if crc AND push_bit (LENGTH('a) - 1) 1 \<noteq> 0 then push_bit 1 crc XOR poly else push_bit 1 crc)"

fun crc_right :: "'a::len word \<Rightarrow> 'a word \<Rightarrow> u8 list \<Rightarrow> 'a word" where
  "crc_right poly crc [] = crc"
| "crc_right poly crc (d # ds) = crc_right poly ((crc_right_step poly ^^ 8) (crc XOR ucast d)) ds"

fun crc_left :: "'a::len word \<Rightarrow> 'a word \<Rightarrow> u8 list \<Rightarrow> 'a word" where
  "crc_left poly crc [] = crc"
| "crc_left poly crc (d # ds) =
     crc_left poly ((crc_left_step poly ^^ 8) (crc XOR push_bit (LENGTH('a) - 8) (ucast d))) ds"

definition qm_crc4_itu :: "u8 list \<Rightarrow> u16 \<Rightarrow> u8" where
  "qm_crc4_itu data len = crc_right 0x0C 0 (take (unat len) data)"

definition qm_crc5_epc :: "u8 list \<Rightarrow> u16 \<Rightarrow> u8" where
  "qm_crc5_epc data len = drop_bit 3 (crc_left 0x48 0x48 (take (unat len) data))"

definition qm_crc5_itu :: "u8 list \<Rightarrow> u16 \<Rightarrow> u8" where
  "qm_crc5_itu data len = crc_right 0x15 0 (take (unat len) data)"

definition qm_crc5_usb :: "u8 list \<Rightarrow> u16 \<Rightarrow> u8" where
  "qm_crc5_usb data len = crc_right 0x14 0x1F (take (unat len) data) XOR 0x1F"

definition qm_crc6_itu :: "u8 list \<Rightarrow> u16 \<Rightarrow> u8" where
  "qm_crc6_itu data len = crc_right 0x30 0 (take (unat len) data)"

definition qm_crc7_mmc :: "u8 list \<Rightarrow> u16 \<Rightarrow> u8" where
  "qm_crc7_mmc data len = drop_bit 1 (crc_left 0x12 0 (take (unat len) data))"

definition qm_crc8 :: "u8 list \<Rightarrow> u16 \<Rightarrow> u8" where
  "qm_crc8 data len = crc_left 0x07 0 (take (unat len) data)"

definition qm_crc8_itu :: "u8 list \<Rightarrow> u16 \<Rightarrow> u8" where
  "qm_crc8_itu data len = crc_left 0x07 0 (take (unat len) data) XOR 0x55"

definition qm_crc8_rohc :: "u8 list \<Rightarrow> u16 \<Rightarrow> u8" where
  "qm_crc8_rohc data len = crc_right 0xE0 0xFF (take (unat len) data)"

definition qm_crc8_maxim :: "u8 list \<Rightarrow> u16 \<Rightarrow> u8" where
  "qm_crc8_maxim data len = crc_right 0x8C 0 (take (unat len) data)"

definition qm_crc16_ibm :: "u8 list \<Rightarrow> u16 \<Rightarrow> u16" where
  "qm_crc16_ibm data len = crc_right 0xA001 0 (take (unat len) data)"

definition qm_crc16_maxim :: "u8 list \<Rightarrow> u16 \<Rightarrow> u16" where
  "qm_crc16_maxim data len = NOT (crc_right 0xA001 0 (take (unat len) data))"

definition qm_crc16_usb :: "u8 list \<Rightarrow> u16 \<Rightarrow> u16" where
  "qm_crc16_usb data len = NOT (crc_right 0xA001 0xffff (take (unat len) data))"

definition qm_crc16_modbus :: "u8 list \<Rightarrow> u16 \<Rightarrow> u16" where
  "qm_crc16_modbus data len = crc_right 0xA001 0xffff (take (unat len) data)"

definition qm_crc16_ccitt :: "u8 list \<Rightarrow> u16 \<Rightarrow> u16" where
  "qm_crc16_ccitt data len = crc_right 0x8408 0 (take (unat len) data)"

definition qm_crc16_ccitt_false :: "u8 list \<Rightarrow> u16 \<Rightarrow> u16" where
  "qm_crc16_ccitt_false data len = crc_left 0x1021 0xffff (take (unat len) data)"

definition qm_crc16_x25 :: "u8 list \<Rightarrow> u16 \<Rightarrow> u16" where
  "qm_crc16_x25 data len = NOT (crc_right 0x8408 0xffff (take (unat len) data))"

definition qm_crc16_xmodem :: "u8 list \<Rightarrow> u16 \<Rightarrow> u16" where
  "qm_crc16_xmodem data len = crc_left 0x1021 0 (take (unat len) data)"

definition qm_crc16_dnp :: "u8 list \<Rightarrow> u16 \<Rightarrow> u16" where
  "qm_crc16_dnp data len = NOT (crc_right 0xA6BC 0 (take (unat len) data))"

definition qm_ieee_crc32 :: "u8 list \<Rightarrow> u16 \<Rightarrow> u32" where
  "qm_ieee_crc32 data len = NOT (crc_right 0xEDB88320 0xffffffff (take (unat len) data))"

definition qm_crc32_mpeg_2 :: "u8 list \<Rightarrow> u16 \<Rightarrow> u32" where
  "qm_crc32_mpeg_2 data len = crc_left 0x04C11DB7 0xffffffff (take (unat len) data)"

section \<open>The 32-bit checksum with an initial value\<close>

definition crc32_tab :: "u32 list" where
  "crc32_tab = [
    0x00000000, 0x77073096, 0xee0e612c, 0x990951ba, 0x076dc419, 0x706af48f, 0xe963a535, 0x9e6495a3,
    0x0edb8832, 0x79dcb8a4, 0xe0d5e91e, 0x97d2d988, 0x09b64c2b, 0x7eb17cbd, 0xe7b82d07, 0x90bf1d91,
    0x1db71064, 0x6ab020f2, 0xf3b97148, 0x84be41de, 0x1adad47d, 0x6ddde4eb, 0xf4d4b551, 0x83d385c7,
    0x136c9856, 0x646ba8c0, 0xfd62f97a, 0x8a65c9ec, 0x14015c4f, 0x63066cd9, 0xfa0f3d63, 0x8d080df5,
    0x3b6e20c8, 0x4c69105e, 0xd56041e4, 0xa2677172, 0x3c03e4d1, 0x4b04d447, 0xd20d85fd, 0xa50ab56b,
    0x35b5a8fa, 0x42b2986c, 0xdbbbc9d6, 0xacbcf940, 0x32d86ce3, 0x45df5c75, 0xdcd60dcf, 0xabd13d59,
    0x26d930ac, 0x51de003a, 0xc8d75180, 0xbfd06116, 0x21b4f4b5, 0x56b3c423, 0xcfba9599, 0xb8bda50f,
    0x2802b89e, 0x5f058808, 0xc60cd9b2, 0xb10be924, 0x2f6f7c87, 0x58684c11, 0xc1611dab, 0xb6662d3d,
    0x76dc4190, 0x01db7106, 0x98d220bc, 0xefd5102a, 0x71b18589, 0x06b6b51f, 0x9fbfe4a5, 0xe8b8d433,
    0x7807c9a2, 0x0f00f934, 0x9609a88e, 0xe10e9818, 0x7f6a0dbb, 0x086d3d2d, 0x91646c97, 0xe6635c01,
    0x6b6b51f4, 0x1c6c6162, 0x856530d8, 0xf262004e, 0x6c0695ed, 0x1b01a57b, 0x8208f4c1, 0xf50fc457,
    0x65b0d9c6, 0x12b7e950, 0x8bbeb8ea, 0xfcb9887c, 0x62dd1ddf, 0x15da2d49, 0x8cd37cf3, 0xfbd44c65,
    0x4db26158, 0x3ab551ce, 0xa3bc0074, 0xd4bb30e2, 0x4adfa541, 0x3dd895d7, 0xa4d1c46d, 0xd3d6f4fb,
    0x4369e96a, 0x346ed9fc, 0xad678846, 0xda60b8d0, 0x44042d73, 0x33031de5, 0xaa0a4c5f, 0xdd0d7cc9,
    0x5005713c, 0x270241aa, 0xbe0b1010, 0xc90c2086, 0x5768b525, 0x206f85b3, 0xb966d409, 0xce61e49f,
    0x5edef90e, 0x29d9c998, 0xb0d09822, 0xc7d7a8b4, 0x59b33d17, 0x2eb40d81, 0xb7bd5c3b, 0xc0ba6cad,
    0xedb88320, 0x9abfb3b6, 0x03b6e20c, 0x74b1d29a, 0xead54739, 0x9dd277af, 0x04db2615, 0x73dc1683,
    0xe3630b12, 0x94643b84, 0x0d6d6a3e, 0x7a6a5aa8, 0xe40ecf0b, 0x9309ff9d, 0x0a00ae27, 0x7d079eb1,
    0xf00f9344, 0x8708a3d2, 0x1e01f268, 0x6906c2fe, 0xf762575d, 0x806567cb, 0x196c3671, 0x6e6b06e7,
    0xfed41b76, 0x89d32be0, 0x10da7a5a, 0x67dd4acc, 0xf9b9df6f, 0x8ebeeff9, 0x17b7be43, 0x60b08ed5,
    0xd6d6a3e8, 0xa1d1937e, 0x38d8c2c4, 0x4fdff252, 0xd1bb67f1, 0xa6bc5767, 0x3fb506dd, 0x48b2364b,
    0xd80d2bda, 0xaf0a1b4c, 0x36034af6, 0x41047a60, 0xdf60efc3, 0xa867df55, 0x316e8eef, 0x4669be79,
    0xcb61b38c, 0xbc66831a, 0x256fd2a0, 0x5268e236, 0xcc0c7795, 0xbb0b4703, 0x220216b9, 0x5505262f,
    0xc5ba3bbe, 0xb2bd0b28, 0x2bb45a92, 0x5cb36a04, 0xc2d7ffa7, 0xb5d0cf31, 0x2cd99e8b, 0x5bdeae1d,
    0x9b64c2b0, 0xec63f226, 0x756aa39c, 0x026d930a, 0x9c0906a9, 0xeb0e363f, 0x72076785, 0x05005713,
    0x95bf4a82, 0xe2b87a14, 0x7bb12bae, 0x0cb61b38, 0x92d28e9b, 0xe5d5be0d, 0x7cdcefb7, 0x0bdbdf21,
    0x86d3d2d4, 0xf1d4e242, 0x68ddb3f8, 0x1fda836e, 0x81be16cd, 0xf6b9265b, 0x6fb077e1, 0x18b74777,
    0x88085ae6, 0xff0f6a70, 0x66063bca, 0x11010b5c, 0x8f659eff, 0xf862ae69, 0x616bffd3, 0x166ccf45,
    0xa00ae278, 0xd70dd2ee, 0x4e048354, 0x3903b3c2, 0xa7672661, 0xd06016f7, 0x4969474d, 0x3e6e77db,
    0xaed16a4a, 0xd9d65adc, 0x40df0b66, 0x37d83bf0, 0xa9bcae53, 0xdebb9ec5, 0x47b2cf7f, 0x30b5ffe9,
    0xbdbdf21c, 0xcabac28a, 0x53b39330, 0x24b4a3a6, 0xbad03605, 0xcdd70693, 0x54de5729, 0x23d967bf,
    0xb3667a2e, 0xc4614ab8, 0x5d681b02, 0x2a6f2b94, 0xb40bbe37, 0xc30c8ea1, 0x5a05df1b, 0x2d02ef8d]"

fun crc32_fast_loop :: "u32 \<Rightarrow> u8 list \<Rightarrow> u32" where
  "crc32_fast_loop v [] = v"
| "crc32_fast_loop v (d # ds) = crc32_fast_loop (crc32_tab ! unat ((v XOR ucast d) AND 0xFF) XOR drop_bit 8 v) ds"

text \<open>The version compiled with \<^verbatim>\<open>FAST_CRC32\<close>.\<close>

definition qm_utils_crc32_fast :: "u8 list \<Rightarrow> u32 \<Rightarrow> u32 \<Rightarrow> u32" where
  "qm_utils_crc32_fast buf sz init_value = crc32_fast_loop (init_value XOR NOT 0) (take (unat sz) buf) XOR NOT 0"

definition crc32_step :: "u32 \<Rightarrow> u32" where
  "crc32_step crc = drop_bit 1 crc XOR (0xEDB88320 AND (if crc AND 1 \<noteq> 0 then 0xFFFFFFFF else 0))"

fun crc32_loop :: "u32 \<Rightarrow> u8 list \<Rightarrow> u32" where
  "crc32_loop crc [] = crc"
| "crc32_loop crc (d # ds) = crc32_loop ((crc32_step ^^ 8) (crc XOR ucast d)) ds"

definition qm_utils_crc32 :: "u8 list \<Rightarrow> u32 \<Rightarrow> u32 \<Rightarrow> u32" where
  "qm_utils_crc32 p_data sz init_crc =
     NOT (crc32_loop (if init_crc = 0 then 0xFFFFFFFF else NOT init_crc) (take (unat sz) p_data))"

section \<open>Division of polynomials\<close>

text \<open>Polynomials are lists of coefficients, the highest first.\<close>

fun xor_prefix :: "bool list \<Rightarrow> bool list \<Rightarrow> bool list" where
  "xor_prefix [] ys = ys"
| "xor_prefix (x # xs) [] = []"
| "xor_prefix (x # xs) (y # ys) = (x \<noteq> y) # xor_prefix xs ys"

lemma length_xor_prefix [simp]: "length (xor_prefix xs ys) = length ys"
  by (induction xs ys rule: xor_prefix.induct) simp_all

lemma xor_prefix_Nil [simp]: "xor_prefix xs [] = []"
  by (cases xs) simp_all

lemma nth_xor_prefix:
  "i < length ys \<Longrightarrow> xor_prefix xs ys ! i = (if i < length xs then xs ! i \<noteq> ys ! i else ys ! i)"
  by (induction xs ys arbitrary: i rule: xor_prefix.induct) (auto simp: nth_Cons split: nat.splits)

text \<open>
  Long division: \<open>p\<close> holds the coefficients below the leading one of the divisor, and the list that is
  left when it is no longer than \<open>p\<close> is the remainder.
\<close>

function poly_mod :: "bool list \<Rightarrow> bool list \<Rightarrow> bool list" where
  "poly_mod p [] = []"
| "poly_mod p (x # xs) =
     (if length xs < length p then x # xs else poly_mod p (if x then xor_prefix p xs else xs))"
  by pat_completeness auto
termination
  by (relation "measure (\<lambda>(p, xs). length xs)") auto

lemma poly_mod_small: "length xs \<le> length p \<Longrightarrow> poly_mod p xs = xs"
  by (cases xs) auto

lemma length_poly_mod: "length p \<le> length xs \<Longrightarrow> length (poly_mod p xs) = length p"
  by (induction p xs rule: poly_mod.induct) auto

lemma xor_prefix_comm: "xor_prefix a (xor_prefix b c) = xor_prefix b (xor_prefix a c)"
proof (induction a c arbitrary: b rule: xor_prefix.induct)
  case (3 x xs y ys)
  then show ?case by (cases b) auto
qed (auto split: list.splits)

lemma xor_prefix_assoc: "length a \<le> length c \<Longrightarrow> length b \<le> length a \<Longrightarrow> xor_prefix (xor_prefix b a) c = xor_prefix a (xor_prefix b c)"
proof (induction b a arbitrary: c rule: xor_prefix.induct)
  case (3 x xs y ys)
  then show ?case by (cases c) auto
qed auto

lemma xor_prefix_Falses [simp]: "xor_prefix (replicate n False) ys = ys"
  by (induction n arbitrary: ys) (simp, case_tac ys, auto)

lemma xor_prefix_pad: "xor_prefix (xs @ replicate k False) ys = xor_prefix xs ys"
  by (induction xs ys rule: xor_prefix.induct) simp_all

lemmas xor_prefix_snoc_False = xor_prefix_pad [of _ "Suc 0", simplified]

lemma xor_prefix_zero: "xor_prefix xs (replicate (length xs) False) = xs"
  by (induction xs) auto

lemma xor_prefix_short: "length xs \<le> length ys \<Longrightarrow> xor_prefix xs (ys @ vs) = xor_prefix xs ys @ vs"
  by (induction xs ys rule: xor_prefix.induct) auto

lemma poly_mod_padded: "poly_mod (p @ replicate k False) (xs @ replicate k False) = poly_mod p xs @ replicate k False"
proof (induction p xs rule: poly_mod.induct)
  case (2 p x xs)
  then show ?case by (cases "length xs < length p") (auto simp: xor_prefix_pad xor_prefix_short)
qed (simp add: poly_mod_small)

section \<open>Shift registers divide\<close>

fun crc_run :: "('r \<Rightarrow> 'r) \<Rightarrow> ('r \<Rightarrow> u8 \<Rightarrow> 'r) \<Rightarrow> 'r \<Rightarrow> u8 list \<Rightarrow> 'r" where
  "crc_run step inject r [] = r"
| "crc_run step inject r (d # ds) = crc_run step inject ((step ^^ 8) (inject r d)) ds"

text \<open>
  A register whose bits are shifted out one by one, the divisor being subtracted when a one leaves, and
  which takes in the bits of a byte at its outgoing end.
\<close>

locale crc_engine =
  fixes bits :: "'r \<Rightarrow> bool list" and step :: "'r \<Rightarrow> 'r" and inject :: "'r \<Rightarrow> u8 \<Rightarrow> 'r"
    and byte_bits :: "u8 \<Rightarrow> bool list" and poly :: "bool list"
  assumes length_bits: "length (bits r) = length poly"
    and width: "8 \<le> length poly"
    and length_byte: "length (byte_bits d) = 8"
    and bits_step: "bits (step r) =
      (if hd (bits r) then xor_prefix poly (tl (bits r) @ [False]) else tl (bits r) @ [False])"
    and bits_inject: "bits (inject r d) = xor_prefix (byte_bits d) (bits r)"
begin

lemma divide_step:
  assumes "length poly \<le> length ds"
  shows "poly_mod poly (xor_prefix (bits r) (False # ds)) = poly_mod poly (xor_prefix (bits (step r)) ds)"
proof -
  obtain b bs where r: "bits r = b # bs" using length_bits [of r] width by (cases "bits r") auto
  then have l: "length poly = Suc (length bs)" using length_bits [of r] by simp
  have "xor_prefix (xor_prefix poly (bs @ [False])) ds = xor_prefix (bs @ [False]) (xor_prefix poly ds)"
    using assms l by (intro xor_prefix_assoc) auto
  then show ?thesis
    using assms l by (simp add: r bits_step xor_prefix_snoc_False xor_prefix_comm)
qed

lemma divide_steps:
  "length poly \<le> length ds \<Longrightarrow>
    poly_mod poly (xor_prefix (bits r) (replicate n False @ ds)) = poly_mod poly (xor_prefix (bits ((step ^^ n) r)) ds)"
proof (induction n arbitrary: r)
  case (Suc n)
  then show ?case using divide_step [of "replicate n False @ ds" r] by (simp add: funpow_swap1)
qed simp

lemma divide_byte:
  assumes "length poly \<le> length ds"
  shows "poly_mod poly (xor_prefix (bits r) (byte_bits d @ ds))
    = poly_mod poly (xor_prefix (bits ((step ^^ 8) (inject r d))) ds)"
proof -
  have "byte_bits d @ ds = xor_prefix (byte_bits d) (replicate 8 False @ ds)"
    using xor_prefix_zero [of "byte_bits d"] by (simp add: xor_prefix_short length_byte)
  moreover have "xor_prefix (bits r) (xor_prefix (byte_bits d) (replicate 8 False @ ds))
      = xor_prefix (bits (inject r d)) (replicate 8 False @ ds)"
    unfolding bits_inject
    by (rule xor_prefix_assoc [symmetric]) (use assms width in \<open>simp_all add: length_byte length_bits\<close>)
  ultimately show ?thesis using divide_steps [OF assms] by simp
qed

lemma run_divides:
  "bits (crc_run step inject r ds)
    = poly_mod poly (xor_prefix (bits r) (concat (map byte_bits ds) @ replicate (length poly) False))"
proof (induction ds arbitrary: r)
  case Nil
  then show ?case using xor_prefix_zero [of "bits r"] by (simp add: length_bits poly_mod_small)
next
  case (Cons d ds)
  then show ?case using divide_byte [of "concat (map byte_bits ds) @ replicate (length poly) False"] by simp
qed

text \<open>A register that is wider than the divisor keeps its unused places zero.\<close>

lemma run_narrow:
  assumes "poly = p @ replicate k False" "bits r = i @ replicate k False"
  shows "bits (crc_run step inject r ds)
    = poly_mod p (xor_prefix i (concat (map byte_bits ds) @ replicate (length p) False)) @ replicate k False"
proof -
  let ?d = "concat (map byte_bits ds) @ replicate (length p) False"
  have "length i = length p" using length_bits [of r] assms by simp
  then have "xor_prefix i (?d @ replicate k False) = xor_prefix i ?d @ replicate k False"
    by (intro xor_prefix_short) simp
  then show ?thesis
    using poly_mod_padded [of p k "xor_prefix i ?d"]
    by (simp add: run_divides assms replicate_add xor_prefix_pad)
qed

end

section \<open>The two loops are such registers\<close>

definition bits_lsb :: "'a::len word \<Rightarrow> bool list" where
  "bits_lsb w = map (bit w) [0..<LENGTH('a)]"

definition bits_msb :: "'a::len word \<Rightarrow> bool list" where
  "bits_msb w = rev (bits_lsb w)"

lemma length_bits_lsb [simp]: "length (bits_lsb (w :: 'a::len word)) = LENGTH('a)"
  by (simp add: bits_lsb_def)

lemma length_bits_msb [simp]: "length (bits_msb (w :: 'a::len word)) = LENGTH('a)"
  by (simp add: bits_msb_def)

lemma nth_bits_lsb [simp]: "i < LENGTH('a) \<Longrightarrow> bits_lsb (w :: 'a::len word) ! i = bit w i"
  by (simp add: bits_lsb_def)

lemma nth_bits_msb [simp]: "i < LENGTH('a) \<Longrightarrow> bits_msb (w :: 'a::len word) ! i = bit w (LENGTH('a) - 1 - i)"
  by (simp add: bits_msb_def rev_nth)

lemma bits_lsb_inject: "bits_lsb v = bits_lsb w \<longleftrightarrow> v = (w :: 'a::len word)"
  by (auto simp: bits_lsb_def map_eq_conv bit_word_eqI)

lemma right_step_bits:
  "bits_lsb (crc_right_step p r) =
    (if hd (bits_lsb r) then xor_prefix (bits_lsb p) (tl (bits_lsb r) @ [False]) else tl (bits_lsb r) @ [False])"
  (is "_ = ?R")
proof (rule nth_equalityI)
  have hd: "hd (bits_lsb r) = odd r" by (simp add: bits_lsb_def hd_map bit_0)
  have t: "(tl (bits_lsb r) @ [False]) ! i = bit r (Suc i)" if "i < LENGTH('a)" for i
    using that bit_imp_le_length [of r "Suc i"] by (auto simp: nth_append nth_tl less_diff_conv)
  show "length (bits_lsb (crc_right_step p r)) = length ?R" by (auto simp: Suc_leI)
  fix i
  assume "i < length (bits_lsb (crc_right_step p r))"
  then have i: "i < LENGTH('a)" by simp
  then have "i < length (tl (bits_lsb r) @ [False])" by (simp add: Suc_leI)
  from nth_xor_prefix [OF this, of "bits_lsb p"] show "bits_lsb (crc_right_step p r) ! i = ?R ! i"
    using i t [OF i] by (auto simp: hd crc_right_step_def bit_simps and_one_eq mod_2_eq_odd)
qed

lemma left_step_bits:
  "bits_msb (crc_left_step p r) =
    (if hd (bits_msb r) then xor_prefix (bits_msb p) (tl (bits_msb r) @ [False]) else tl (bits_msb r) @ [False])"
  (is "_ = ?R")
proof (rule nth_equalityI)
  have hd: "hd (bits_msb r) = bit r (LENGTH('a) - 1)" by (simp add: hd_conv_nth flip: length_greater_0_conv)
  have t: "(tl (bits_msb r) @ [False]) ! i = (Suc i < LENGTH('a) \<and> bit r (LENGTH('a) - 1 - Suc i))" if "i < LENGTH('a)" for i
    using that by (auto simp: nth_append nth_tl less_diff_conv)
  have m: "r AND push_bit (LENGTH('a) - 1) 1 \<noteq> 0 \<longleftrightarrow> bit r (LENGTH('a) - 1)"
    by (simp only: bit_iff_and_push_bit_not_eq_0)
  have st: "bit (crc_left_step p r) k \<longleftrightarrow> (bit r (LENGTH('a) - 1) \<and> bit p k) \<noteq> (0 < k \<and> bit r (k - 1))" if "k < LENGTH('a)" for k
    using that unfolding crc_left_step_def m 
    by (cases "bit r (LENGTH('a) - 1)") (simp_all only: if_True if_False bit_xor_iff bit_push_bit_iff possible_bit_word, auto)
  show "length (bits_msb (crc_left_step p r)) = length ?R" by (auto simp: Suc_leI)
  fix i
  assume "i < length (bits_msb (crc_left_step p r))"
  then have i: "i < LENGTH('a)" by simp
  then have "i < length (tl (bits_msb r) @ [False])" by (simp add: Suc_leI)
  from nth_xor_prefix [OF this, of "bits_msb p"] show "bits_msb (crc_left_step p r) ! i = ?R ! i"
    using i t [OF i] st [of "LENGTH('a) - 1 - i"] by (auto simp: hd)
qed

lemma right_inject_bits:
  assumes "8 \<le> LENGTH('a::len)"
  shows "bits_lsb ((r :: 'a word) XOR ucast (d :: u8)) = xor_prefix (bits_lsb d) (bits_lsb r)"
  using assms by (intro nth_equalityI) (auto simp: nth_xor_prefix bit_simps dest: bit_imp_le_length)

lemma left_inject_bits:
  assumes "8 \<le> LENGTH('a::len)"
  shows "bits_msb ((r :: 'a word) XOR push_bit (LENGTH('a) - 8) (ucast (d :: u8))) = xor_prefix (bits_msb d) (bits_msb r)"
proof (rule nth_equalityI)
  fix i
  assume "i < length (bits_msb (r XOR push_bit (LENGTH('a) - 8) (ucast d)))"
  then have "i < LENGTH('a)" by simp
  with assms show "bits_msb (r XOR push_bit (LENGTH('a) - 8) (ucast d)) ! i = xor_prefix (bits_msb d) (bits_msb r) ! i"
    by (cases "i < 8") (auto simp: nth_xor_prefix bit_simps not_less dest: bit_imp_le_length)
qed simp

lemma crc_right_run: "crc_right p r ds = crc_run (crc_right_step p) (\<lambda>r d. r XOR ucast d) r ds"
  by (induction ds arbitrary: r) simp_all

lemma crc_left_run:
  "crc_left p r ds = crc_run (crc_left_step p) (\<lambda>r d. r XOR push_bit (LENGTH('a) - 8) (ucast d)) (r :: 'a::len word) ds"
  by (induction ds arbitrary: r) simp_all

lemma right_engine: "8 \<le> LENGTH('a::len) \<Longrightarrow> crc_engine bits_lsb (crc_right_step p) (\<lambda>r d. r XOR ucast d) bits_lsb (bits_lsb (p :: 'a word))"
  by unfold_locales (simp_all add: right_step_bits right_inject_bits)

lemma left_engine:
  "8 \<le> LENGTH('a::len) \<Longrightarrow>
    crc_engine bits_msb (crc_left_step p) (\<lambda>r d. r XOR push_bit (LENGTH('a) - 8) (ucast d)) bits_msb (bits_msb (p :: 'a word))"
  by unfold_locales (simp_all add: left_step_bits left_inject_bits)

interpretation r8: crc_engine bits_lsb "crc_right_step p" "\<lambda>r d. r XOR ucast d" bits_lsb "bits_lsb p" for p :: u8
  by (rule right_engine) simp

interpretation r16: crc_engine bits_lsb "crc_right_step p" "\<lambda>r d. r XOR ucast d" bits_lsb "bits_lsb p" for p :: u16
  by (rule right_engine) simp

interpretation r32: crc_engine bits_lsb "crc_right_step p" "\<lambda>r d. r XOR ucast d" bits_lsb "bits_lsb p" for p :: u32
  by (rule right_engine) simp

interpretation l8: crc_engine bits_msb "crc_left_step p" "\<lambda>r d. r XOR push_bit (LENGTH(8) - 8) (ucast d)" bits_msb "bits_msb p" for p :: u8
  by (rule left_engine) simp

interpretation l16: crc_engine bits_msb "crc_left_step p" "\<lambda>r d. r XOR push_bit (LENGTH(16) - 8) (ucast d)" bits_msb "bits_msb p" for p :: u16
  by (rule left_engine) simp

interpretation l32: crc_engine bits_msb "crc_left_step p" "\<lambda>r d. r XOR push_bit (LENGTH(32) - 8) (ucast d)" bits_msb "bits_msb p" for p :: u32
  by (rule left_engine) simp

section \<open>The checksum a comment describes\<close>

text \<open>
  The parameters are those of the comments: the width, the divisor without its leading coefficient, the
  initial value, whether input bytes and the result are reflected, and the mask of the result.
\<close>

definition num_bits :: "nat \<Rightarrow> nat \<Rightarrow> bool list" where
  "num_bits w n = map (bit n) (rev [0..<w])"

definition bits_num :: "bool list \<Rightarrow> nat" where
  "bits_num bs = horner_sum of_bool 2 (rev bs)"

definition crc_spec :: "nat \<Rightarrow> nat \<Rightarrow> nat \<Rightarrow> bool \<Rightarrow> bool \<Rightarrow> nat \<Rightarrow> u8 list \<Rightarrow> nat" where
  "crc_spec w poly init refin refout xorout data =
     (let msg = concat (map (if refin then bits_lsb else bits_msb) data);
          rem = poly_mod (num_bits w poly) (xor_prefix (num_bits w init) (msg @ replicate w False))
      in bits_num (if refout then rev rem else rem) XOR xorout)"

lemma length_num_bits [simp]: "length (num_bits w n) = w"
  by (simp add: num_bits_def)

lemma unat_bits_msb: "unat w = bits_num (bits_msb w)"
proof -
  have "bits_num (bits_msb w) = horner_sum of_bool 2 (map (bit (unat w)) [0..<LENGTH('a)])"
    by (simp add: bits_num_def bits_msb_def bits_lsb_def bit_unsigned_iff cong: map_cong)
  also have "\<dots> = take_bit LENGTH('a) (unat w)" by (rule horner_sum_bit_eq_take_bit)
  finally show ?thesis by (simp add: take_bit_nat_eq_self)
qed

lemma bits_num_padded: "bits_num (xs @ replicate k False) = 2 ^ k * bits_num xs"
  by (induction k) (simp_all add: bits_num_def horner_sum_append)

lemma bits_num_leading: "bits_num (replicate k False @ xs) = bits_num xs"
proof -
  have "horner_sum of_bool 2 (replicate k False) = (0 :: nat)" by (induction k) simp_all
  then show ?thesis by (simp add: bits_num_def horner_sum_append)
qed

lemma left_out: "bits_msb x = rem @ replicate k False \<Longrightarrow> unat (drop_bit k x) = bits_num rem"
  unfolding unat_drop_bit_eq by (simp add: drop_bit_eq_div unat_bits_msb [of x] bits_num_padded)

lemma right_out: "bits_lsb x = rem @ replicate k False \<Longrightarrow> unat x = bits_num (rev rem)"
  by (simp add: unat_bits_msb bits_msb_def bits_num_leading)

lemmas engine_out =
  left_out [OF l8.run_narrow, folded crc_left_run] left_out [OF l16.run_narrow, folded crc_left_run]
  left_out [OF l32.run_narrow, folded crc_left_run] right_out [OF r8.run_narrow, folded crc_right_run]
  right_out [OF r16.run_narrow, folded crc_right_run] right_out [OF r32.run_narrow, folded crc_right_run]

lemma unat_xor: "unat (v XOR w) = unat v XOR unat w" for v w :: "'a::len word"
  by (rule bit_eqI) (simp add: bit_simps)

lemma unat_not: "unat (NOT (x :: u16)) = unat x XOR 0xFFFF" "unat (NOT (y :: u32)) = unat y XOR 0xFFFFFFFF"
proof -
  have ones: "(- 1 :: u16) = 0xFFFF" "(- 1 :: u32) = 0xFFFFFFFF" by simp_all
  have "NOT x = x XOR 0xFFFF" "NOT y = y XOR 0xFFFFFFFF" unfolding ones [symmetric] by simp_all
  then show "unat (NOT x) = unat x XOR 0xFFFF" "unat (NOT y) = unat y XOR 0xFFFFFFFF" by (simp_all add: unat_xor)
qed

lemma padding: "replicate 2 False = [False, False]" "replicate 3 False = [False, False, False]"
    "replicate 4 False = [False, False, False, False]"
  by (simp_all add: eval_nat_numeral)

lemmas bit_patterns = bits_lsb_def bits_msb_def num_bits_def upt_rec bit_0 padding

lemma qm_crc4_itu_doc: "unat (qm_crc4_itu data len) = crc_spec 4 0x3 0 True True 0 (take (unat len) data)"
proof -
  have "bits_lsb (0x0C :: u8) = num_bits 4 0x3 @ replicate 4 False" "bits_lsb (0 :: u8) = num_bits 4 0x0 @ replicate 4 False"
    by (simp_all add: bit_patterns)
  from engine_out(4) [OF this, of "take (unat len) data"] show ?thesis
    by (simp add: qm_crc4_itu_def crc_spec_def)
qed

lemma qm_crc5_epc_doc: "unat (qm_crc5_epc data len) = crc_spec 5 0x9 0x9 False False 0 (take (unat len) data)"
proof -
  have "bits_msb (0x48 :: u8) = num_bits 5 0x9 @ replicate 3 False" "bits_msb (0x48 :: u8) = num_bits 5 0x9 @ replicate 3 False"
    by (simp_all add: bit_patterns)
  from engine_out(1) [OF this, of "take (unat len) data"] show ?thesis
    by (simp add: qm_crc5_epc_def crc_spec_def)
qed

lemma qm_crc5_itu_doc: "unat (qm_crc5_itu data len) = crc_spec 5 0x15 0 True True 0 (take (unat len) data)"
proof -
  have "bits_lsb (0x15 :: u8) = num_bits 5 0x15 @ replicate 3 False" "bits_lsb (0 :: u8) = num_bits 5 0x0 @ replicate 3 False"
    by (simp_all add: bit_patterns)
  from engine_out(4) [OF this, of "take (unat len) data"] show ?thesis
    by (simp add: qm_crc5_itu_def crc_spec_def)
qed

lemma qm_crc5_usb_doc: "unat (qm_crc5_usb data len) = crc_spec 5 0x5 0x1f True True 0x1f (take (unat len) data)"
proof -
  have "bits_lsb (0x14 :: u8) = num_bits 5 0x5 @ replicate 3 False" "bits_lsb (0x1F :: u8) = num_bits 5 0x1f @ replicate 3 False"
    by (simp_all add: bit_patterns)
  from engine_out(4) [OF this, of "take (unat len) data"] show ?thesis
    by (simp add: qm_crc5_usb_def crc_spec_def unat_xor)
qed

lemma qm_crc6_itu_doc: "unat (qm_crc6_itu data len) = crc_spec 6 0x3 0 True True 0 (take (unat len) data)"
proof -
  have "bits_lsb (0x30 :: u8) = num_bits 6 0x3 @ replicate 2 False" "bits_lsb (0 :: u8) = num_bits 6 0x0 @ replicate 2 False"
    by (simp_all add: bit_patterns)
  from engine_out(4) [OF this, of "take (unat len) data"] show ?thesis
    by (simp add: qm_crc6_itu_def crc_spec_def)
qed

lemma qm_crc7_mmc_doc: "unat (qm_crc7_mmc data len) = crc_spec 7 0x9 0 False False 0 (take (unat len) data)"
proof -
  have "bits_msb (0x12 :: u8) = num_bits 7 0x9 @ replicate 1 False" "bits_msb (0 :: u8) = num_bits 7 0x0 @ replicate 1 False"
    by (simp_all add: bit_patterns)
  from engine_out(1) [OF this, of "take (unat len) data"] show ?thesis
    by (simp add: qm_crc7_mmc_def crc_spec_def)
qed

lemma qm_crc8_doc: "unat (qm_crc8 data len) = crc_spec 8 0x7 0 False False 0 (take (unat len) data)"
proof -
  have "bits_msb (0x07 :: u8) = num_bits 8 0x7 @ replicate 0 False" "bits_msb (0 :: u8) = num_bits 8 0x0 @ replicate 0 False"
    by (simp_all add: bit_patterns)
  from engine_out(1) [OF this, of "take (unat len) data"] show ?thesis
    by (simp add: qm_crc8_def crc_spec_def)
qed

lemma qm_crc8_itu_doc: "unat (qm_crc8_itu data len) = crc_spec 8 0x7 0 False False 0x55 (take (unat len) data)"
proof -
  have "bits_msb (0x07 :: u8) = num_bits 8 0x7 @ replicate 0 False" "bits_msb (0 :: u8) = num_bits 8 0x0 @ replicate 0 False"
    by (simp_all add: bit_patterns)
  from engine_out(1) [OF this, of "take (unat len) data"] show ?thesis
    by (simp add: qm_crc8_itu_def crc_spec_def unat_xor)
qed

lemma qm_crc8_rohc_doc: "unat (qm_crc8_rohc data len) = crc_spec 8 0x7 0xff True True 0 (take (unat len) data)"
proof -
  have "bits_lsb (0xE0 :: u8) = num_bits 8 0x7 @ replicate 0 False" "bits_lsb (0xFF :: u8) = num_bits 8 0xff @ replicate 0 False"
    by (simp_all add: bit_patterns)
  from engine_out(4) [OF this, of "take (unat len) data"] show ?thesis
    by (simp add: qm_crc8_rohc_def crc_spec_def)
qed

lemma qm_crc8_maxim_doc: "unat (qm_crc8_maxim data len) = crc_spec 8 0x31 0 True True 0 (take (unat len) data)"
proof -
  have "bits_lsb (0x8C :: u8) = num_bits 8 0x31 @ replicate 0 False" "bits_lsb (0 :: u8) = num_bits 8 0x0 @ replicate 0 False"
    by (simp_all add: bit_patterns)
  from engine_out(4) [OF this, of "take (unat len) data"] show ?thesis
    by (simp add: qm_crc8_maxim_def crc_spec_def)
qed

lemma qm_crc16_ibm_doc: "unat (qm_crc16_ibm data len) = crc_spec 16 0x8005 0 True True 0 (take (unat len) data)"
proof -
  have "bits_lsb (0xA001 :: u16) = num_bits 16 0x8005 @ replicate 0 False" "bits_lsb (0 :: u16) = num_bits 16 0x0 @ replicate 0 False"
    by (simp_all add: bit_patterns)
  from engine_out(5) [OF this, of "take (unat len) data"] show ?thesis
    by (simp add: qm_crc16_ibm_def crc_spec_def)
qed

lemma qm_crc16_maxim_doc: "unat (qm_crc16_maxim data len) = crc_spec 16 0x8005 0 True True 0xffff (take (unat len) data)"
proof -
  have "bits_lsb (0xA001 :: u16) = num_bits 16 0x8005 @ replicate 0 False" "bits_lsb (0 :: u16) = num_bits 16 0x0 @ replicate 0 False"
    by (simp_all add: bit_patterns)
  from engine_out(5) [OF this, of "take (unat len) data"] show ?thesis
    by (simp add: qm_crc16_maxim_def crc_spec_def unat_not)
qed

lemma qm_crc16_usb_doc: "unat (qm_crc16_usb data len) = crc_spec 16 0x8005 0xffff True True 0xffff (take (unat len) data)"
proof -
  have "bits_lsb (0xA001 :: u16) = num_bits 16 0x8005 @ replicate 0 False" "bits_lsb (0xffff :: u16) = num_bits 16 0xffff @ replicate 0 False"
    by (simp_all add: bit_patterns)
  from engine_out(5) [OF this, of "take (unat len) data"] show ?thesis
    by (simp add: qm_crc16_usb_def crc_spec_def unat_not)
qed

lemma qm_crc16_modbus_doc: "unat (qm_crc16_modbus data len) = crc_spec 16 0x8005 0xffff True True 0 (take (unat len) data)"
proof -
  have "bits_lsb (0xA001 :: u16) = num_bits 16 0x8005 @ replicate 0 False" "bits_lsb (0xffff :: u16) = num_bits 16 0xffff @ replicate 0 False"
    by (simp_all add: bit_patterns)
  from engine_out(5) [OF this, of "take (unat len) data"] show ?thesis
    by (simp add: qm_crc16_modbus_def crc_spec_def)
qed

lemma qm_crc16_ccitt_doc: "unat (qm_crc16_ccitt data len) = crc_spec 16 0x1021 0 True True 0 (take (unat len) data)"
proof -
  have "bits_lsb (0x8408 :: u16) = num_bits 16 0x1021 @ replicate 0 False" "bits_lsb (0 :: u16) = num_bits 16 0x0 @ replicate 0 False"
    by (simp_all add: bit_patterns)
  from engine_out(5) [OF this, of "take (unat len) data"] show ?thesis
    by (simp add: qm_crc16_ccitt_def crc_spec_def)
qed

lemma qm_crc16_ccitt_false_doc: "unat (qm_crc16_ccitt_false data len) = crc_spec 16 0x1021 0xffff False False 0 (take (unat len) data)"
proof -
  have "bits_msb (0x1021 :: u16) = num_bits 16 0x1021 @ replicate 0 False" "bits_msb (0xffff :: u16) = num_bits 16 0xffff @ replicate 0 False"
    by (simp_all add: bit_patterns)
  from engine_out(2) [OF this, of "take (unat len) data"] show ?thesis
    by (simp add: qm_crc16_ccitt_false_def crc_spec_def)
qed

lemma qm_crc16_x25_doc: "unat (qm_crc16_x25 data len) = crc_spec 16 0x1021 0xffff True True 0xffff (take (unat len) data)"
proof -
  have "bits_lsb (0x8408 :: u16) = num_bits 16 0x1021 @ replicate 0 False" "bits_lsb (0xffff :: u16) = num_bits 16 0xffff @ replicate 0 False"
    by (simp_all add: bit_patterns)
  from engine_out(5) [OF this, of "take (unat len) data"] show ?thesis
    by (simp add: qm_crc16_x25_def crc_spec_def unat_not)
qed

lemma qm_crc16_xmodem_doc: "unat (qm_crc16_xmodem data len) = crc_spec 16 0x1021 0 False False 0 (take (unat len) data)"
proof -
  have "bits_msb (0x1021 :: u16) = num_bits 16 0x1021 @ replicate 0 False" "bits_msb (0 :: u16) = num_bits 16 0x0 @ replicate 0 False"
    by (simp_all add: bit_patterns)
  from engine_out(2) [OF this, of "take (unat len) data"] show ?thesis
    by (simp add: qm_crc16_xmodem_def crc_spec_def)
qed

lemma qm_crc16_dnp_doc: "unat (qm_crc16_dnp data len) = crc_spec 16 0x3d65 0 True True 0xffff (take (unat len) data)"
proof -
  have "bits_lsb (0xA6BC :: u16) = num_bits 16 0x3d65 @ replicate 0 False" "bits_lsb (0 :: u16) = num_bits 16 0x0 @ replicate 0 False"
    by (simp_all add: bit_patterns)
  from engine_out(5) [OF this, of "take (unat len) data"] show ?thesis
    by (simp add: qm_crc16_dnp_def crc_spec_def unat_not)
qed

lemma qm_ieee_crc32_doc: "unat (qm_ieee_crc32 data len) = crc_spec 32 0x4c11db7 0xffffffff True True 0xffffffff (take (unat len) data)"
proof -
  have "bits_lsb (0xEDB88320 :: u32) = num_bits 32 0x4c11db7 @ replicate 0 False" "bits_lsb (0xffffffff :: u32) = num_bits 32 0xffffffff @ replicate 0 False"
    by (simp_all add: bit_patterns)
  from engine_out(6) [OF this, of "take (unat len) data"] show ?thesis
    by (simp add: qm_ieee_crc32_def crc_spec_def unat_not)
qed

lemma qm_crc32_mpeg_2_doc: "unat (qm_crc32_mpeg_2 data len) = crc_spec 32 0x4c11db7 0xffffffff False False 0 (take (unat len) data)"
proof -
  have "bits_msb (0x04C11DB7 :: u32) = num_bits 32 0x4c11db7 @ replicate 0 False" "bits_msb (0xffffffff :: u32) = num_bits 32 0xffffffff @ replicate 0 False"
    by (simp_all add: bit_patterns)
  from engine_out(3) [OF this, of "take (unat len) data"] show ?thesis
    by (simp add: qm_crc32_mpeg_2_def crc_spec_def)
qed

text \<open>C7: Each checksum routine of \<^verbatim>\<open>qm_crc.c\<close> returns the checksum its comment documents: the
  remainder of the message polynomial, with the documented divisor, initial value, reflections and mask.
  For the two 32-bit routines the initial value and mask are the eight-digit ones; the comments have seven.\<close>

theorem crc_routines_divide:
  "unat (qm_crc4_itu data len) = crc_spec 4 0x3 0 True True 0 (take (unat len) data)
   \<and> unat (qm_crc5_epc data len) = crc_spec 5 0x9 0x9 False False 0 (take (unat len) data)
   \<and> unat (qm_crc5_itu data len) = crc_spec 5 0x15 0 True True 0 (take (unat len) data)
   \<and> unat (qm_crc5_usb data len) = crc_spec 5 0x5 0x1f True True 0x1f (take (unat len) data)
   \<and> unat (qm_crc6_itu data len) = crc_spec 6 0x3 0 True True 0 (take (unat len) data)
   \<and> unat (qm_crc7_mmc data len) = crc_spec 7 0x9 0 False False 0 (take (unat len) data)
   \<and> unat (qm_crc8 data len) = crc_spec 8 0x7 0 False False 0 (take (unat len) data)
   \<and> unat (qm_crc8_itu data len) = crc_spec 8 0x7 0 False False 0x55 (take (unat len) data)
   \<and> unat (qm_crc8_rohc data len) = crc_spec 8 0x7 0xff True True 0 (take (unat len) data)
   \<and> unat (qm_crc8_maxim data len) = crc_spec 8 0x31 0 True True 0 (take (unat len) data)
   \<and> unat (qm_crc16_ibm data len) = crc_spec 16 0x8005 0 True True 0 (take (unat len) data)
   \<and> unat (qm_crc16_maxim data len) = crc_spec 16 0x8005 0 True True 0xffff (take (unat len) data)
   \<and> unat (qm_crc16_usb data len) = crc_spec 16 0x8005 0xffff True True 0xffff (take (unat len) data)
   \<and> unat (qm_crc16_modbus data len) = crc_spec 16 0x8005 0xffff True True 0 (take (unat len) data)
   \<and> unat (qm_crc16_ccitt data len) = crc_spec 16 0x1021 0 True True 0 (take (unat len) data)
   \<and> unat (qm_crc16_ccitt_false data len) = crc_spec 16 0x1021 0xffff False False 0 (take (unat len) data)
   \<and> unat (qm_crc16_x25 data len) = crc_spec 16 0x1021 0xffff True True 0xffff (take (unat len) data)
   \<and> unat (qm_crc16_xmodem data len) = crc_spec 16 0x1021 0 False False 0 (take (unat len) data)
   \<and> unat (qm_crc16_dnp data len) = crc_spec 16 0x3d65 0 True True 0xffff (take (unat len) data)
   \<and> unat (qm_ieee_crc32 data len) = crc_spec 32 0x4c11db7 0xffffffff True True 0xffffffff (take (unat len) data)
   \<and> unat (qm_crc32_mpeg_2 data len) = crc_spec 32 0x4c11db7 0xffffffff False False 0 (take (unat len) data)"
  by (intro conjI qm_crc4_itu_doc qm_crc5_epc_doc qm_crc5_itu_doc qm_crc5_usb_doc qm_crc6_itu_doc qm_crc7_mmc_doc qm_crc8_doc qm_crc8_itu_doc qm_crc8_rohc_doc qm_crc8_maxim_doc qm_crc16_ibm_doc qm_crc16_maxim_doc qm_crc16_usb_doc qm_crc16_modbus_doc qm_crc16_ccitt_doc qm_crc16_ccitt_false_doc qm_crc16_x25_doc qm_crc16_xmodem_doc qm_crc16_dnp_doc qm_ieee_crc32_doc qm_crc32_mpeg_2_doc)

section \<open>The table-driven version\<close>

lemma right_step_xor: "crc_right_step p (x XOR y) = crc_right_step p x XOR crc_right_step p y"
  by (rule bit_word_eqI)
    (auto simp: crc_right_step_def bit_simps and_one_eq mod_2_eq_odd even_xor_iff)

lemma right_steps_xor: "(crc_right_step p ^^ n) (x XOR y) = (crc_right_step p ^^ n) x XOR (crc_right_step p ^^ n) y"
  by (induction n) (simp_all add: right_step_xor)

lemma right_steps_even: "(crc_right_step p ^^ n) (push_bit n x) = x" if "\<And>k. bit x k \<Longrightarrow> k + n < LENGTH('a)" for x :: "'a::len word"
  using that
proof (induction n)
  case (Suc n)
  have "crc_right_step p (push_bit (Suc n) x) = push_bit n x"
  proof (rule bit_word_eqI)
    show "bit (crc_right_step p (push_bit (Suc n) x)) m = bit (push_bit n x) m" if "m < LENGTH('a)" for m
      using that Suc.prems [of "m - n"]
      by (auto simp: crc_right_step_def bit_simps and_one_eq mod_2_eq_odd even_push_bit_iff simp del: push_bit_Suc)
  qed
  moreover have "(crc_right_step p ^^ n) (push_bit n x) = x"
    by (rule Suc.IH) (drule Suc.prems, simp)
  ultimately show ?case by (simp add: funpow_swap1 del: push_bit_Suc)
qed simp

lemma crc32_step_right: "crc32_step = crc_right_step 0xEDB88320"
  by (rule ext, rule bit_word_eqI) (auto simp: crc32_step_def crc_right_step_def)

lemma crc32_loop_right: "crc32_loop = crc_right 0xEDB88320"
proof (intro ext)
  show "crc32_loop crc ds = crc_right 0xEDB88320 crc ds" for crc ds
    by (induction ds arbitrary: crc) (simp_all add: crc32_step_right)
qed

text \<open>
  The table holds the effect of eight steps on each byte. As the steps respect exclusive or, the entries of
  the powers of two determine the others: each doubles the table.
\<close>

abbreviation crc32_byte :: "u32 \<Rightarrow> u32" where
  "crc32_byte \<equiv> crc_right_step 0xEDB88320 ^^ 8"

definition table_doubling :: "u32 \<Rightarrow> u32 list \<Rightarrow> u32 list" where
  "table_doubling b t = t @ map ((XOR) b) t"

lemma doubling_table:
  assumes "k \<le> 32"
  shows "fold table_doubling (map (\<lambda>i. crc32_byte (2 ^ i)) [0..<k]) [0] = map (\<lambda>i. crc32_byte (word_of_nat i)) [0..<2 ^ k]"
  using assms
proof (induction k)
  case 0
  then show ?case using right_steps_xor [where p = "0xEDB88320" and n = 8 and x = 0 and y = 0] by simp
next
  case (Suc k)
  have "word_of_nat (2 ^ k + i) = 2 ^ k XOR (word_of_nat i :: u32)" if "i < 2 ^ k" for i
  proof -
    have "take_bit k i = i" using that by (simp add: take_bit_nat_eq_self)
    then have "\<not> bit i k" by (metis bit_take_bit_iff less_irrefl)
    then have "2 ^ k AND i = 0" by (intro bit_eqI) (auto simp: bit_simps)
    then show ?thesis by (simp add: disjunctive_add_eq_xor of_nat_xor_eq)
  qed
  then have "map (\<lambda>i. crc32_byte (word_of_nat (2 ^ k + i))) [0..<2 ^ k]
      = map (\<lambda>i. crc32_byte (2 ^ k) XOR crc32_byte (word_of_nat i)) [0..<2 ^ k]"
    by (simp add: right_steps_xor del: of_nat_add)
  moreover have "[0..<2 ^ Suc k] = [0..<2 ^ k] @ map (\<lambda>i. 2 ^ k + i) [0..<2 ^ k]"
    by (rule nth_equalityI) (auto simp: nth_append)
  ultimately show ?case using Suc by (simp add: table_doubling_def comp_def del: of_nat_add)
qed

lemma crc32_basis: "map (\<lambda>i. crc32_byte (2 ^ i)) [0..<8] = map ((!) crc32_tab) [1, 2, 4, 8, 16, 32, 64, 128]"
  by code_simp

lemma crc32_tab_doubling: "fold table_doubling (map ((!) crc32_tab) [1, 2, 4, 8, 16, 32, 64, 128]) [0] = crc32_tab"
  by (simp add: crc32_tab_def table_doubling_def)

lemma crc32_tab_nth: "i < 256 \<Longrightarrow> crc32_tab ! i = crc32_byte (word_of_nat i)"
proof -
  assume "i < 256"
  have "crc32_tab = map (\<lambda>i. crc32_byte (word_of_nat i)) [0..<256]"
    using doubling_table [of 8] unfolding crc32_basis crc32_tab_doubling by simp
  from arg_cong [OF this, of "\<lambda>t. t ! i"] \<open>i < 256\<close> show ?thesis by simp
qed

lemma eight_steps:
  "(crc_right_step 0xEDB88320 ^^ 8) x = crc32_tab ! unat (x AND 0xFF) XOR drop_bit 8 x"
proof -
  have "unat (x AND 0xFF) < 256" using word_and_le1 [of x "0xFF"] by (simp add: word_le_nat_alt)
  moreover have "x AND 0xFF = take_bit 8 x" by (simp add: take_bit_eq_mask mask_eq_exp_minus_1)
  then have "x = (x AND 0xFF) XOR push_bit 8 (drop_bit 8 x)"
    by (intro bit_word_eqI) (auto simp: bit_simps)
  moreover have "(crc_right_step 0xEDB88320 ^^ 8) (push_bit 8 (drop_bit 8 x)) = drop_bit 8 x"
    by (rule right_steps_even) (auto simp: bit_simps dest: bit_imp_le_length)
  ultimately show ?thesis using right_steps_xor [where p = "0xEDB88320" and n = 8 and x = "x AND 0xFF" and y = "push_bit 8 (drop_bit 8 x)"]
    by (simp add: crc32_tab_nth)
qed

lemma crc32_fast_loop: "crc32_fast_loop v ds = crc_right 0xEDB88320 v ds"
proof (induction ds arbitrary: v)
  case (Cons d ds)
  have "drop_bit 8 (ucast d :: u32) = 0" by (rule bit_word_eqI) (auto simp: bit_simps dest: bit_imp_le_length)
  then have "crc32_byte (v XOR ucast d) = crc32_tab ! unat ((v XOR ucast d) AND 0xFF) XOR drop_bit 8 v"
    unfolding eight_steps by (simp add: drop_bit_xor)
  then show ?case using Cons by simp
qed simp

lemma crc32_start: "(if v = 0 then 0xFFFFFFFF else NOT v) = NOT (v :: u32)"
  by simp

lemma crc_right_append: "crc_right p r (a @ b) = crc_right p (crc_right p r a) b"
  by (induction a arbitrary: r) simp_all

text \<open>C30: The table-driven and the bitwise version of \<open>qm_utils_crc32\<close> return the same checksum for every
  buffer, size and initial value, and \<open>qm_ieee_crc32\<close> is the case with initial value 0.\<close>

theorem crc32_versions_agree:
  "qm_utils_crc32_fast buf sz v = qm_utils_crc32 buf sz v
   \<and> qm_ieee_crc32 buf len = qm_utils_crc32 buf (ucast len) 0"
proof -
  have "x XOR NOT 0 = NOT x" for x :: u32 by simp
  moreover have "unat (ucast len :: u32) = unat len"
    using unat_less_u16 [of len] by (simp add: unsigned_ucast_eq take_bit_nat_eq_self)
  moreover have "NOT 0 = (0xFFFFFFFF :: u32)" by simp
  ultimately show ?thesis
    unfolding qm_utils_crc32_fast_def qm_utils_crc32_def qm_ieee_crc32_def crc32_fast_loop crc32_loop_right crc32_start
    by metis
qed

text \<open>A checksum can be computed in pieces: with the checksum of the first part as initial value,
  \<open>qm_utils_crc32\<close> of the second part is the checksum of the whole, also when the first checksum is 0.\<close>

theorem crc32_incremental:
  assumes "length a + length b < 2 ^ 32"
  shows "qm_utils_crc32 (a @ b) (word_of_nat (length a + length b)) v
    = qm_utils_crc32 b (word_of_nat (length b)) (qm_utils_crc32 a (word_of_nat (length a)) v)"
  using assms unfolding qm_utils_crc32_def crc32_start crc32_loop_right
  by (simp add: unat_of_nat take_bit_nat_eq_self crc_right_append del: of_nat_add)

theorem crc32_incremental_witness:
  "qm_utils_crc32 ([1, 2, 3] @ [4, 5]) (word_of_nat (length [1, 2, 3 :: u8] + length [4, 5 :: u8])) 0
    = qm_utils_crc32 [4, 5] (word_of_nat (length [4, 5 :: u8])) (qm_utils_crc32 [1, 2, 3] (word_of_nat (length [1, 2, 3 :: u8])) 0)"
  by (rule crc32_incremental) simp

end
