(* ===== verification/Base64.thy ===== *)
theory Base64
  imports QM_Prelude
begin

text \<open>
  Base64 as in \<^verbatim>\<open>utility/base64/qm_utils_base64.c\<close>. Buffers are lists of bytes and the loops keep the
  code's indices; the input of the decoder is the memory at its pointer, a function of the 32-bit offset,
  because the code reads before the start of an empty input. The results of a call are its return code,
  the buffer and the value left in \<^verbatim>\<open>*outputLength\<close>.

  The reference is the encoding of groups of three bytes as lists. Encoding writes it into the buffer, and
  decoding an encoding gives the bytes back.
\<close>

unbundle bit_operations_syntax

section \<open>The routines\<close>

definition encodingTable :: "u8 list" where
  "encodingTable = map (\<lambda>ch. word_of_nat (of_char ch))
     ''ABCDEFGHIJKLMNOPQRSTUVWXYZabcdefghijklmnopqrstuvwxyz0123456789+/''"

definition PAD :: u8 where
  "PAD = word_of_nat (of_char CHR ''='')"

text \<open>The table starts zero-filled; building it a second time changes nothing.\<close>

definition decodingTable :: "u8 list" where
  "decodingTable = fold (\<lambda>i t. t[unat (encodingTable ! i) := word_of_nat i]) [0..<64] (replicate 256 0)"

definition modTable :: "nat list" where
  "modTable = [0, 2, 1]"

definition octet :: "u8 list \<Rightarrow> nat \<Rightarrow> nat \<Rightarrow> u32 \<times> nat" where
  "octet data n i = (if i < n then (ucast (data ! i), i + 1) else (0, i))"

function encode_loop :: "u8 list \<Rightarrow> nat \<Rightarrow> nat \<Rightarrow> nat \<Rightarrow> u8 list \<Rightarrow> u8 list" where
  "encode_loop data n i j buf =
     (if i < n
      then case octet data n i of (octet_a, i1) \<Rightarrow> case octet data n i1 of (octet_b, i2) \<Rightarrow> case octet data n i2 of (octet_c, i3) \<Rightarrow>
        let triple = push_bit 0x10 octet_a + push_bit 0x08 octet_b + octet_c
        in encode_loop data n i3 (j + 4)
             (buf[j := encodingTable ! unat (drop_bit (3 * 6) triple AND 0x3F),
                  j + 1 := encodingTable ! unat (drop_bit (2 * 6) triple AND 0x3F),
                  j + 2 := encodingTable ! unat (drop_bit (1 * 6) triple AND 0x3F),
                  j + 3 := encodingTable ! unat (drop_bit (0 * 6) triple AND 0x3F)])
      else buf)"
  by pat_completeness auto
termination
  by (relation "measure (\<lambda>(data, n, i, j, buf). n - i)") (auto simp: octet_def split: if_splits)

fun pad_loop :: "nat \<Rightarrow> nat \<Rightarrow> u8 list \<Rightarrow> u8 list" where
  "pad_loop outputLength 0 buf = buf"
| "pad_loop outputLength (Suc i) buf = (pad_loop outputLength i buf)[outputLength - 1 - i := PAD]"

definition qm_utils_base64encode ::
  "u8 list \<Rightarrow> u32 \<Rightarrow> u32 \<Rightarrow> u8 list option \<Rightarrow> u32 \<Rightarrow> int \<times> u8 list option \<times> u32" where
  "qm_utils_base64encode data inputLength outputLenMax encodedData outputLength =
     (case encodedData of
        None \<Rightarrow> (- 1, None, outputLength)
      | Some buf \<Rightarrow>
          let olen = 4 * ((inputLength + 2) div 3)
          in if outputLenMax < olen then (- 1, Some buf, olen)
             else (0, Some (pad_loop (unat olen) (modTable ! (unat inputLength mod 3))
                              (encode_loop data (unat inputLength) 0 0 buf)), olen))"

definition sextet :: "(u32 \<Rightarrow> u8) \<Rightarrow> nat \<Rightarrow> u32" where
  "sextet data i = (if data (word_of_nat i) = PAD then 0 else ucast (decodingTable ! unat (data (word_of_nat i))))"

definition put_byte :: "nat \<Rightarrow> u32 \<Rightarrow> nat \<times> u8 list \<Rightarrow> nat \<times> u8 list" where
  "put_byte olen v jb = (case jb of (j, buf) \<Rightarrow> if j < olen then (j + 1, buf[j := ucast (v AND 0xFF)]) else (j, buf))"

function decode_loop :: "(u32 \<Rightarrow> u8) \<Rightarrow> nat \<Rightarrow> nat \<Rightarrow> nat \<Rightarrow> nat \<Rightarrow> u8 list \<Rightarrow> u8 list" where
  "decode_loop data n olen i j buf =
     (if i < n
      then
        let triple = push_bit (3 * 6) (sextet data i) + push_bit (2 * 6) (sextet data (i + 1))
              + push_bit (1 * 6) (sextet data (i + 2)) + push_bit (0 * 6) (sextet data (i + 3));
            (j', buf') = put_byte olen (drop_bit (0 * 8) triple) (put_byte olen (drop_bit (1 * 8) triple)
              (put_byte olen (drop_bit (2 * 8) triple) (j, buf)))
        in decode_loop data n olen (i + 4) j' buf'
      else buf)"
  by pat_completeness auto
termination
  by (relation "measure (\<lambda>(data, n, olen, i, j, buf). n - i)") auto

definition qm_utils_base64decode ::
  "(u32 \<Rightarrow> u8) \<Rightarrow> u32 \<Rightarrow> u32 \<Rightarrow> u8 list \<Rightarrow> u32 \<Rightarrow> int \<times> u8 list \<times> u32" where
  "qm_utils_base64decode data inputLength outputLenMax decodedData outputLength =
     (if inputLength mod 4 \<noteq> 0 then (- 1, decodedData, outputLength)
      else
        let olen0 = inputLength div 4 * 3;
            olen1 = (if data (inputLength - 1) = PAD then olen0 - 1 else olen0);
            olen = (if data (inputLength - 2) = PAD then olen1 - 1 else olen1)
        in if outputLenMax < olen then (- 1, decodedData, olen)
           else (0, decode_loop data (unat inputLength) (unat olen) 0 0 decodedData, olen))"

section \<open>The tables\<close>

lemma length_fold_update [simp]: "length (fold (\<lambda>i t. t[f i := v i]) is t) = length t"
  by (induction "is" arbitrary: t) simp_all

lemma nth_fold_update:
  assumes "inj_on f {..<n}" "\<And>i. i < n \<Longrightarrow> f i < length t" "k < n"
  shows "fold (\<lambda>i t. t[f i := v i]) [0..<n] t ! f k = v k"
  using assms
proof (induction n)
  case (Suc n)
  have "f k = f n \<longleftrightarrow> k = n" using Suc.prems by (auto dest: inj_onD)
  then show ?case using Suc by (cases "k = n") (auto simp: nth_list_update inj_on_def)
qed simp

lemma encodingTable_bytes: "encodingTable = [65, 66, 67, 68, 69, 70, 71, 72, 73, 74, 75, 76, 77, 78, 79, 80, 81, 82, 83,
  84, 85, 86, 87, 88, 89, 90, 97, 98, 99, 100, 101, 102, 103, 104, 105, 106, 107, 108, 109, 110, 111, 112, 113, 114,
  115, 116, 117, 118, 119, 120, 121, 122, 48, 49, 50, 51, 52, 53, 54, 55, 56, 57, 43, 47]"
  by (simp add: encodingTable_def)

lemma length_encodingTable [simp]: "length encodingTable = 64"
  by (simp add: encodingTable_bytes)

lemma distinct_encodingTable: "distinct encodingTable"
  by (simp add: encodingTable_bytes)

lemma encodingTable_not_PAD: "PAD \<notin> set encodingTable"
  by (simp add: encodingTable_bytes PAD_def)

lemma decode_encode_sextet:
  assumes "s < 64"
  shows "decodingTable ! unat (encodingTable ! s) = word_of_nat s" "encodingTable ! s \<noteq> PAD"
proof -
  have "inj_on (\<lambda>i. unat (encodingTable ! i)) {..<64}"
    by (auto simp: inj_on_def nth_eq_iff_index_eq [OF distinct_encodingTable] simp flip: word_unat_eq_iff)
  then show "decodingTable ! unat (encodingTable ! s) = word_of_nat s"
    unfolding decodingTable_def using assms unat_less_u8 by (intro nth_fold_update) simp_all
  show "encodingTable ! s \<noteq> PAD" using assms encodingTable_not_PAD by (metis length_encodingTable nth_mem)
qed

lemma split3:
  fixes a b c :: nat
  assumes "a < 256" "b < 256" "c < 256"
  defines "t \<equiv> 65536 * a + 256 * b + c"
  shows "262144 * (t div 262144 mod 64) + 4096 * (t div 4096 mod 64) + 64 * (t div 64 mod 64) + t mod 64 = t"
   "t div 65536 mod 256 = a" "t div 256 mod 256 = b" "t mod 256 = c"
proof -
  have "t < 64 * 262144" using assms by simp
  then have "t div 262144 mod 64 = t div 262144" by (simp add: less_mult_imp_div_less)
  moreover have "t div 4096 = 64 * (t div 262144) + t div 4096 mod 64"
    using div_mult2_eq [of t 4096 64] mult_div_mod_eq [of 64 "t div 4096"] by simp
  moreover have "t div 64 = 64 * (t div 4096) + t div 64 mod 64"
    using div_mult2_eq [of t 64 64] mult_div_mod_eq [of 64 "t div 64"] by simp
  moreover have "t = 64 * (t div 64) + t mod 64" by simp
  ultimately show "262144 * (t div 262144 mod 64) + 4096 * (t div 4096 mod 64) + 64 * (t div 64 mod 64) + t mod 64 = t"
    by linarith
  have "t div 65536 = a" "t div 256 = 256 * a + b" using assms(1-3) unfolding t_def by auto
  then show "t div 65536 mod 256 = a" "t div 256 mod 256 = b" using assms(1,2) by simp_all
  have "t = c + (256 * a + b) * 256" by (simp add: t_def)
  then show "t mod 256 = c" using assms(3) mod_mult_self1 [of c "256 * a + b" 256] by simp
qed

section \<open>The reference\<close>

definition group_num :: "u8 \<Rightarrow> u8 \<Rightarrow> u8 \<Rightarrow> nat" where
  "group_num a b c = 65536 * unat a + 256 * unat b + unat c"

definition group64 :: "u8 \<Rightarrow> u8 \<Rightarrow> u8 \<Rightarrow> u8 list" where
  "group64 a b c = (let t = group_num a b c
     in map ((!) encodingTable) [t div 262144 mod 64, t div 4096 mod 64, t div 64 mod 64, t mod 64])"

fun base64 :: "u8 list \<Rightarrow> u8 list" where
  "base64 [] = []"
| "base64 [a] = take 2 (group64 a 0 0) @ [PAD, PAD]"
| "base64 [a, b] = take 3 (group64 a b 0) @ [PAD]"
| "base64 (a # b # c # ds) = group64 a b c @ base64 ds"

text \<open>The encoder's loop writes the groups with zeros for the missing bytes.\<close>

fun raw64 :: "u8 list \<Rightarrow> u8 list" where
  "raw64 [] = []"
| "raw64 [a] = group64 a 0 0"
| "raw64 [a, b] = group64 a b 0"
| "raw64 (a # b # c # ds) = group64 a b c @ raw64 ds"

lemma length_group64 [simp]: "length (group64 a b c) = 4"
  by (simp add: group64_def Let_def)

lemma length_raw64: "length (raw64 ds) = 4 * ((length ds + 2) div 3)"
  by (induction ds rule: raw64.induct) (simp_all, presburger)

lemma length_base64: "length (base64 ds) = 4 * ((length ds + 2) div 3)"
  by (induction ds rule: base64.induct) (simp_all, presburger)

lemma unat_ucast_byte: "unat (ucast (a :: u8) :: u32) = unat a"
  using unat_less_u8 [of a] by (simp add: unsigned_ucast_eq take_bit_nat_eq_self)

lemma unat_triple:
  "unat (push_bit 0x10 (ucast a) + push_bit 0x08 (ucast b) + ucast c :: u32) = group_num a b c"
proof -
  have "(push_bit 0x10 (ucast a) + push_bit 0x08 (ucast b) + ucast c :: u32) = word_of_nat (group_num a b c)"
    by (simp add: group_num_def push_bit_eq_mult unat_ucast_byte [symmetric])
  moreover have "group_num a b c < 2 ^ 32"
    using unat_less_u8 [of a] unat_less_u8 [of b] unat_less_u8 [of c] by (simp add: group_num_def)
  ultimately show ?thesis by (simp add: unat_of_nat take_bit_nat_eq_self)
qed

lemma unat_bits: "unat (take_bit m (drop_bit k x)) = unat (x :: u32) div 2 ^ k mod 2 ^ m"
proof -
  have "unat (take_bit m (drop_bit k x)) = take_bit m (drop_bit k (unat x))"
    by (simp only: unsigned_take_bit_eq unat_drop_bit_eq)
  then show ?thesis by (simp add: take_bit_eq_mod drop_bit_eq_div)
qed

lemma unat_field: "unat (drop_bit k x AND 0x3F) = unat (x :: u32) div 2 ^ k mod 64"
proof -
  have "drop_bit k x AND 0x3F = take_bit 6 (drop_bit k x)" by (simp add: take_bit_eq_mask mask_eq_exp_minus_1)
  then show ?thesis using unat_bits [of 6 k x] by (simp only:) simp
qed

lemma byte_field: "unat (ucast (drop_bit k x AND 0xFF) :: u8) = unat (x :: u32) div 2 ^ k mod 256"
proof -
  have "drop_bit k x AND 0xFF = take_bit 8 (drop_bit k x)" by (simp add: take_bit_eq_mask mask_eq_exp_minus_1)
  moreover have "unat (ucast (take_bit 8 (drop_bit k x)) :: u8) = unat (take_bit 8 (drop_bit k x))"
    by (simp add: unsigned_ucast_eq unsigned_take_bit_eq)
  ultimately show ?thesis using unat_bits [of 8 k x] by (simp only:) simp
qed

lemma write4:
  assumes "j + 4 \<le> length buf"
  shows "buf[j := w, j + 1 := x, j + 2 := y, j + 3 := z] = take j buf @ [w, x, y, z] @ drop (j + 4) buf"
proof (rule nth_equalityI)
  fix i
  assume "i < length (buf[j := w, j + 1 := x, j + 2 := y, j + 3 := z])"
  moreover have "i < j \<or> i = j \<or> i = j + 1 \<or> i = j + 2 \<or> i = j + 3 \<or> j + 4 \<le> i" by linarith
  ultimately show "buf[j := w, j + 1 := x, j + 2 := y, j + 3 := z] ! i = (take j buf @ [w, x, y, z] @ drop (j + 4) buf) ! i"
    using assms by (auto simp: nth_append nth_list_update)
qed (use assms in auto)

lemma group_words:
  "[encodingTable ! unat (drop_bit (3 * 6) t AND 0x3F), encodingTable ! unat (drop_bit (2 * 6) t AND 0x3F),
    encodingTable ! unat (drop_bit (1 * 6) t AND 0x3F), encodingTable ! unat (drop_bit (0 * 6) t AND 0x3F)] = group64 a b c"
  if "t = push_bit 0x10 (ucast a) + push_bit 0x08 (ucast b) + ucast c" for t :: u32
  unfolding unat_field unfolding that unat_triple by (simp add: group64_def Let_def)


section \<open>Encoding\<close>

lemma octetE:
  assumes "n \<le> length data" "i \<le> n" "octet data n i = (v, i')"
  obtains a where "v = ucast a" "i < n \<Longrightarrow> drop i (take n data) = a # drop i' (take n data)" "i < n \<Longrightarrow> i' = i + 1"
    "i = n \<Longrightarrow> a = 0" "i = n \<Longrightarrow> i' = n"
proof (cases "i < n")
  case True
  then show ?thesis using assms by (intro that [of "data ! i"]) (auto simp: octet_def Cons_nth_drop_Suc [symmetric])
next
  case False
  then show ?thesis using assms by (intro that [of 0]) (auto simp: octet_def)
qed

lemma raw64_step:
  assumes "n \<le> length data" "i < n" "octet data n i = (oa, i1)" "octet data n i1 = (ob, i2)" "octet data n i2 = (oc, i3)"
  obtains a b c where "oa = ucast a" "ob = ucast b" "oc = ucast c" "i < i3" "i3 \<le> n"
    "raw64 (drop i (take n data)) = group64 a b c @ raw64 (drop i3 (take n data))"
proof -
  obtain a where a: "oa = ucast a" "drop i (take n data) = a # drop i1 (take n data)" "i1 = i + 1"
    using octetE [OF assms(1) _ assms(3)] assms(2) by (metis less_imp_le)
  have i1: "i1 \<le> n" using a(3) assms(2) by simp
  obtain b where b: "ob = ucast b" "i1 < n \<Longrightarrow> drop i1 (take n data) = b # drop i2 (take n data)" "i1 < n \<Longrightarrow> i2 = i1 + 1"
    "i1 = n \<Longrightarrow> b = 0" "i1 = n \<Longrightarrow> i2 = n"
    using octetE [OF assms(1) i1 assms(4)] by blast
  have i2: "i2 \<le> n" using b(3,5) i1 by (cases "i1 < n") auto
  obtain c where c: "oc = ucast c" "i2 < n \<Longrightarrow> drop i2 (take n data) = c # drop i3 (take n data)" "i2 < n \<Longrightarrow> i3 = i2 + 1"
    "i2 = n \<Longrightarrow> c = 0" "i2 = n \<Longrightarrow> i3 = n"
    using octetE [OF assms(1) i2 assms(5)] by blast
  have end_nil: "drop n (take n data) = []" by simp
  consider "i1 = n" | "i1 < n" "i2 = n" | "i1 < n" "i2 < n" using i1 i2 by linarith
  then show thesis
  proof cases
    case 1
    then show ?thesis using a b c assms(2) end_nil by (intro that [of a b c]) auto
  next
    case 2
    then show ?thesis using a b c assms(2) end_nil by (intro that [of a b c]) auto
  next
    case 3
    then show ?thesis using a b c assms(2) by (intro that [of a b c]) auto
  qed
qed

declare encode_loop.simps [simp del] decode_loop.simps [simp del]

lemma encode_loop_writes:
  assumes "n \<le> length data" "i \<le> n" "j + length (raw64 (drop i (take n data))) \<le> length buf"
  shows "encode_loop data n i j buf =
    take j buf @ raw64 (drop i (take n data)) @ drop (j + length (raw64 (drop i (take n data)))) buf"
  using assms
proof (induction data n i j buf rule: encode_loop.induct)
  case (1 data n i j buf)
  show ?case
  proof (cases "i < n")
    case True
    obtain oa i1 ob i2 oc i3 where o: "octet data n i = (oa, i1)" "octet data n i1 = (ob, i2)" "octet data n i2 = (oc, i3)"
      by (metis prod.exhaust)
    from raw64_step [OF 1(2) True o] obtain a b c where abc: "oa = ucast a" "ob = ucast b" "oc = ucast c" "i3 \<le> n"
      "raw64 (drop i (take n data)) = group64 a b c @ raw64 (drop i3 (take n data))" by blast
    define t where "t = push_bit 0x10 oa + push_bit 0x08 ob + oc"
    define buf4 where "buf4 = take j buf @ group64 a b c @ drop (j + 4) buf"
    have w: "buf[j := encodingTable ! unat (drop_bit (3 * 6) t AND 0x3F), j + 1 := encodingTable ! unat (drop_bit (2 * 6) t AND 0x3F),
        j + 2 := encodingTable ! unat (drop_bit (1 * 6) t AND 0x3F), j + 3 := encodingTable ! unat (drop_bit (0 * 6) t AND 0x3F)] = buf4"
      unfolding buf4_def group_words [OF t_def [unfolded abc(1-3)], symmetric] using 1(4) abc(5) by (intro write4) simp
    have e: "encode_loop data n i j buf = encode_loop data n i3 (j + 4) buf4"
      using True by (subst encode_loop.simps) (simp only: o prod.case if_True Let_def t_def [symmetric] w)
    have "encode_loop data n i3 (j + 4) buf4
        = take (j + 4) buf4 @ raw64 (drop i3 (take n data)) @ drop (j + 4 + length (raw64 (drop i3 (take n data)))) buf4"
      using 1(1) [OF True o(1) [symmetric] o(2) [symmetric] o(3) [symmetric] t_def] 1(2) 1(4) abc(4,5)
      unfolding w by (simp add: buf4_def)
    then show ?thesis using e 1(4) abc(5) by (simp add: buf4_def ac_simps)
  next
    case False
    then show ?thesis using 1 by (subst encode_loop.simps) simp
  qed
qed


lemma pad_loop_writes:
  assumes "m \<le> olen" "olen \<le> length buf"
  shows "pad_loop olen m buf = take (olen - m) buf @ replicate m PAD @ drop olen buf"
  using assms
proof (induction m)
  case (Suc m)
  then have "pad_loop olen (Suc m) buf = (take (olen - m) buf @ replicate m PAD @ drop olen buf)[olen - Suc m := PAD]"
    by simp
  moreover have "take (olen - m) buf = take (olen - Suc m) buf @ [buf ! (olen - Suc m)]"
    using Suc.prems by (metis Suc_diff_Suc Suc_le_lessD le_trans diff_le_self take_Suc_conv_app_nth diff_Suc_less
        gr_zeroI less_le_trans not_less_zero)
  ultimately show ?case using Suc.prems by (simp add: list_update_append)
qed simp

lemma base64_padding:
  "base64 ds = take (length (raw64 ds) - modTable ! (length ds mod 3)) (raw64 ds) @ replicate (modTable ! (length ds mod 3)) PAD
   \<and> modTable ! (length ds mod 3) \<le> length (raw64 ds)"
proof (induction ds rule: raw64.induct)
  case (4 a b c ds)
  have "length (a # b # c # ds) mod 3 = length ds mod 3" by (simp add: mod_Suc) presburger
  moreover have "modTable ! (length ds mod 3) \<le> length (raw64 ds)" using 4 by simp
  then have "4 \<le> 4 + length (raw64 ds) - modTable ! (length ds mod 3)" by linarith
  ultimately show ?case using 4 by (simp del: length_Cons)
qed (simp_all add: modTable_def numeral_2_eq_2)

lemma encode_spec:
  assumes "unat n \<le> length data" "4 * ((unat n + 2) div 3) \<le> unat olm" "unat olm \<le> length buf"
  shows "qm_utils_base64encode data n olm (Some buf) o0 =
    (0, Some (base64 (take (unat n) data) @ drop (4 * ((unat n + 2) div 3)) buf), word_of_nat (4 * ((unat n + 2) div 3)))"
proof -
  let ?xs = "take (unat n) data" and ?L = "4 * ((unat n + 2) div 3)"
  have L: "?L < 2 ^ 32" using assms(2) unat_less_u32 [of olm] by simp
  have "unat (n + 2) = unat n + 2"
    using L by (simp add: unat_word_ariths take_bit_nat_eq_self)
  then have u: "unat (4 * ((n + 2) div 3)) = ?L"
    using L by (simp add: unat_word_ariths unat_div_distrib)
  have r: "length (raw64 ?xs) = ?L" using assms(1) by (simp add: length_raw64)
  have e: "encode_loop data (unat n) 0 0 buf = raw64 ?xs @ drop ?L buf"
    using encode_loop_writes [of "unat n" data 0 0 buf] assms r by simp
  have "pad_loop ?L (modTable ! (unat n mod 3)) (raw64 ?xs @ drop ?L buf) = base64 ?xs @ drop ?L buf"
    using base64_padding [of ?xs] assms(1) r by (subst pad_loop_writes) simp_all
  moreover have "4 * ((n + 2) div 3) = word_of_nat ?L" using u by (metis word_of_nat_unat)
  ultimately show ?thesis
    using u e assms(2) by (simp add: qm_utils_base64encode_def Let_def word_less_nat_alt)
qed


section \<open>Decoding\<close>

definition char_val :: "u8 \<Rightarrow> u32" where
  "char_val ch = (if ch = PAD then 0 else ucast (decodingTable ! unat ch))"

lemma char_val_encoding: "s < 64 \<Longrightarrow> char_val (encodingTable ! s) = word_of_nat s"
proof -
  assume s: "s < 64"
  have "(ucast (word_of_nat s :: u8) :: u32) = word_of_nat s"
    using s by (intro word_unat_eq_iff [THEN iffD2]) (simp add: unsigned_ucast_eq unat_of_nat take_bit_nat_eq_self)
  then show ?thesis using decode_encode_sextet [OF s] by (simp add: char_val_def)
qed

definition num4 :: "u32 list \<Rightarrow> u32" where
  "num4 vs = push_bit (3 * 6) (vs ! 0) + push_bit (2 * 6) (vs ! 1) + push_bit (1 * 6) (vs ! 2) + push_bit (0 * 6) (vs ! 3)"

lemma num4_group: "num4 (map char_val (group64 a b c)) = word_of_nat (group_num a b c)"
proof -
  let ?t = "group_num a b c"
  have "num4 (map char_val (group64 a b c)) = word_of_nat (262144 * (?t div 262144 mod 64) + 4096 * (?t div 4096 mod 64)
      + 64 * (?t div 64 mod 64) + ?t mod 64)"
    by (simp add: num4_def group64_def Let_def char_val_encoding push_bit_eq_mult algebra_simps)
  also have "262144 * (?t div 262144 mod 64) + 4096 * (?t div 4096 mod 64) + 64 * (?t div 64 mod 64) + ?t mod 64 = ?t"
    unfolding group_num_def using split3(1) [OF unat_less_u8 unat_less_u8 unat_less_u8] .
  finally show ?thesis .
qed

lemma group_bytes:
  "ucast (drop_bit (2 * 8) (word_of_nat (group_num a b c) :: u32) AND 0xFF) = a"
  "ucast (drop_bit (1 * 8) (word_of_nat (group_num a b c) :: u32) AND 0xFF) = b"
  "ucast (drop_bit (0 * 8) (word_of_nat (group_num a b c) :: u32) AND 0xFF) = c"
proof -
  have u: "unat (word_of_nat (group_num a b c) :: u32) = group_num a b c"
    using unat_triple [of a b c] unat_less_u32 [of "push_bit 0x10 (ucast a) + push_bit 0x08 (ucast b) + ucast c"]
    by (simp add: unat_of_nat take_bit_nat_eq_self)
  note s = split3(2-4) [OF unat_less_u8 unat_less_u8 unat_less_u8, of a b c, folded group_num_def]
  show "ucast (drop_bit (2 * 8) (word_of_nat (group_num a b c) :: u32) AND 0xFF) = a"
    "ucast (drop_bit (1 * 8) (word_of_nat (group_num a b c) :: u32) AND 0xFF) = b"
    "ucast (drop_bit (0 * 8) (word_of_nat (group_num a b c) :: u32) AND 0xFF) = c"
    unfolding word_unat_eq_iff byte_field u using s by simp_all
qed

text \<open>The padding stands for zeros, which the missing bytes give too.\<close>

lemma char_val_PAD [simp]: "char_val PAD = 0"
  by (simp add: char_val_def)

lemma padded_groups:
  "map char_val (take 2 (group64 a 0 0) @ [PAD, PAD]) = map char_val (group64 a 0 0)"
  "map char_val (take 3 (group64 a b 0) @ [PAD]) = map char_val (group64 a b 0)"
proof -
  have "65536 * unat a = 64 * (64 * (16 * unat a))" "65536 * unat a + 256 * unat b = 64 * (1024 * unat a + 4 * unat b)"
    by simp_all
  then have "65536 * unat a div 64 mod 64 = 0" "65536 * unat a mod 64 = 0" "(65536 * unat a + 256 * unat b) mod 64 = 0"
    by (simp_all only: nonzero_mult_div_cancel_left mod_mult_self1_is_0 mult_0_right)
  note z = this
  have 0: "char_val (encodingTable ! 0) = 0" using char_val_encoding [of 0] by simp
  obtain w x where "group64 a 0 0 = [w, x, encodingTable ! 0, encodingTable ! 0]"
    unfolding group64_def Let_def group_num_def by (simp add: z(1,2))
  then show "map char_val (take 2 (group64 a 0 0) @ [PAD, PAD]) = map char_val (group64 a 0 0)" by (simp add: 0)
  obtain w x y where "group64 a b 0 = [w, x, y, encodingTable ! 0]"
    unfolding group64_def Let_def group_num_def by (simp add: z(3))
  then show "map char_val (take 3 (group64 a b 0) @ [PAD]) = map char_val (group64 a b 0)" by (simp add: 0)
qed

definition put1 :: "nat \<Rightarrow> u8 \<Rightarrow> nat \<times> u8 list \<Rightarrow> nat \<times> u8 list" where
  "put1 olen b jb = (case jb of (j, buf) \<Rightarrow> if j < olen then (j + 1, buf[j := b]) else (j, buf))"

lemma put_byte_put1: "put_byte olen v = put1 olen (ucast (v AND 0xFF))"
  by (rule ext) (simp add: put_byte_def put1_def)

lemma decode_done: "n \<le> i \<Longrightarrow> decode_loop data n olen i j buf = buf"
  by (subst decode_loop.simps) simp

definition quad :: "(u32 \<Rightarrow> u8) \<Rightarrow> nat \<Rightarrow> u8 list" where
  "quad data i = map (\<lambda>k. data (word_of_nat (i + k))) [0, 1, 2, 3]"

lemma decode_step:
  assumes "i < n" "map char_val (quad data i) = map char_val (group64 a b c)"
  shows "decode_loop data n olen i j buf =
    (case put1 olen c (put1 olen b (put1 olen a (j, buf))) of (j', buf') \<Rightarrow> decode_loop data n olen (i + 4) j' buf')"
proof -
  have s: "sextet data k = char_val (data (word_of_nat k))" for k by (simp add: sextet_def char_val_def)
  have "push_bit (3 * 6) (sextet data i) + push_bit (2 * 6) (sextet data (i + 1))
      + push_bit (1 * 6) (sextet data (i + 2)) + push_bit (0 * 6) (sextet data (i + 3))
      = num4 (map char_val (quad data i))"
    by (simp add: num4_def quad_def s ac_simps nth_Cons')
  then have t: "push_bit (3 * 6) (sextet data i) + push_bit (2 * 6) (sextet data (i + 1))
      + push_bit (1 * 6) (sextet data (i + 2)) + push_bit (0 * 6) (sextet data (i + 3)) = word_of_nat (group_num a b c)"
    unfolding assms(2) num4_group .
  show ?thesis
    using assms(1) by (subst decode_loop.simps) (simp only: if_True Let_def t put_byte_put1 group_bytes)
qed

lemma write_next: "j < length buf \<Longrightarrow> buf[j := x] = take j buf @ x # drop (j + 1) buf"
  by (simp add: upd_conv_take_nth_drop)

lemma write3:
  assumes "j + 3 \<le> length buf"
  shows "buf[j := x, j + 1 := y, j + 2 := z] = take j buf @ [x, y, z] @ drop (j + 3) buf"
proof (rule nth_equalityI)
  fix i
  assume "i < length (buf[j := x, j + 1 := y, j + 2 := z])"
  moreover have "i < j \<or> i = j \<or> i = j + 1 \<or> i = j + 2 \<or> j + 3 \<le> i" by linarith
  ultimately show "buf[j := x, j + 1 := y, j + 2 := z] ! i = (take j buf @ [x, y, z] @ drop (j + 3) buf) ! i"
    using assms by (auto simp: nth_append nth_list_update)
qed (use assms in auto)

lemma write2:
  assumes "j + 2 \<le> length buf"
  shows "buf[j := x, j + 1 := y] = take j buf @ [x, y] @ drop (j + 2) buf"
proof (rule nth_equalityI)
  fix i
  assume "i < length (buf[j := x, j + 1 := y])"
  moreover have "i < j \<or> i = j \<or> i = j + 1 \<or> j + 2 \<le> i" by linarith
  ultimately show "buf[j := x, j + 1 := y] ! i = (take j buf @ [x, y] @ drop (j + 2) buf) ! i"
    using assms by (auto simp: nth_append nth_list_update simp del: add_2_eq_Suc')
qed (use assms in auto)

lemma quad_take:
  assumes "4 \<le> length es" "\<And>k. k < length es \<Longrightarrow> data (word_of_nat (i + k)) = es ! k"
  shows "quad data i = take 4 es"
proof (rule nth_equalityI)
  fix m
  assume "m < length (quad data i)"
  then have "m = 0 \<or> m = 1 \<or> m = 2 \<or> m = 3" by (auto simp: quad_def)
  moreover have "quad data i ! m = data (word_of_nat (i + m))" using calculation by (auto simp: quad_def)
  ultimately show "quad data i ! m = take 4 es ! m" using assms(1) assms(2) [of m] by fastforce
qed (use assms in \<open>simp add: quad_def\<close>)

lemma put1_3:
  assumes "j + 3 \<le> olen" "j + 3 \<le> length buf"
  shows "put1 olen c (put1 olen b (put1 olen a (j, buf))) = (j + 3, take j buf @ [a, b, c] @ drop (j + 3) buf)"
proof -
  have "put1 olen c (put1 olen b (put1 olen a (j, buf))) = (j + 3, buf[j := a, j + 1 := b, j + 2 := c])"
    using assms by (simp add: put1_def)
  then show ?thesis using write3 [OF assms(2)] by simp
qed


lemma decode_loop_reads:
  assumes "\<And>k. k < length (base64 xs) \<Longrightarrow> data (word_of_nat (i + k)) = base64 xs ! k"
    and "j + length xs \<le> length buf"
  shows "decode_loop data (i + length (base64 xs)) (j + length xs) i j buf = take j buf @ xs @ drop (j + length xs) buf"
  using assms
proof (induction xs arbitrary: i j buf rule: base64.induct)
  case 1
  then show ?case by (simp add: decode_done)
next
  case (2 a)
  have "quad data i = base64 [a]" using quad_take [OF _ 2(1)] by (simp del: of_nat_add)
  then have "map char_val (quad data i) = map char_val (group64 a 0 0)" using padded_groups(1) [of a] by simp
  from decode_step [OF _ this, of "i + 4" "j + 1" j buf] show ?case
    using 2(2) by (simp add: put1_def decode_done write_next)
next
  case (3 a b)
  have "quad data i = base64 [a, b]" using quad_take [OF _ 3(1)] by (simp del: of_nat_add)
  then have "map char_val (quad data i) = map char_val (group64 a b 0)" using padded_groups(2) [of a b] by simp
  from decode_step [OF _ this, of "i + 4" "j + 2" j buf] show ?case
    using 3(2) write2 [of j buf a b] by (simp add: put1_def decode_done)
next
  case (4 a b c ds)
  have "quad data i = group64 a b c" using quad_take [OF _ 4(2)] by (simp del: of_nat_add)
  then have g: "map char_val (quad data i) = map char_val (group64 a b c)" by simp
  have tl: "data (word_of_nat (i + 4 + k)) = base64 ds ! k" if "k < length (base64 ds)" for k
    using 4(2) [of "4 + k"] that by (simp add: nth_append add.assoc del: of_nat_add)
  let ?b3 = "take j buf @ [a, b, c] @ drop (j + 3) buf"
  have "decode_loop data (i + 4 + length (base64 ds)) (j + 3 + length ds) i j buf
      = decode_loop data (i + 4 + length (base64 ds)) (j + 3 + length ds) (i + 4) (j + 3) ?b3"
    using decode_step [OF _ g, of "i + 4 + length (base64 ds)" "j + 3 + length ds" j buf] put1_3 [of j "j + 3 + length ds" buf c b a] 4(3)
    by simp
  also have "\<dots> = take (j + 3) ?b3 @ ds @ drop (j + 3 + length ds) ?b3"
    using 4(3) by (intro 4(1) tl) auto
  also have "take (j + 3) ?b3 = take j buf @ [a, b, c]" using 4(3) by simp
  also have "drop (j + 3 + length ds) ?b3 = drop (j + 3 + length ds) buf" using 4(3) by (simp add: drop_Cons' ac_simps)
  finally have "decode_loop data (i + 4 + length (base64 ds)) (j + 3 + length ds) i j buf
      = (take j buf @ [a, b, c]) @ ds @ drop (j + 3 + length ds) buf" .
  moreover have "i + length (base64 (a # b # c # ds)) = i + 4 + length (base64 ds)" by simp
  moreover have "j + length (a # b # c # ds) = j + 3 + length ds" by simp
  ultimately show ?case by (simp only: append.assoc append.simps)
qed

lemma encoded_char: "s < 64 \<Longrightarrow> encodingTable ! s = PAD \<longleftrightarrow> False"
  using decode_encode_sextet(2) by simp

lemma group64_not_PAD: "group64 a b c ! 0 \<noteq> PAD" "group64 a b c ! 1 \<noteq> PAD" "group64 a b c ! 2 \<noteq> PAD" "group64 a b c ! 3 \<noteq> PAD"
  by (simp_all add: group64_def Let_def encoded_char)

lemma base64_tail:
  "xs \<noteq> [] \<Longrightarrow> (base64 xs ! (length (base64 xs) - 1) = PAD \<longleftrightarrow> length xs mod 3 \<noteq> 0)
    \<and> (base64 xs ! (length (base64 xs) - 2) = PAD \<longleftrightarrow> length xs mod 3 = 1)"
proof (induction xs rule: base64.induct)
  case (4 a b c ds)
  show ?case
  proof (cases "ds = []")
    case True
    then show ?thesis using group64_not_PAD [of a b c] by simp
  next
    case False
    then have "4 \<le> length (base64 ds)" by (simp add: length_base64) (cases ds; simp)
    moreover have "length (a # b # c # ds) mod 3 = length ds mod 3" by (simp add: mod_Suc) presburger
    moreover have "base64 ds \<noteq> []" using calculation(1) by auto
    ultimately show ?thesis using 4 False by (simp add: nth_append del: length_Cons)
  qed
next
  case (3 a b)
  then show ?case using group64_not_PAD [of a b 0] by (simp add: nth_append)
qed (simp_all add: nth_append)


lemma group_count:
  "n mod 3 = 0 \<Longrightarrow> 3 * ((n + 2) div 3) = n" "n mod 3 = 1 \<Longrightarrow> 3 * ((n + 2) div 3) = n + 2"
  "n mod 3 = 2 \<Longrightarrow> 3 * ((n + 2) div 3) = (n :: nat) + 1"
  by presburger+

lemma decode_spec:
  assumes ne: "xs \<noteq> []" and L: "length (base64 xs) < 2 ^ 32"
    and mem: "\<And>k. k < length (base64 xs) \<Longrightarrow> data (word_of_nat k) = base64 xs ! k"
    and fit: "length xs \<le> unat olm" "unat olm \<le> length buf"
  shows "qm_utils_base64decode data (word_of_nat (length (base64 xs))) olm buf o0
    = (0, xs @ drop (length xs) buf, word_of_nat (length xs))"
proof -
  define m where "m = (length xs + 2) div 3"
  let ?N = "length (base64 xs)" and ?w = "word_of_nat (length (base64 xs)) :: u32"
  have N: "?N = 4 * m" and m: "0 < m" using ne by (simp_all add: m_def length_base64) (cases xs; simp)
  have u: "unat ?w = ?N" using L by (simp add: unat_of_nat take_bit_nat_eq_self)
  have "unat (?w mod 4) = ?N mod 4" "unat (?w div 4) = ?N div 4" by (simp_all only: unat_mod_distrib unat_div_distrib u) simp_all
  then have "unat (?w mod 4) = 0" "unat (?w div 4) = m" by (simp_all only: N) simp_all
  then have md: "?w mod 4 = 0" and "?w div 4 = word_of_nat m" by (simp add: unat_eq_zero, metis word_of_nat_unat)
  then have o0: "?w div 4 * 3 = word_of_nat (3 * m)" by simp
  have d: "data (?w - 1) = base64 xs ! (?N - 1)" "data (?w - 2) = base64 xs ! (?N - 2)"
    using mem [of "?N - 1"] mem [of "?N - 2"] N m by (simp_all add: of_nat_diff del: of_nat_mult)
  have olen: "(let olen1 = if data (?w - 1) = PAD then word_of_nat (3 * m) - 1 else word_of_nat (3 * m)
      in if data (?w - 2) = PAD then olen1 - 1 else olen1) = (word_of_nat (length xs) :: u32)"
  proof -
    consider "length xs mod 3 = 0" | "length xs mod 3 = 1" | "length xs mod 3 = 2" by linarith
    then show ?thesis
    proof cases
      case 1
      then show ?thesis using base64_tail [OF ne] group_count(1) [OF 1] unfolding d m_def by (simp add: Let_def)
    next
      case 2
      then show ?thesis using base64_tail [OF ne] group_count(2) [OF 2] unfolding d m_def by (simp add: Let_def)
    next
      case 3
      then show ?thesis using base64_tail [OF ne] group_count(3) [OF 3] unfolding d m_def by (simp add: Let_def)
    qed
  qed
  have "unat (word_of_nat (length xs) :: u32) = length xs"
    using fit(1) unat_less_u32 [of olm] by (simp add: unat_of_nat take_bit_nat_eq_self)
  then show ?thesis
    using fit olen decode_loop_reads [of xs data 0 0 buf] mem
    unfolding qm_utils_base64decode_def Let_def md o0 u by (simp add: word_less_nat_alt)
qed

section \<open>Properties\<close>



text \<open>Decoding an empty text reads the byte before it: the call succeeds or fails with the value found there.\<close>

theorem base64_decode_empty_reads_before:
  "fst (qm_utils_base64decode (\<lambda>k. if k = - 1 then PAD else 0) 0 16 [] 0) = - 1
   \<and> fst (qm_utils_base64decode (\<lambda>k. 0) 0 16 [] 0) = 0"
  by (simp add: qm_utils_base64decode_def PAD_def)

end
