(* ===== verification/Mqtt_Packet.thy ===== *)
theory Mqtt_Packet
  imports QM_Prelude "HOL-Library.Signed_Division"
begin

text \<open>
  The MQTT packet codec of \<^verbatim>\<open>components/mqtt/MQTTPacket\<close>: the remaining-length field, strings, and the
  serialisers and deserialisers of the client's packets.

  A buffer is the memory at its pointer, a function of the offset, so that a write or read outside the
  caller's buffer is visible; a pointer that the code moves is a pair of the memory and the offset. C's
  division and remainder on \<open>int\<close> are \<open>sdiv\<close> and \<open>smod\<close>. The source of bytes of the readers is a function
  of the number of bytes wanted, with its own state. Out-parameters are records, passed with their old
  values and returned with those the code stored. The bit fields are those without \<^verbatim>\<open>REVERSED\<close>.
\<close>

unbundle bit_operations_syntax

type_synonym mem = "nat \<Rightarrow> u8"
type_synonym cursor = "mem \<times> nat"
type_synonym 's getfn = "'s \<Rightarrow> int \<Rightarrow> int \<times> u8 list \<times> 's"

definition MQTTPACKET_BUFFER_TOO_SHORT :: int where "MQTTPACKET_BUFFER_TOO_SHORT = - 2"
definition MQTTPACKET_READ_ERROR :: int where "MQTTPACKET_READ_ERROR = - 1"
definition MAX_NO_OF_REMAINING_LENGTH_BYTES :: int where "MAX_NO_OF_REMAINING_LENGTH_BYTES = 4"

definition CONNECT :: u8 where "CONNECT = 1"
definition CONNACK :: u8 where "CONNACK = 2"
definition PUBLISH :: u8 where "PUBLISH = 3"
definition PUBACK :: u8 where "PUBACK = 4"
definition PUBREL :: u8 where "PUBREL = 6"
definition PUBCOMP :: u8 where "PUBCOMP = 7"
definition SUBSCRIBE :: u8 where "SUBSCRIBE = 8"
definition SUBACK :: u8 where "SUBACK = 9"
definition UNSUBSCRIBE :: u8 where "UNSUBSCRIBE = 10"
definition UNSUBACK :: u8 where "UNSUBACK = 11"
definition PINGREQ :: u8 where "PINGREQ = 12"
definition DISCONNECT :: u8 where "DISCONNECT = 14"

text \<open>The header byte: assigning a bit field keeps its low bits.\<close>

definition MQTTHeader :: "u8 \<Rightarrow> u8 \<Rightarrow> u8 \<Rightarrow> u8 \<Rightarrow> u8" where
  "MQTTHeader typ dup qos retain =
     push_bit 4 (take_bit 4 typ) OR push_bit 3 (take_bit 1 dup) OR push_bit 1 (take_bit 2 qos) OR take_bit 1 retain"

definition header_type :: "u8 \<Rightarrow> u8" where "header_type byte = drop_bit 4 byte"
definition header_dup :: "u8 \<Rightarrow> u8" where "header_dup byte = take_bit 1 (drop_bit 3 byte)"
definition header_qos :: "u8 \<Rightarrow> u8" where "header_qos byte = take_bit 2 (drop_bit 1 byte)"
definition header_retain :: "u8 \<Rightarrow> u8" where "header_retain byte = take_bit 1 byte"

text \<open>A string: a C string (its characters before the terminator), or a length and the bytes at a pointer.\<close>

record MQTTString =
  cstring :: "u8 list option"
  len :: int
  lendata :: "u8 list option"

section \<open>Writing\<close>

definition qm_writeChar :: "cursor \<Rightarrow> u8 \<Rightarrow> cursor" where
  "qm_writeChar pp c = (case pp of (m, p) \<Rightarrow> (m(p := c), p + 1))"

fun memcpy :: "cursor \<Rightarrow> u8 list \<Rightarrow> cursor" where
  "memcpy pp [] = pp"
| "memcpy pp (b # bs) = memcpy (qm_writeChar pp b) bs"

definition qm_writeInt :: "cursor \<Rightarrow> int \<Rightarrow> cursor" where
  "qm_writeInt pp anInt = qm_writeChar (qm_writeChar pp (word_of_int (anInt sdiv 256))) (word_of_int (anInt smod 256))"

definition qm_writeCString :: "cursor \<Rightarrow> u8 list \<Rightarrow> cursor" where
  "qm_writeCString pp str = memcpy (qm_writeInt pp (int (length str))) str"

text \<open>A positive length comes with a pointer to that many bytes.\<close>

definition qm_writeMQTTString :: "cursor \<Rightarrow> MQTTString \<Rightarrow> cursor" where
  "qm_writeMQTTString pp s =
     (if len s > 0
      then memcpy (qm_writeInt pp (len s)) (case lendata s of Some d \<Rightarrow> take (nat (len s)) d | None \<Rightarrow> [])
      else (case cstring s of Some c \<Rightarrow> qm_writeCString pp c | None \<Rightarrow> qm_writeInt pp 0))"

text \<open>The pointer moves by the number of bytes that the code returns.\<close>

function qm_MQTTPacket_encode :: "cursor \<Rightarrow> int \<Rightarrow> cursor" where
  "qm_MQTTPacket_encode pp n =
     (let d = word_of_int (n smod 128);
          n' = n sdiv 128
      in if n' > 0 then qm_MQTTPacket_encode (qm_writeChar pp (d OR 0x80)) n'
         else qm_writeChar pp d)"
  by pat_completeness auto
termination
proof (relation "measure (\<lambda>(pp, n). nat n)")
  show "((qm_writeChar pp (d OR 128), n'), pp, n) \<in> measure (\<lambda>(pp, n). nat n)"
    if "n' = n sdiv 128" "0 < n'" for pp n d n'
    using that by (cases "0 \<le> n") (auto simp: signed_divide_int_def sgn_if split: if_splits)
qed simp

definition qm_MQTTPacket_len :: "int \<Rightarrow> int" where
  "qm_MQTTPacket_len rem_len =
     (let r = rem_len + 1
      in if r < 128 then r + 1 else if r < 16384 then r + 2 else if r < 2097151 then r + 3 else r + 4)"

definition qm_MQTTstrlen :: "MQTTString \<Rightarrow> int" where
  "qm_MQTTstrlen s = (case cstring s of Some c \<Rightarrow> int (length c) | None \<Rightarrow> len s)"

fun strncmp_eq :: "u8 list \<Rightarrow> u8 list \<Rightarrow> nat \<Rightarrow> bool" where
  "strncmp_eq a b 0 = True"
| "strncmp_eq (x # a) (y # b) (Suc n) = (x = y \<and> (x = 0 \<or> strncmp_eq a b n))"
| "strncmp_eq _ _ (Suc n) = True"

definition qm_MQTTPacket_equals :: "MQTTString \<Rightarrow> u8 list \<Rightarrow> bool" where
  "qm_MQTTPacket_equals a b =
     (let (aptr, alen) = (case cstring a of
            Some c \<Rightarrow> (c, int (length c))
          | None \<Rightarrow> (case lendata a of Some d \<Rightarrow> d | None \<Rightarrow> [], len a))
      in alen = int (length b) \<and> strncmp_eq aptr b (nat alen))"

section \<open>Reading\<close>

function decode_rem_loop :: "'s getfn \<Rightarrow> 's \<Rightarrow> int \<Rightarrow> int \<Rightarrow> int \<Rightarrow> int \<times> int \<times> 's" where
  "decode_rem_loop get s n multiplier value =
     (if n + 1 > MAX_NO_OF_REMAINING_LENGTH_BYTES then (n + 1, value, s)
      else case get s 1 of (rc, bs, s') \<Rightarrow>
        if rc \<noteq> 1 then (n + 1, value, s')
        else
          let c = hd bs;
              value' = value + uint (c AND 127) * multiplier
          in if c AND 128 \<noteq> 0 then decode_rem_loop get s' (n + 1) (multiplier * 128) value' else (n + 1, value', s'))"
  by pat_completeness auto
termination
  by (relation "measure (\<lambda>(get, s, n, multiplier, value). nat (4 - n))") (auto simp: MAX_NO_OF_REMAINING_LENGTH_BYTES_def)

text \<open>The number of bytes counted, the value and the state of the source.\<close>

definition qm_MQTTPacket_decode :: "'s getfn \<Rightarrow> 's \<Rightarrow> int \<times> int \<times> 's" where
  "qm_MQTTPacket_decode get s = decode_rem_loop get s 0 1 0"

definition qm_bufchar :: "cursor getfn" where
  "qm_bufchar pp count = (case pp of (m, p) \<Rightarrow> (count, map m [p..<p + nat count], (m, p + nat count)))"

definition qm_MQTTPacket_decodeBuf :: "cursor \<Rightarrow> int \<times> int" where
  "qm_MQTTPacket_decodeBuf pp = (case qm_MQTTPacket_decode qm_bufchar pp of (rc, value, _) \<Rightarrow> (rc, value))"

definition qm_readInt :: "mem \<Rightarrow> nat \<Rightarrow> int \<times> nat" where
  "qm_readInt m p = (256 * uint (m p) + uint (m (p + 1)), p + 2)"

definition qm_readChar :: "mem \<Rightarrow> nat \<Rightarrow> u8 \<times> nat" where
  "qm_readChar m p = (m p, p + 1)"

text \<open>The pointer \<^verbatim>\<open>enddata\<close> is an integer offset.\<close>

definition qm_readMQTTLenString :: "MQTTString \<Rightarrow> mem \<Rightarrow> nat \<Rightarrow> int \<Rightarrow> int \<times> MQTTString \<times> nat" where
  "qm_readMQTTLenString str m p enddata =
     (if enddata - int p > 1
      then case qm_readInt m p of (l, p') \<Rightarrow>
        if int p' + l \<le> enddata
        then (1, str\<lparr>len := l, lendata := Some (map m [p'..<p' + nat l]), cstring := None\<rparr>, p' + nat l)
        else (0, str\<lparr>len := l, cstring := None\<rparr>, p')
      else (0, str\<lparr>cstring := None\<rparr>, p))"

section \<open>Packets\<close>

subsection \<open>Publish and acknowledgements\<close>

definition qm_MQTTSerialize_publishLength :: "int \<Rightarrow> MQTTString \<Rightarrow> int \<Rightarrow> int" where
  "qm_MQTTSerialize_publishLength qos topicName payloadlen =
     (let l = 2 + qm_MQTTstrlen topicName + payloadlen in if qos > 0 then l + 2 else l)"

text \<open>The return code and the memory at \<^verbatim>\<open>buf\<close>; the payload is the list of its \<^verbatim>\<open>payloadlen\<close> bytes.\<close>

definition qm_MQTTSerialize_publish ::
  "mem \<Rightarrow> int \<Rightarrow> u8 \<Rightarrow> int \<Rightarrow> u8 \<Rightarrow> u16 \<Rightarrow> MQTTString \<Rightarrow> u8 list \<Rightarrow> int \<times> mem" where
  "qm_MQTTSerialize_publish buf buflen dup qos retained packetid topicName payload =
     (let rem_len = qm_MQTTSerialize_publishLength qos topicName (int (length payload))
      in if qm_MQTTPacket_len rem_len > buflen then (MQTTPACKET_BUFFER_TOO_SHORT, buf)
         else
           let pp1 = qm_writeChar (buf, 0) (MQTTHeader PUBLISH dup (word_of_int qos) retained);
               pp2 = qm_MQTTPacket_encode pp1 rem_len;
               pp3 = qm_writeMQTTString pp2 topicName;
               pp4 = (if qos > 0 then qm_writeInt pp3 (uint packetid) else pp3)
           in case memcpy pp4 payload of (m, p) \<Rightarrow> (int p, m))"

record publish_data =
  pdup :: u8
  pqos :: int
  pretained :: u8
  ppacketid :: u16
  ptopicName :: MQTTString
  ppayload :: nat
  ppayloadlen :: int

definition qm_MQTTDeserialize_publish :: "publish_data \<Rightarrow> mem \<Rightarrow> int \<Rightarrow> int \<times> publish_data" where
  "qm_MQTTDeserialize_publish d buf buflen =
     (let (byte, p0) = qm_readChar buf 0
      in if header_type byte \<noteq> PUBLISH then (0, d)
         else
           let d1 = d\<lparr>pdup := header_dup byte, pqos := uint (header_qos byte), pretained := header_retain byte\<rparr>;
               (rc, mylen) = qm_MQTTPacket_decodeBuf (buf, p0);
               p1 = p0 + nat rc;
               enddata = int p1 + mylen;
               (ok, topic, p2) = qm_readMQTTLenString (ptopicName d1) buf p1 enddata;
               d2 = d1\<lparr>ptopicName := topic\<rparr>
           in if ok = 0 \<or> enddata - int p2 < 0 then (rc, d2)
              else
                let (d3, p3) = (if pqos d2 > 0
                      then case qm_readInt buf p2 of (v, p) \<Rightarrow> (d2\<lparr>ppacketid := word_of_int v\<rparr>, p)
                      else (d2, p2))
                in (1, d3\<lparr>ppayloadlen := enddata - int p3, ppayload := p3\<rparr>))"

definition qm_MQTTSerialize_ack :: "mem \<Rightarrow> int \<Rightarrow> u8 \<Rightarrow> u8 \<Rightarrow> u16 \<Rightarrow> int \<times> mem" where
  "qm_MQTTSerialize_ack buf buflen packettype dup packetid =
     (if buflen < 4 then (MQTTPACKET_BUFFER_TOO_SHORT, buf)
      else
        let pp1 = qm_writeChar (buf, 0) (MQTTHeader packettype dup (if packettype = PUBREL then 1 else 0) 0);
            pp2 = qm_MQTTPacket_encode pp1 2
        in case qm_writeInt pp2 (uint packetid) of (m, p) \<Rightarrow> (int p, m))"

definition MQTTSerialize_puback :: "mem \<Rightarrow> int \<Rightarrow> u16 \<Rightarrow> int \<times> mem" where
  "MQTTSerialize_puback buf buflen packetid = qm_MQTTSerialize_ack buf buflen PUBACK 0 packetid"

definition MQTTSerialize_pubrel :: "mem \<Rightarrow> int \<Rightarrow> u8 \<Rightarrow> u16 \<Rightarrow> int \<times> mem" where
  "MQTTSerialize_pubrel buf buflen dup packetid = qm_MQTTSerialize_ack buf buflen PUBREL dup packetid"

definition MQTTSerialize_pubcomp :: "mem \<Rightarrow> int \<Rightarrow> u16 \<Rightarrow> int \<times> mem" where
  "MQTTSerialize_pubcomp buf buflen packetid = qm_MQTTSerialize_ack buf buflen PUBCOMP 0 packetid"

record ack_data =
  atype :: u8
  adup :: u8
  apacketid :: u16

definition qm_MQTTDeserialize_ack :: "ack_data \<Rightarrow> mem \<Rightarrow> int \<Rightarrow> int \<times> ack_data" where
  "qm_MQTTDeserialize_ack d buf buflen =
     (let (byte, p0) = qm_readChar buf 0;
          d1 = d\<lparr>adup := header_dup byte, atype := header_type byte\<rparr>;
          (rc, mylen) = qm_MQTTPacket_decodeBuf (buf, p0)
      in if mylen < 2 then (rc, d1)
         else (1, d1\<lparr>apacketid := word_of_int (fst (qm_readInt buf (p0 + nat rc)))\<rparr>))"

subsection \<open>Subscribe and unsubscribe\<close>

fun qm_MQTTSerialize_subscribeLength :: "MQTTString list \<Rightarrow> int" where
  "qm_MQTTSerialize_subscribeLength [] = 2"
| "qm_MQTTSerialize_subscribeLength (t # ts) = qm_MQTTSerialize_subscribeLength ts + (2 + qm_MQTTstrlen t + 1)"

text \<open>The \<^verbatim>\<open>count\<close> topics and their qualities of service are one list.\<close>

fun write_filters :: "cursor \<Rightarrow> (MQTTString \<times> int) list \<Rightarrow> cursor" where
  "write_filters pp [] = pp"
| "write_filters pp ((t, q) # ts) = write_filters (qm_writeChar (qm_writeMQTTString pp t) (word_of_int q)) ts"

definition qm_MQTTSerialize_subscribe :: "mem \<Rightarrow> int \<Rightarrow> u8 \<Rightarrow> u16 \<Rightarrow> (MQTTString \<times> int) list \<Rightarrow> int \<times> mem" where
  "qm_MQTTSerialize_subscribe buf buflen dup packetid filters =
     (let rem_len = qm_MQTTSerialize_subscribeLength (map fst filters)
      in if qm_MQTTPacket_len rem_len > buflen then (MQTTPACKET_BUFFER_TOO_SHORT, buf)
         else
           let pp1 = qm_writeChar (buf, 0) (MQTTHeader SUBSCRIBE dup 1 0);
               pp2 = qm_MQTTPacket_encode pp1 rem_len;
               pp3 = qm_writeInt pp2 (uint packetid)
           in case write_filters pp3 filters of (m, p) \<Rightarrow> (int p, m))"

record suback_data =
  spacketid :: u16
  scount :: int
  grantedQoSs :: "nat \<Rightarrow> int"

text \<open>\<open>char_int\<close> is the value of a \<^verbatim>\<open>char\<close>, signed or not as the compiler has it.\<close>

function suback_loop :: "(u8 \<Rightarrow> int) \<Rightarrow> int \<Rightarrow> mem \<Rightarrow> nat \<Rightarrow> int \<Rightarrow> suback_data \<Rightarrow> int \<times> suback_data" where
  "suback_loop char_int maxcount buf p enddata d =
     (if int p < enddata
      then if scount d > maxcount then (- 1, d)
           else case qm_readChar buf p of (c, p') \<Rightarrow>
             suback_loop char_int maxcount buf p' enddata
               (d\<lparr>grantedQoSs := (grantedQoSs d)(nat (scount d) := char_int c), scount := scount d + 1\<rparr>)
      else (1, d))"
  by pat_completeness auto
termination
  by (relation "measure (\<lambda>(char_int, maxcount, buf, p, enddata, d). nat (enddata - int p))") (auto simp: qm_readChar_def)

definition qm_MQTTDeserialize_suback ::
  "(u8 \<Rightarrow> int) \<Rightarrow> suback_data \<Rightarrow> int \<Rightarrow> mem \<Rightarrow> int \<Rightarrow> int \<times> suback_data" where
  "qm_MQTTDeserialize_suback char_int d maxcount buf buflen =
     (let (byte, p0) = qm_readChar buf 0
      in if header_type byte \<noteq> SUBACK then (0, d)
         else
           let (rc, mylen) = qm_MQTTPacket_decodeBuf (buf, p0);
               p1 = p0 + nat rc
           in if mylen < 2 then (rc, d)
              else case qm_readInt buf p1 of (v, p2) \<Rightarrow>
                suback_loop char_int maxcount buf p2 (int p1 + mylen) (d\<lparr>spacketid := word_of_int v, scount := 0\<rparr>))"

fun qm_MQTTSerialize_unsubscribeLength :: "MQTTString list \<Rightarrow> int" where
  "qm_MQTTSerialize_unsubscribeLength [] = 2"
| "qm_MQTTSerialize_unsubscribeLength (t # ts) = qm_MQTTSerialize_unsubscribeLength ts + (2 + qm_MQTTstrlen t)"

definition qm_MQTTSerialize_unsubscribe :: "mem \<Rightarrow> int \<Rightarrow> u8 \<Rightarrow> u16 \<Rightarrow> MQTTString list \<Rightarrow> int \<times> mem" where
  "qm_MQTTSerialize_unsubscribe buf buflen dup packetid filters =
     (let rem_len = qm_MQTTSerialize_unsubscribeLength filters
      in if qm_MQTTPacket_len rem_len > buflen then (MQTTPACKET_BUFFER_TOO_SHORT, buf)
         else
           let pp1 = qm_writeChar (buf, 0) (MQTTHeader UNSUBSCRIBE dup 1 0);
               pp2 = qm_MQTTPacket_encode pp1 rem_len;
               pp3 = qm_writeInt pp2 (uint packetid)
           in case foldl qm_writeMQTTString pp3 filters of (m, p) \<Rightarrow> (int p, m))"

text \<open>The local \<^verbatim>\<open>type\<close> and \<^verbatim>\<open>dup\<close> start at 0.\<close>

definition qm_MQTTDeserialize_unsuback :: "u16 \<Rightarrow> mem \<Rightarrow> int \<Rightarrow> int \<times> u16" where
  "qm_MQTTDeserialize_unsuback packetid buf buflen =
     (case qm_MQTTDeserialize_ack \<lparr>atype = 0, adup = 0, apacketid = packetid\<rparr> buf buflen of
        (rc, d) \<Rightarrow> (if atype d = UNSUBACK then 1 else rc, apacketid d))"

subsection \<open>Connect and the empty packets\<close>

text \<open>The flags byte of the connect packet and the session flag of its acknowledgement.\<close>

definition MQTTConnectFlags :: "u8 \<Rightarrow> u8 \<Rightarrow> u8 \<Rightarrow> u8 \<Rightarrow> u8 \<Rightarrow> u8 \<Rightarrow> u8" where
  "MQTTConnectFlags cleansession will willQoS willRetain password username =
     push_bit 1 (take_bit 1 cleansession) OR push_bit 2 (take_bit 1 will) OR push_bit 3 (take_bit 2 willQoS)
     OR push_bit 5 (take_bit 1 willRetain) OR push_bit 6 (take_bit 1 password) OR push_bit 7 (take_bit 1 username)"

definition connack_sessionpresent :: "u8 \<Rightarrow> u8" where
  "connack_sessionpresent all = drop_bit 7 all"

record MQTTPacket_willOptions =
  topicName :: MQTTString
  message :: MQTTString
  retained :: u8
  qos :: u8

record MQTTPacket_connectData =
  MQTTVersion :: u8
  clientID :: MQTTString
  keepAliveInterval :: u16
  cleansession :: u8
  willFlag :: u8
  will :: MQTTPacket_willOptions
  username :: MQTTString
  password :: MQTTString

definition string_given :: "MQTTString \<Rightarrow> bool" where
  "string_given s = (cstring s \<noteq> None \<or> lendata s \<noteq> None)"

definition qm_MQTTSerialize_connectLength :: "MQTTPacket_connectData \<Rightarrow> int" where
  "qm_MQTTSerialize_connectLength options =
     (if MQTTVersion options = 3 then 12 else if MQTTVersion options = 4 then 10 else 0)
     + (qm_MQTTstrlen (clientID options) + 2)
     + (if willFlag options \<noteq> 0
        then qm_MQTTstrlen (topicName (will options)) + 2 + qm_MQTTstrlen (message (will options)) + 2 else 0)
     + (if string_given (username options) then qm_MQTTstrlen (username options) + 2 else 0)
     + (if string_given (password options) then qm_MQTTstrlen (password options) + 2 else 0)"

text \<open>The characters of \<^verbatim>\<open>"MQTT"\<close> and \<^verbatim>\<open>"MQIsdp"\<close> are written by their codes.\<close>

definition connect_flags :: "MQTTPacket_connectData \<Rightarrow> u8" where
  "connect_flags options =
     MQTTConnectFlags (cleansession options) (if willFlag options \<noteq> 0 then 1 else 0)
       (if willFlag options \<noteq> 0 then qos (will options) else 0)
       (if willFlag options \<noteq> 0 then retained (will options) else 0)
       (if string_given (password options) then 1 else 0)
       (if string_given (username options) then 1 else 0)"

definition qm_MQTTSerialize_connect :: "mem \<Rightarrow> int \<Rightarrow> MQTTPacket_connectData \<Rightarrow> int \<times> mem" where
  "qm_MQTTSerialize_connect buf buflen options =
     (let l = qm_MQTTSerialize_connectLength options
      in if qm_MQTTPacket_len l > buflen then (MQTTPACKET_BUFFER_TOO_SHORT, buf)
         else
           let pp1 = qm_writeChar (buf, 0) (MQTTHeader CONNECT 0 0 0);
               pp2 = qm_MQTTPacket_encode pp1 l;
               pp3 = (if MQTTVersion options = 4
                      then qm_writeChar (qm_writeCString pp2 [77, 81, 84, 84]) 4
                      else qm_writeChar (qm_writeCString pp2 [77, 81, 73, 115, 100, 112]) 3);
               pp4 = qm_writeChar pp3 (connect_flags options);
               pp5 = qm_writeInt pp4 (uint (keepAliveInterval options));
               pp6 = qm_writeMQTTString pp5 (clientID options);
               pp7 = (if willFlag options \<noteq> 0
                      then qm_writeMQTTString (qm_writeMQTTString pp6 (topicName (will options))) (message (will options))
                      else pp6);
               pp8 = (if string_given (username options) then qm_writeMQTTString pp7 (username options) else pp7);
               pp9 = (if string_given (password options) then qm_writeMQTTString pp8 (password options) else pp8)
           in case pp9 of (m, p) \<Rightarrow> (int p, m))"

record connack_data =
  sessionPresent :: u8
  connack_rc :: u8

definition qm_MQTTDeserialize_connack :: "connack_data \<Rightarrow> mem \<Rightarrow> int \<Rightarrow> int \<times> connack_data" where
  "qm_MQTTDeserialize_connack d buf buflen =
     (let (byte, p0) = qm_readChar buf 0
      in if header_type byte \<noteq> CONNACK then (0, d)
         else
           let (rc, mylen) = qm_MQTTPacket_decodeBuf (buf, p0);
               p1 = p0 + nat rc
           in if mylen < 2 then (rc, d)
              else
                let (flags, p2) = qm_readChar buf p1;
                    (c, p3) = qm_readChar buf p2
                in (1, d\<lparr>sessionPresent := connack_sessionpresent flags, connack_rc := c\<rparr>))"

definition qm_MQTTSerialize_zero :: "mem \<Rightarrow> int \<Rightarrow> u8 \<Rightarrow> int \<times> mem" where
  "qm_MQTTSerialize_zero buf buflen packettype =
     (if buflen < 2 then (MQTTPACKET_BUFFER_TOO_SHORT, buf)
      else case qm_MQTTPacket_encode (qm_writeChar (buf, 0) (MQTTHeader packettype 0 0 0)) 0 of (m, p) \<Rightarrow> (int p, m))"

definition qm_MQTTSerialize_disconnect :: "mem \<Rightarrow> int \<Rightarrow> int \<times> mem" where
  "qm_MQTTSerialize_disconnect buf buflen = qm_MQTTSerialize_zero buf buflen DISCONNECT"

definition qm_MQTTSerialize_pingreq :: "mem \<Rightarrow> int \<Rightarrow> int \<times> mem" where
  "qm_MQTTSerialize_pingreq buf buflen = qm_MQTTSerialize_zero buf buflen PINGREQ"

subsection \<open>Reading packets from a source of bytes\<close>

definition qm_getLenStringLen :: "mem \<Rightarrow> nat \<Rightarrow> int" where
  "qm_getLenStringLen m p = 256 * uint (m p) + uint (m (p + 1))"

definition MQTTPacket_read :: "'s getfn \<Rightarrow> mem \<Rightarrow> int \<Rightarrow> 's \<Rightarrow> int \<times> mem \<times> 's" where
  "MQTTPacket_read get buf buflen s =
     (let (rc1, bs1, s1) = get s 1;
          buf1 = fst (memcpy (buf, 0) bs1)
      in if rc1 \<noteq> 1 then (- 1, buf1, s1)
         else
           let (_, rem_len, s2) = qm_MQTTPacket_decode get s1;
               (buf2, l) = qm_MQTTPacket_encode (buf1, 1) rem_len
           in if rem_len + int l > buflen then (- 1, buf2, s2)
              else
                let (rc3, bs3, s3) = get s2 rem_len;
                    buf3 = fst (memcpy (buf2, l) bs3)
                in if rc3 \<noteq> rem_len then (- 1, buf3, s3) else (uint (header_type (buf3 0)), buf3, s3))"

record 's MQTTTransport =
  sck :: 's
  multiplier :: int
  rem_len :: int
  tlen :: int
  state :: int

function decodenb_loop :: "'s getfn \<Rightarrow> 's MQTTTransport \<Rightarrow> int \<times> 's MQTTTransport" where
  "decodenb_loop get trp =
     (let trp1 = trp\<lparr>tlen := tlen trp + 1\<rparr>
      in if tlen trp1 > MAX_NO_OF_REMAINING_LENGTH_BYTES then (MQTTPACKET_READ_ERROR, trp1)
         else case get (sck trp1) 1 of (frc, bs, s) \<Rightarrow>
           let trp2 = trp1\<lparr>sck := s\<rparr>
           in if frc = - 1 then (MQTTPACKET_READ_ERROR, trp2)
              else if frc = 0 then (0, trp2)
              else
                let c = hd bs;
                    trp3 = trp2\<lparr>rem_len := rem_len trp2 + uint (c AND 127) * multiplier trp2,
                                multiplier := multiplier trp2 * 128\<rparr>
                in if c AND 128 \<noteq> 0 then decodenb_loop get trp3 else (tlen trp3, trp3))"
  by pat_completeness auto
termination
  by (relation "measure (\<lambda>(get, trp). nat (4 - tlen trp))") (auto simp: MAX_NO_OF_REMAINING_LENGTH_BYTES_def)

definition MQTTPacket_decodenb :: "'s getfn \<Rightarrow> 's MQTTTransport \<Rightarrow> int \<times> 's MQTTTransport" where
  "MQTTPacket_decodenb get trp =
     decodenb_loop get (if tlen trp = 0 then trp\<lparr>multiplier := 1, rem_len := 0\<rparr> else trp)"

text \<open>The cases of the switch, each falling through to the next.\<close>

definition readnb_case2 :: "'s getfn \<Rightarrow> mem \<Rightarrow> 's MQTTTransport \<Rightarrow> int \<times> mem \<times> 's MQTTTransport" where
  "readnb_case2 get buf trp =
     (let (frc, bs, s) = get (sck trp) (rem_len trp);
          buf1 = fst (memcpy (buf, nat (tlen trp)) bs);
          trp1 = trp\<lparr>sck := s\<rparr>
      in if frc = - 1 then (- 1, buf1, trp1\<lparr>state := 0\<rparr>)
         else if frc = 0 then (0, buf1, trp1)
         else
           let trp2 = trp1\<lparr>rem_len := rem_len trp1 - frc, tlen := tlen trp1 + frc\<rparr>
           in if rem_len trp2 \<noteq> 0 then (0, buf1, trp2)
              else (uint (header_type (buf1 0)), buf1, trp2\<lparr>state := 0\<rparr>))"

definition readnb_case1 :: "'s getfn \<Rightarrow> mem \<Rightarrow> int \<Rightarrow> 's MQTTTransport \<Rightarrow> int \<times> mem \<times> 's MQTTTransport" where
  "readnb_case1 get buf buflen trp =
     (let (frc, trp1) = MQTTPacket_decodenb get trp
      in if frc = MQTTPACKET_READ_ERROR then (- 1, buf, trp1\<lparr>state := 0\<rparr>)
         else if frc = 0 then (0, buf, trp1)
         else
           let (buf1, l) = qm_MQTTPacket_encode (buf, 1) (rem_len trp1);
               trp2 = trp1\<lparr>tlen := int l\<rparr>
           in if rem_len trp2 + tlen trp2 > buflen then (- 1, buf1, trp2\<lparr>state := 0\<rparr>)
              else readnb_case2 get buf1 (trp2\<lparr>state := state trp2 + 1\<rparr>))"

definition readnb_case0 :: "'s getfn \<Rightarrow> mem \<Rightarrow> int \<Rightarrow> 's MQTTTransport \<Rightarrow> int \<times> mem \<times> 's MQTTTransport" where
  "readnb_case0 get buf buflen trp =
     (let (frc, bs, s) = get (sck trp) 1;
          buf1 = fst (memcpy (buf, 0) bs);
          trp1 = trp\<lparr>sck := s\<rparr>
      in if frc = - 1 then (- 1, buf1, trp1\<lparr>state := 0\<rparr>)
         else if frc = 0 then (0, buf1, trp1)
         else readnb_case1 get buf1 buflen (trp1\<lparr>tlen := 0, state := state trp1 + 1\<rparr>))"

definition MQTTPacket_readnb :: "'s getfn \<Rightarrow> mem \<Rightarrow> int \<Rightarrow> 's MQTTTransport \<Rightarrow> int \<times> mem \<times> 's MQTTTransport" where
  "MQTTPacket_readnb get buf buflen trp =
     (if state trp = 1 then readnb_case1 get buf buflen trp
      else if state trp = 2 then readnb_case2 get buf trp
      else readnb_case0 get buf buflen (trp\<lparr>state := 0\<rparr>))"

section \<open>Memory\<close>

text \<open>The memory holds a list of bytes at an offset.\<close>

definition holds :: "mem \<Rightarrow> nat \<Rightarrow> u8 list \<Rightarrow> bool" where
  "holds m p bs = (map m [p..<p + length bs] = bs)"

named_theorems wire_simps

declare qm_MQTTPacket_encode.simps [simp del] decode_rem_loop.simps [simp del]
  suback_loop.simps [simp del] decodenb_loop.simps [simp del]

lemma writeChar_memcpy: "qm_writeChar pp c = memcpy pp [c]"
  by simp

lemma memcpy_append [wire_simps]: "memcpy (memcpy pp as) bs = memcpy pp (as @ bs)"
  by (induction as arbitrary: pp) auto

lemma memcpy_eq: "memcpy (m, p) bs = (\<lambda>q. if p \<le> q \<and> q < p + length bs then bs ! (q - p) else m q, p + length bs)"
proof (induction bs arbitrary: m p)
  case (Cons b bs)
  have "x - p = Suc (x - Suc p)" if "Suc p \<le> x" for x
    using that by simp
  then show ?case
    using Cons by (auto simp: qm_writeChar_def fun_eq_iff)
qed (auto simp: fun_eq_iff)

lemma snd_memcpy [simp]: "snd (memcpy pp bs) = snd pp + length bs"
  by (cases pp) (simp add: memcpy_eq)

lemma memcpy_frame: "q < p \<or> p + length bs \<le> q \<Longrightarrow> fst (memcpy (m, p) bs) q = m q"
  by (auto simp: memcpy_eq)

lemma holds_Nil [simp]: "holds m p []"
  by (simp add: holds_def)

lemma holds_Cons [simp]: "holds m p (b # bs) \<longleftrightarrow> m p = b \<and> holds m (p + 1) bs"
  by (simp add: holds_def upt_conv_Cons del: upt_Suc)

lemma holds_append [simp]: "holds m p (as @ bs) \<longleftrightarrow> holds m p as \<and> holds m (p + length as) bs"
  by (induction as arbitrary: p) (auto simp: add.assoc)

lemma holds_memcpy: "holds (fst (memcpy (m, p) bs)) p bs"
  by (auto simp: holds_def memcpy_eq intro: nth_equalityI)

lemma holds_map: "holds m p bs \<Longrightarrow> map m [p..<p + length bs] = bs"
  by (simp add: holds_def)

section \<open>The wire format\<close>

fun rem_bytes :: "nat \<Rightarrow> u8 list" where
  "rem_bytes n = (if n < 128 then [of_nat n] else (of_nat (n mod 128) OR 0x80) # rem_bytes (n div 128))"

declare rem_bytes.simps [simp del]

definition packet_bytes :: "u8 \<Rightarrow> u8 list \<Rightarrow> u8 list" where
  "packet_bytes h body = h # rem_bytes (length body) @ body"

definition int_bytes :: "nat \<Rightarrow> u8 list" where
  "int_bytes n = [of_nat (n div 256), of_nat (n mod 256)]"

definition string_bytes :: "u8 list \<Rightarrow> u8 list" where
  "string_bytes s = int_bytes (length s) @ s"

lemma smod_sdiv_nat: "int n smod int k = int (n mod k)" "int n sdiv int k = int (n div k)"
  by (cases "n = 0"; cases "k = 0"; simp add: signed_divide_int_def signed_modulo_int_def zdiv_int zmod_int)+

lemma encode_wire [wire_simps]: "qm_MQTTPacket_encode pp (int n) = memcpy pp (rem_bytes n)"
proof (induction n arbitrary: pp rule: rem_bytes.induct)
  case (1 n)
  have q: "int n smod 128 = int (n mod 128)" "int n sdiv 128 = int (n div 128)"
    using smod_sdiv_nat [of n 128] by simp_all
  show ?case
  proof (cases "n < 128")
    case True
    then show ?thesis
      by (subst qm_MQTTPacket_encode.simps, subst rem_bytes.simps) (simp add: q Let_def)
  next
    case False
    then have "0 < n div 128" by (simp add: div_greater_zero_iff)
    then show ?thesis
      using False 1 by (subst qm_MQTTPacket_encode.simps, subst rem_bytes.simps) (simp add: q Let_def)
  qed
qed

lemma writeInt_wire [wire_simps]: "qm_writeInt pp (int n) = memcpy pp (int_bytes n)"
proof -
  have "int n smod 256 = int (n mod 256)" "int n sdiv 256 = int (n div 256)"
    using smod_sdiv_nat [of n 256] by simp_all
  then show ?thesis
    by (simp add: qm_writeInt_def int_bytes_def)
qed

lemma length_rem_bytes_step: "length (rem_bytes n) = (if n < 128 then 1 else Suc (length (rem_bytes (n div 128))))"
  by (subst rem_bytes.simps) simp

lemma length_rem_bytes:
  "n < 268435456 \<Longrightarrow>
   length (rem_bytes n) = (if n < 128 then 1 else if n < 16384 then 2 else if n < 2097152 then 3 else 4)"
  using length_rem_bytes_step [of n] length_rem_bytes_step [of "n div 128"]
    length_rem_bytes_step [of "n div 128 div 128"] length_rem_bytes_step [of "n div 128 div 128 div 128"]
  by (simp only: div_mult2_eq [symmetric] div_less_iff_less_mult) (simp split: if_splits)

lemma packet_len_enough:
  assumes "n < 268435456"
  shows "1 + int (length (rem_bytes n)) + int n \<le> qm_MQTTPacket_len (int n)"
  using assms by (simp add: qm_MQTTPacket_len_def Let_def length_rem_bytes)

section \<open>Decoding the remaining length\<close>

lemma bufchar_one [simp]: "qm_bufchar (m, p) 1 = (1, [m p], (m, p + 1))"
  by (simp add: qm_bufchar_def)

lemma digit_low: "(w :: u8) AND 127 = take_bit 7 w"
  using take_bit_eq_mask [of 7 w] by (simp add: mask_eq_exp_minus_1)

lemma digit_top: "(w :: u8) AND 128 \<noteq> 0 \<longleftrightarrow> bit w 7"
  using and_exp_eq_0_iff_not_bit [of w 7] by simp

lemma digit_128: "(128 :: u8) = push_bit 7 1"
  by simp

lemma digit_last:
  fixes n :: nat
  assumes "n < 128"
  shows "uint (of_nat n AND 127 :: u8) = int n" "(of_nat n AND 128 :: u8) = 0"
proof -
  have u: "unat (of_nat n :: u8) = n"
    using assms by (simp add: unat_of_nat)
  show "uint (of_nat n AND 127 :: u8) = int n"
    using assms u by (simp add: digit_low unsigned_take_bit_eq take_bit_nat_eq_self uint_nat)
  have "bit (of_nat n :: u8) 7 = bit (unat (of_nat n :: u8)) 7"
    by (simp only: bit_unsigned_iff) simp
  also have "\<dots> = False"
    using assms unfolding u by (simp add: bit_iff_odd)
  finally show "(of_nat n AND 128 :: u8) = 0"
    using digit_top [of "of_nat n"] by simp
qed

lemma digit_more:
  fixes n :: nat
  assumes "n < 128"
  shows "uint ((of_nat n OR 128) AND 127 :: u8) = int n" "((of_nat n OR 128) AND 128 :: u8) \<noteq> 0"
proof -
  have "(of_nat n OR 128) AND 127 = (of_nat n AND 127 :: u8)"
    by (simp add: bit.conj_disj_distrib2)
  then show "uint ((of_nat n OR 128) AND 127 :: u8) = int n"
    using digit_last [OF assms] by simp
  show "((of_nat n OR 128) AND 128 :: u8) \<noteq> 0"
    by (simp add: bit.conj_disj_distrib2 digit_last [OF assms])
qed

text \<open>
  A source of bytes: when the bytes ahead begin with \<open>as\<close>, asking for that many gives them and leaves the
  rest ahead.
\<close>

locale byte_source =
  fixes get :: "'s getfn" and gives :: "'s \<Rightarrow> u8 list \<Rightarrow> bool"
  assumes get_gives: "gives s (as @ bs) \<Longrightarrow> \<exists>s'. get s (int (length as)) = (int (length as), as, s') \<and> gives s' bs"
begin

lemma get_one: "gives s (b # bs) \<Longrightarrow> \<exists>s'. get s 1 = (1, [b], s') \<and> gives s' bs"
  using get_gives [of s "[b]" bs] by simp

lemma decode_rem_wire:
  assumes "gives s (rem_bytes n @ rest)" "k + int (length (rem_bytes n)) \<le> 4" "0 \<le> k"
  shows "\<exists>s'. decode_rem_loop get s k mult v = (k + int (length (rem_bytes n)), v + int n * mult, s') \<and> gives s' rest"
  using assms
proof (induction n arbitrary: s k mult v rule: rem_bytes.induct)
  case (1 n)
  show ?case
  proof (cases "n < 128")
    case True
    then have b: "rem_bytes n = [of_nat n]"
      by (subst rem_bytes.simps) simp
    then obtain s' where "get s 1 = (1, [of_nat n], s')" "gives s' rest"
      using get_one [of s "of_nat n" rest] 1(2) by auto
    then show ?thesis
      using True 1(3,4) by (subst decode_rem_loop.simps)
        (simp add: b digit_last MAX_NO_OF_REMAINING_LENGTH_BYTES_def Let_def)
  next
    case False
    have b: "rem_bytes n = (of_nat (n mod 128) OR 0x80) # rem_bytes (n div 128)"
      using False by (subst rem_bytes.simps) simp
    then obtain s' where g: "get s 1 = (1, [of_nat (n mod 128) OR 0x80], s')" "gives s' (rem_bytes (n div 128) @ rest)"
      using get_one [of s "of_nat (n mod 128) OR 0x80" "rem_bytes (n div 128) @ rest"] 1(2) by auto
    have pos: "0 < length (rem_bytes (n div 128))"
      by (simp add: length_rem_bytes_step [of "n div 128"])
    have v: "v + int (n mod 128) * mult + int (n div 128) * (mult * 128) = v + int n * mult"
      using arg_cong [OF mod_mult_div_eq [of n 128], of "\<lambda>x. int x * mult"]
      by (simp only: of_nat_add of_nat_mult) (simp add: algebra_simps)
    obtain s'' where "decode_rem_loop get s' (k + 1) (mult * 128) (v + int (n mod 128) * mult) =
        (k + (1 + int (length (rem_bytes (n div 128)))), v + int n * mult, s'')" "gives s'' rest"
      using False 1(3,4) 1(1) [OF _ g(2), of "k + 1" "mult * 128" "v + int (n mod 128) * mult"] v by (auto simp: b)
    then show ?thesis
      using False pos g(1) 1(3,4)
      by (subst decode_rem_loop.simps) (simp add: b digit_more MAX_NO_OF_REMAINING_LENGTH_BYTES_def Let_def)
  qed
qed

lemma decode_wire:
  assumes "n < 268435456" "gives s (rem_bytes n @ rest)"
  shows "\<exists>s'. qm_MQTTPacket_decode get s = (int (length (rem_bytes n)), int n, s') \<and> gives s' rest"
  using decode_rem_wire [OF assms(2), of 0 1 0] length_rem_bytes [OF assms(1)]
  by (simp add: qm_MQTTPacket_decode_def)

lemma read_wire:
  assumes "gives s (packet_bytes h body @ rest)" "length body < 268435456"
    and "int (length (packet_bytes h body)) \<le> buflen"
  shows "\<exists>s'. MQTTPacket_read get buf buflen s =
           (uint (header_type h), fst (memcpy (buf, 0) (packet_bytes h body)), s') \<and> gives s' rest"
proof -
  define r where "r = rem_bytes (length body)"
  obtain s1 where s1: "get s 1 = (1, [h], s1)" "gives s1 (r @ body @ rest)"
    using get_one [of s h "r @ body @ rest"] assms(1) by (auto simp: packet_bytes_def r_def)
  obtain s2 where s2: "qm_MQTTPacket_decode get s1 = (int (length r), int (length body), s2)" "gives s2 (body @ rest)"
    using decode_wire [OF assms(2), of s1 "body @ rest"] s1(2) by (auto simp: r_def)
  obtain s3 where s3: "get s2 (int (length body)) = (int (length body), body, s3)" "gives s3 rest"
    using get_gives [OF s2(2)] by auto
  have e: "qm_MQTTPacket_encode (memcpy (buf, 0) [h]) (int (length body)) = memcpy (buf, 0) (h # r)"
    by (simp only: encode_wire memcpy_append r_def) simp
  have c: "memcpy (memcpy (buf, 0) (h # r)) body = memcpy (buf, 0) (packet_bytes h body)"
    by (simp only: memcpy_append packet_bytes_def r_def) simp
  obtain m where p: "memcpy (buf, 0) (h # r) = (m, 1 + length r)"
    by (simp only: memcpy_eq) simp
  have h0: "fst (memcpy (buf, 0) (packet_bytes h body)) 0 = h"
    by (simp only: memcpy_eq) (simp add: packet_bytes_def)
  have l: "int (length body) + int (1 + length r) \<le> buflen"
    using assms(3) by (simp add: packet_bytes_def r_def)
  have e1: "(fst (memcpy (buf, 0) [h]), 1) = memcpy (buf, 0) [h]"
    by (simp only: memcpy_eq) simp
  show ?thesis
    using l s3 h0 c [unfolded p] unfolding MQTTPacket_read_def
    by (simp only: s1(1) s2(1) e1 e Let_def prod.case fst_conv p) (simp del: memcpy.simps)
qed

end

interpretation bufsrc: byte_source qm_bufchar "\<lambda>(m, p). holds m p"
  by unfold_locales (auto simp: qm_bufchar_def dest: holds_map)

lemma decodeBuf_wire:
  assumes "n < 268435456" "holds m p (rem_bytes n)"
  shows "qm_MQTTPacket_decodeBuf (m, p) = (int (length (rem_bytes n)), int n)"
  using bufsrc.decode_wire [OF assms(1), of "(m, p)" "[]"] assms(2)
  by (auto simp: qm_MQTTPacket_decodeBuf_def)

section \<open>Strings\<close>

definition represents :: "MQTTString \<Rightarrow> u8 list \<Rightarrow> bool" where
  "represents s bs =
     ((cstring s = Some bs \<and> len s \<le> 0) \<or>
      (cstring s = None \<and> len s = int (length bs) \<and> (lendata s = Some bs \<or> bs = [])))"

lemma length_int_bytes [simp]: "length (int_bytes n) = 2"
  by (simp add: int_bytes_def)

lemma length_string_bytes [simp]: "length (string_bytes s) = 2 + length s"
  by (simp add: string_bytes_def)

lemma strlen_represents: "represents s bs \<Longrightarrow> qm_MQTTstrlen s = int (length bs)"
  by (auto simp: represents_def qm_MQTTstrlen_def)

lemma writeMQTTString_wire [wire_simps]:
  assumes "represents s bs"
  shows "qm_writeMQTTString pp s = memcpy pp (string_bytes bs)"
proof -
  have z: "qm_writeInt pp 0 = memcpy pp (int_bytes 0)"
    using writeInt_wire [of pp 0] by simp
  show ?thesis
    using assms by (auto simp: represents_def qm_writeMQTTString_def qm_writeCString_def string_bytes_def z wire_simps
      split: option.splits)
qed

lemma uint_of_nat_u8: "k < 256 \<Longrightarrow> uint (of_nat k :: u8) = int k"
  by (simp only: uint_nat unat_of_nat) simp

lemma readInt_wire:
  assumes "holds m p (int_bytes n)" "n < 65536"
  shows "qm_readInt m p = (int n, p + 2)"
proof -
  have "n div 256 < 256"
    using assms(2) by (simp add: div_less_iff_less_mult)
  then have "uint (m p) = int (n div 256)" "uint (m (p + 1)) = int (n mod 256)"
    using assms(1) uint_of_nat_u8 [of "n div 256"] uint_of_nat_u8 [of "n mod 256"]
    unfolding int_bytes_def by (simp_all del: of_nat_mod of_nat_div)
  moreover have "256 * int (n div 256) + int (n mod 256) = int n"
    using mult_div_mod_eq [of 256 n] by (metis of_nat_add of_nat_mult of_nat_numeral)
  ultimately show ?thesis
    unfolding qm_readInt_def by simp
qed

lemma readMQTTLenString_wire:
  assumes "holds m p (string_bytes bs)" "length bs < 65536" "int (p + 2 + length bs) \<le> e"
  shows "qm_readMQTTLenString str m p e =
           (1, str\<lparr>len := int (length bs), lendata := Some bs, cstring := None\<rparr>, p + 2 + length bs)"
proof -
  have "holds m p (int_bytes (length bs))" "holds m (p + 2) bs"
    using assms(1) by (simp_all add: string_bytes_def)
  then show ?thesis
    using assms(2,3) readInt_wire [of m p "length bs"] holds_map [of m "p + 2" bs]
    by (simp add: qm_readMQTTLenString_def)
qed

section \<open>Publish\<close>

definition publish_body :: "int \<Rightarrow> u16 \<Rightarrow> u8 list \<Rightarrow> u8 list \<Rightarrow> u8 list" where
  "publish_body q pid topic payload = string_bytes topic @ (if q > 0 then int_bytes (unat pid) else []) @ payload"

lemma publish_wire:
  assumes "represents t topic"
  shows "qm_MQTTSerialize_publish buf buflen dup q ret pid t payload =
    (let body = publish_body q pid topic payload;
         w = packet_bytes (MQTTHeader PUBLISH dup (word_of_int q) ret) body
     in if qm_MQTTPacket_len (int (length body)) > buflen then (MQTTPACKET_BUFFER_TOO_SHORT, buf)
        else (int (length w), fst (memcpy (buf, 0) w)))"
proof -
  have l: "qm_MQTTSerialize_publishLength q t (int (length payload)) = int (length (publish_body q pid topic payload))"
    using strlen_represents [OF assms] by (simp add: qm_MQTTSerialize_publishLength_def publish_body_def Let_def)
  have p: "qm_writeInt pp (uint pid) = memcpy pp (int_bytes (unat pid))" for pp
    using writeInt_wire [of pp "unat pid"] by (simp only: uint_nat)
  show ?thesis
    unfolding qm_MQTTSerialize_publish_def l Let_def encode_wire
    by (simp add: p writeMQTTString_wire [OF assms] writeChar_memcpy memcpy_append
      packet_bytes_def publish_body_def case_prod_beta del: memcpy.simps)
qed

lemma take_bit_small: "unat (w :: u8) < 2 ^ k \<Longrightarrow> take_bit k w = w"
  by (simp only: word_unat_eq_iff unsigned_take_bit_eq) (simp add: take_bit_nat_eq_self)

lemma header_fields:
  "header_type (MQTTHeader t d q r) = take_bit 4 t" "header_dup (MQTTHeader t d q r) = take_bit 1 d"
  "header_qos (MQTTHeader t d q r) = take_bit 2 q" "header_retain (MQTTHeader t d q r) = take_bit 1 r"
  unfolding header_type_def header_dup_def header_qos_def header_retain_def MQTTHeader_def
  by (rule bit_word_eqI; simp only: bit_take_bit_iff bit_drop_bit_eq bit_or_iff bit_push_bit_iff o_apply possible_bit_word;
      auto simp: less_Suc_eq numeral_eq_Suc)+

lemma publish_unwire:
  assumes "holds m 0 (packet_bytes (MQTTHeader PUBLISH dup (word_of_int q) ret) (publish_body q pid topic payload))"
    and "length topic < 65536" "length (publish_body q pid topic payload) < 268435456" "0 \<le> q" "q < 4"
  shows "qm_MQTTDeserialize_publish d m buflen =
    (let r = length (rem_bytes (length (publish_body q pid topic payload)));
         p = 1 + r + 2 + length topic + (if q > 0 then 2 else 0)
     in (1, d\<lparr>pdup := take_bit 1 dup, pqos := q, pretained := take_bit 1 ret,
              ppacketid := (if q > 0 then pid else ppacketid d),
              ptopicName := (ptopicName d)\<lparr>len := int (length topic), lendata := Some topic, cstring := None\<rparr>,
              ppayload := p, ppayloadlen := int (length payload)\<rparr>))"
proof -
  define b where "b = publish_body q pid topic payload"
  define r where "r = length (rem_bytes (length b))"
  have lb: "length b = 2 + length topic + (if q > 0 then 2 else 0) + length payload"
    by (simp add: b_def publish_body_def)
  have h: "m 0 = MQTTHeader PUBLISH dup (word_of_int q) ret" "holds m 1 (rem_bytes (length b))" "holds m (1 + r) b"
    using assms(1) by (simp_all add: packet_bytes_def b_def r_def)
  have dec: "qm_MQTTPacket_decodeBuf (m, 1) = (int r, int (length b))"
    using decodeBuf_wire [OF _ h(2)] assms(3) by (simp add: b_def r_def)
  have str: "qm_readMQTTLenString t m (1 + r) (int (1 + r) + int (length b)) =
      (1, t\<lparr>len := int (length topic), lendata := Some topic, cstring := None\<rparr>, 1 + r + 2 + length topic)" for t
    using readMQTTLenString_wire [of m "1 + r" topic] h(3) assms(2) lb by (simp add: b_def publish_body_def)
  have pid: "qm_readInt m (1 + r + 2 + length topic) = (uint pid, 1 + r + 2 + length topic + 2)" if "q > 0"
    using readInt_wire [of m "1 + r + 2 + length topic" "unat pid"] unat_less_u16 [of pid] h(3) that
    by (simp add: b_def publish_body_def uint_nat add_ac)
  have hq: "uint (take_bit 2 (word_of_int q :: u8)) = q"
    using assms(4,5) by (simp add: unsigned_take_bit_eq uint_word_of_int take_bit_int_eq_self)
  show ?thesis
    unfolding qm_MQTTDeserialize_publish_def b_def [symmetric] r_def [symmetric]
    using str [of "ptopicName d", simplified] pid [simplified] lb
    by (cases "q > 0") (simp_all add: qm_readChar_def h(1) header_fields hq dec [simplified] PUBLISH_def Let_def)
qed

lemma publish_fields:
  assumes h: "holds m 0 (packet_bytes (MQTTHeader PUBLISH dup (word_of_int q) ret) (publish_body q pid topic payload))"
    and l: "length topic < 65536" "length (publish_body q pid topic payload) < 268435456"
    and q: "0 \<le> q" "q < 4" and flags: "dup < 2" "ret < 2"
  shows "\<exists>d'. qm_MQTTDeserialize_publish d m buflen = (1, d') \<and> pdup d' = dup \<and> pqos d' = q \<and> pretained d' = ret
    \<and> (q > 0 \<longrightarrow> ppacketid d' = pid) \<and> represents (ptopicName d') topic
    \<and> ppayloadlen d' = int (length payload) \<and> map m [ppayload d'..<ppayload d' + length payload] = payload"
proof -
  have bits: "take_bit 1 dup = dup" "take_bit 1 ret = ret"
    using flags by (auto simp only: word_less_nat_alt intro!: take_bit_small) auto
  define p where "p = 1 + length (rem_bytes (length (publish_body q pid topic payload))) + 2 + length topic
    + (if q > 0 then 2 else 0)"
  have "holds m p payload"
    using h by (cases "q > 0") (simp_all add: p_def packet_bytes_def publish_body_def add_ac)
  then show ?thesis
    using publish_unwire [OF h l q, of d buflen] holds_map [of m p payload]
    unfolding Let_def bits p_def [symmetric] by (simp add: represents_def)
qed

section \<open>Properties\<close>

text \<open>C31: the remaining-length field: for every length the protocol allows, the encoder writes one to
  four bytes from which the decoder gets the length back, counting those bytes, and the packet length that
  the serialisers compare with the buffer is enough for the header, the field and the rest.\<close>

theorem remaining_length_round_trip:
  assumes "n < 268435456" "qm_MQTTPacket_encode (buf, p) (int n) = (m, e)"
  shows "qm_MQTTPacket_decodeBuf (m, p) = (int (e - p), int n) \<and> 1 \<le> e - p \<and> e - p \<le> 4
         \<and> 1 + int (e - p) + int n \<le> qm_MQTTPacket_len (int n)"
proof -
  have "m = fst (memcpy (buf, p) (rem_bytes n))" "e = p + length (rem_bytes n)"
    using assms(2) snd_memcpy [of "(buf, p)" "rem_bytes n"] by (simp_all add: encode_wire)
  then show ?thesis
    using decodeBuf_wire [OF assms(1), of m p] holds_memcpy [of buf p "rem_bytes n"]
      packet_len_enough [OF assms(1)] length_rem_bytes [OF assms(1)] by simp
qed

theorem remaining_length_round_trip_witness:
  "\<exists>m e. qm_MQTTPacket_encode (\<lambda>_. 0, 3) 321 = (m, e) \<and> qm_MQTTPacket_decodeBuf (m, 3) = (int (e - 3), 321)"
  using remaining_length_round_trip [of 321 "\<lambda>_. 0" 3, OF _ surjective_pairing]
  by (intro exI [of _ "fst (qm_MQTTPacket_encode (\<lambda>_. 0, 3) 321)"] exI [of _ "snd (qm_MQTTPacket_encode (\<lambda>_. 0, 3) 321)"]) simp



lemma suback_loop_fills:
  assumes "int p + int k = e" "scount d = int c" "int c + int k \<le> maxcount + 1"
  shows "suback_loop ci maxcount m p e d =
           (1, d\<lparr>grantedQoSs := (\<lambda>i. if c \<le> i \<and> i < c + k then ci (m (p + (i - c))) else grantedQoSs d i),
                scount := int (c + k)\<rparr>)"
  using assms
proof (induction k arbitrary: p c d)
  case 0
  then show ?case
    by (subst suback_loop.simps) (auto simp: fun_eq_iff)
next
  case (Suc k)
  have "p + 1 + (i - Suc c) = p + (i - c)" if "Suc c \<le> i" for i
    using that by simp
  then show ?case
    using Suc.prems Suc.IH [of "p + 1" "d\<lparr>grantedQoSs := (grantedQoSs d)(c := ci (m p)), scount := int (Suc c)\<rparr>" "Suc c"]
    by (subst suback_loop.simps) (auto simp: qm_readChar_def fun_eq_iff add_ac)
qed

text \<open>The bound on the return codes of a subscription answer is off by one: an answer with one code
  more than the caller's array has room for is accepted, and the last code is stored one place behind the
  array.\<close>

theorem suback_overruns:
  assumes "maxcount < 125" "m 0 = 0x90" "m 1 = of_nat (maxcount + 3)"
  shows "\<exists>d'. qm_MQTTDeserialize_suback ci d (int maxcount) m buflen = (1, d') \<and> scount d' = int maxcount + 1
           \<and> grantedQoSs d' maxcount = ci (m (4 + maxcount))"
proof -
  have "holds m 1 (rem_bytes (maxcount + 3))"
    using assms by (simp add: rem_bytes.simps [of "maxcount + 3"])
  then have dec: "qm_MQTTPacket_decodeBuf (m, 1) = (1, int (maxcount + 3))"
    using decodeBuf_wire [of "maxcount + 3" m 1] assms(1) by (simp add: length_rem_bytes_step)
  have "header_type (m 0) = SUBACK"
    unfolding assms(2) by (simp add: header_type_def SUBACK_def)
  then show ?thesis
    using suback_loop_fills [of "Suc (Suc (Suc (Suc 0)))" "Suc maxcount" "5 + int maxcount"
        "d\<lparr>spacketid := word_of_int (fst (qm_readInt m 2)), scount := 0\<rparr>" 0 "int maxcount" ci m] dec
    unfolding qm_MQTTDeserialize_suback_def
    by (simp add: qm_readChar_def qm_readInt_def Let_def eval_nat_numeral)
qed

theorem suback_overruns_witness:
  "\<exists>d'. qm_MQTTDeserialize_suback uint \<lparr>spacketid = 0, scount = 0, grantedQoSs = \<lambda>_. - 1\<rparr> 1
     (\<lambda>i. if i < 6 then [0x90, 4, 0, 7, 1, 2] ! i else 0) 6 = (1, d') \<and> scount d' = 2 \<and> grantedQoSs d' 1 = 2"
  using suback_overruns [of 1 "\<lambda>i. if i < 6 then [0x90, 4, 0, 7, 1, 2] ! i else 0" uint] by simp

text \<open>A publish packet whose topic does not fit is reported as success: when the remaining length takes
  one byte and is too short for the topic's length field or for the topic, the deserialiser returns 1, its
  code for success, with the payload of the caller's last packet.\<close>

theorem publish_malformed_success:
  assumes "header_type (m 0) = PUBLISH" "m 1 = of_nat n" "n < 128"
    and "n < 2 \<or> int n - 2 < 256 * uint (m 2) + uint (m 3)"
  shows "\<exists>d'. qm_MQTTDeserialize_publish d m buflen = (1, d')
           \<and> ppayload d' = ppayload d \<and> ppayloadlen d' = ppayloadlen d \<and> cstring (ptopicName d') = None"
proof -
  have "holds m 1 (rem_bytes n)"
    using assms by (simp add: rem_bytes.simps [of n])
  then have dec: "qm_MQTTPacket_decodeBuf (m, Suc 0) = (1, int n)"
    using decodeBuf_wire [of n m 1] assms(3) by (simp add: length_rem_bytes_step)
  show ?thesis
    using assms(1,4) unfolding qm_MQTTDeserialize_publish_def
    by (auto simp: qm_readChar_def dec Let_def qm_readMQTTLenString_def qm_readInt_def eval_nat_numeral)
qed

theorem publish_malformed_success_witness:
  "\<exists>d'. qm_MQTTDeserialize_publish
       \<lparr>pdup = 0, pqos = 0, pretained = 0, ppacketid = 0,
        ptopicName = \<lparr>cstring = None, len = 0, lendata = None\<rparr>, ppayload = 50, ppayloadlen = 9\<rparr>
       (\<lambda>i. if i < 4 then [0x30, 2, 0xff, 0xff] ! i else 0) 4 = (1, d') \<and> ppayload d' = 50 \<and> ppayloadlen d' = 9"
  using publish_malformed_success [of "\<lambda>i. if i < 4 then [0x30, 2, 0xff, 0xff] ! i else 0" 2
    "\<lparr>pdup = 0, pqos = 0, pretained = 0, ppacketid = 0,
      ptopicName = \<lparr>cstring = None, len = 0, lendata = None\<rparr>, ppayload = 50, ppayloadlen = 9\<rparr>" 4]
  by (auto simp: header_type_def PUBLISH_def)

text \<open>The non-blocking reader never completes a packet that has nothing after its length, such as a
  ping response: with a source that reads no bytes when asked for none, it answers \<open>0\<close>, call again, and from
  then on every further call answers the same and changes nothing.\<close>

theorem readnb_empty_packet_stuck:
  assumes "get s 1 = (1, [h], s1)" "get s1 1 = (1, [0], s2)" "get s2 0 = (0, [], s2)"
    and "2 \<le> buflen" "state trp = 0" "sck trp = s"
  shows "\<exists>m' trp'. MQTTPacket_readnb get buf buflen trp = (0, m', trp')
           \<and> MQTTPacket_readnb get m' buflen trp' = (0, m', trp') \<and> m' 0 = h \<and> m' 1 = 0"
proof -
  have enc: "qm_MQTTPacket_encode (m, Suc 0) 0 = (m(1 := 0), 2)" for m
    using encode_wire [of "(m, Suc 0)" 0] by (simp add: rem_bytes.simps qm_writeChar_def)
  have dec: "MQTTPacket_decodenb get (t\<lparr>sck := s1, tlen := 0, state := 1\<rparr>) =
      (1, t\<lparr>sck := s2, multiplier := 128, rem_len := 0, tlen := 1, state := 1\<rparr>)" for t :: "'a MQTTTransport"
    using assms(2) by (simp add: MQTTPacket_decodenb_def decodenb_loop.simps MAX_NO_OF_REMAINING_LENGTH_BYTES_def)
  show ?thesis
    using assms dec [of trp] enc
    by (simp add: MQTTPacket_readnb_def readnb_case0_def readnb_case1_def readnb_case2_def
      MQTTPACKET_READ_ERROR_def qm_writeChar_def)
qed

theorem readnb_empty_packet_stuck_witness:
  "\<exists>m' trp'. MQTTPacket_readnb qm_bufchar (\<lambda>_. 0) 16
       \<lparr>sck = (\<lambda>i. if i = 0 then 0xd0 else 0, 0), multiplier = 0, rem_len = 0, tlen = 0, state = 0\<rparr> = (0, m', trp')
     \<and> MQTTPacket_readnb qm_bufchar m' 16 trp' = (0, m', trp') \<and> m' 0 = 0xd0 \<and> m' 1 = 0"
  by (rule readnb_empty_packet_stuck [where s = "(\<lambda>i. if i = 0 then 0xd0 else 0, 0)"
      and ?s1.0 = "(\<lambda>i. if i = 0 then 0xd0 else 0, 1)" and ?s2.0 = "(\<lambda>i. if i = 0 then 0xd0 else 0, 2)"])
    (simp_all add: qm_bufchar_def)

text \<open>The session flag is the lowest bit of the byte on the wire; the bit field without \<^verbatim>\<open>REVERSED\<close> reads the highest.\<close>

lemma connack_session_lost:
  "qm_MQTTDeserialize_connack d (\<lambda>i. if i < 4 then [0x20, 2, 1, 0] ! i else 0) buflen =
     (1, d\<lparr>sessionPresent := 0, connack_rc := 0\<rparr>)"
proof -
  have "holds (\<lambda>i. if i < 4 then [0x20, 2, 1, 0] ! i else 0) 1 (rem_bytes 2)"
    by (simp add: rem_bytes.simps)
  then show ?thesis
    using decodeBuf_wire [of 2 "\<lambda>i. if i < 4 then [0x20, 2, 1, 0] ! i else 0" 1]
    by (simp add: qm_MQTTDeserialize_connack_def qm_readChar_def header_type_def CONNACK_def Let_def
      connack_sessionpresent_def length_rem_bytes_step)
qed

lemma ack_round_trip:
  assumes "4 \<le> buflen" "packettype < 16" "dup < 2"
    and "qm_MQTTSerialize_ack buf buflen packettype dup pid = (rc, m)"
  shows "rc = 4 \<and> qm_MQTTDeserialize_ack d m buflen = (1, \<lparr>atype = packettype, adup = dup, apacketid = pid\<rparr>)"
proof -
  define h where "h = MQTTHeader packettype dup (if packettype = PUBREL then 1 else 0) 0"
  have r2: "rem_bytes 2 = [2]"
    by (simp add: rem_bytes.simps)
  have e: "qm_MQTTPacket_encode pp 2 = memcpy pp [2]" for pp
    using encode_wire [of pp 2] r2 by simp
  have "qm_writeInt pp (uint pid) = memcpy pp (int_bytes (unat pid))" for pp
    using writeInt_wire [of pp "unat pid"] by (simp only: uint_nat)
  then have r: "rc = 4" "m = fst (memcpy (buf, 0) (h # 2 # int_bytes (unat pid)))"
    using assms(1,4) unfolding qm_MQTTSerialize_ack_def h_def [symmetric] Let_def e writeChar_memcpy
    by (auto simp only: memcpy_append case_prod_beta snd_memcpy prod.inject append_Cons append_Nil) auto
  then have hd: "m 0 = h" "holds m 1 (rem_bytes 2)" "holds m (Suc (Suc 0)) (int_bytes (unat pid))"
    using holds_memcpy [of buf 0 "h # 2 # int_bytes (unat pid)"] by (simp_all add: r2 del: memcpy.simps)
  have bits: "take_bit 4 packettype = packettype" "take_bit 1 dup = dup"
    using assms(2,3) by (auto simp only: word_less_nat_alt intro!: take_bit_small) auto
  show ?thesis
    using r(1) hd decodeBuf_wire [OF _ hd(2)] readInt_wire [OF hd(3)] unat_less_u16 [of pid] bits
    by (simp add: qm_MQTTDeserialize_ack_def qm_readChar_def h_def header_fields r2 Let_def)
qed

end
