(* ===== verification/Hash_Stream.thy ===== *)
theory Hash_Stream
  imports Byte_Order
begin

text \<open>
  What the hash functions of \<^verbatim>\<open>utility/md5\<close>, \<^verbatim>\<open>utility/sha1\<close> and \<^verbatim>\<open>utility/sha256\<close> share.

  The context and the block-wise update of MD5 and SHA-1 are the same text in both files; here they are
  one function over the function that processes a block. The reference is a fold of that function over the
  blocks of 64 bytes of the padded message.

  The locale \<open>hash_stream\<close> is the interface the users of a hash function rely on: a context represents the
  bytes fed to it, whatever pieces they came in, and finishing it gives the digest of those bytes. What
  HMAC needs of a hash function is proved in the locale.
\<close>

unbundle bit_operations_syntax

type_synonym u64 = "64 word"

section \<open>Folding over blocks\<close>

function md_fold :: "('s \<Rightarrow> u8 list \<Rightarrow> 's) \<Rightarrow> 's \<Rightarrow> u8 list \<Rightarrow> 's" where
  "md_fold f s m = (if length m < 64 then s else md_fold f (f s (take 64 m)) (drop 64 m))"
  by pat_completeness auto
termination
  by (relation "measure (\<lambda>(f, s, m). length m)") auto

declare md_fold.simps [simp del]

definition md_rest :: "u8 list \<Rightarrow> u8 list" where
  "md_rest m = drop (length m - length m mod 64) m"

lemma md_fold_short [simp]: "length m < 64 \<Longrightarrow> md_fold f s m = s"
  by (subst md_fold.simps) simp

lemma md_fold_block: "length b = 64 \<Longrightarrow> md_fold f s (b @ m) = md_fold f (f s b) m"
  by (subst md_fold.simps) simp

lemma md_fold_append: "64 dvd length a \<Longrightarrow> md_fold f s (a @ b) = md_fold f (md_fold f s a) b"
proof (induction f s a rule: md_fold.induct)
  case (1 f s a)
  show ?case
  proof (cases "length a < 64")
    case True
    then have "a = []" using 1(2) by (auto elim: dvdE)
    then show ?thesis by simp
  next
    case False
    have "64 dvd length (drop 64 a)"
      using 1(2) False by (simp add: dvd_diff_nat)
    then have "md_fold f (f s (take 64 a)) (drop 64 a @ b) = md_fold f (md_fold f (f s (take 64 a)) (drop 64 a)) b"
      using 1(1) False by simp
    then show ?thesis
      using False md_fold.simps [of f s "a @ b"] md_fold.simps [of f s a] by simp
  qed
qed

lemma md_fold_cong:
  assumes "\<And>s b. P s \<Longrightarrow> length b = 64 \<Longrightarrow> f s b = g s b \<and> P (f s b)" "P s"
  shows "md_fold f s m = md_fold g s m \<and> P (md_fold f s m)"
  using assms(2)
proof (induction "length m" arbitrary: s m rule: less_induct)
  case less
  show ?case
  proof (cases "length m < 64")
    case False
    then have "f s (take 64 m) = g s (take 64 m)" "P (f s (take 64 m))"
      using assms(1) [of s "take 64 m"] less(2) by auto
    moreover have "length (drop 64 m) < length m"
      using False by simp
    ultimately show ?thesis
      using False less(1) [of "drop 64 m" "f s (take 64 m)"] md_fold.simps [of f s m] md_fold.simps [of g s m] by auto
  qed (use less(2) in simp)
qed

lemma length_md_rest [simp]: "length (md_rest m) = length m mod 64"
  by (simp add: md_rest_def)

lemma md_split: obtains a where "m = a @ md_rest m" "64 dvd length a"
proof
  show "m = take (length m - length m mod 64) m @ md_rest m"
    by (simp add: md_rest_def)
  show "64 dvd length (take (length m - length m mod 64) m)"
    by (simp add: dvd_minus_mod)
qed

lemma md_rest_append: "64 dvd length a \<Longrightarrow> md_rest (a @ b) = md_rest b"
  by (auto simp: md_rest_def mod_add_eq elim!: dvdE)

lemma md_rest_id [simp]: "length m < 64 \<Longrightarrow> md_rest m = m"
  by (simp add: md_rest_def)

lemma md_fold_rest: "md_fold f s (m @ x) = md_fold f (md_fold f s m) (md_rest m @ x)"
proof -
  obtain a where a: "m = a @ md_rest m" "64 dvd length a" by (rule md_split)
  then have "md_fold f s (m @ x) = md_fold f (md_fold f s a) (md_rest m @ x)"
    using md_fold_append [OF a(2), of f s "md_rest m @ x"] by (metis append_assoc)
  moreover have "md_fold f s m = md_fold f s a"
    using md_fold_append [OF a(2), of f s "md_rest m"] a(1) by simp
  ultimately show ?thesis by simp
qed

lemma md_rest_rest: "md_rest (m @ x) = md_rest (md_rest m @ x)"
proof -
  obtain a where a: "m = a @ md_rest m" "64 dvd length a" by (rule md_split)
  then show ?thesis using md_rest_append [OF a(2), of "md_rest m @ x"] by (metis append_assoc)
qed

section \<open>Padding\<close>

text \<open>A one bit, zeros up to eight bytes before the end of a block, and the eight bytes of the length in bits.\<close>

definition pad_zeros :: "nat \<Rightarrow> nat" where
  "pad_zeros n = (if n mod 64 < 56 then 55 - n mod 64 else 119 - n mod 64)"

definition md_pad :: "(nat \<Rightarrow> u8 list) \<Rightarrow> u8 list \<Rightarrow> u8 list" where
  "md_pad lenbytes m = m @ 0x80 # replicate (pad_zeros (length m)) 0 @ lenbytes (8 * length m)"

definition be64_bytes :: "nat \<Rightarrow> u8 list" where
  "be64_bytes n = map (\<lambda>i. of_nat (n div 256 ^ (7 - i))) [0..<8]"

definition le64_bytes :: "nat \<Rightarrow> u8 list" where
  "le64_bytes n = map (\<lambda>i. of_nat (n div 256 ^ i)) [0..<8]"

lemma length64 [simp]: "length (be64_bytes n) = 8" "length (le64_bytes n) = 8"
  by (simp_all add: be64_bytes_def le64_bytes_def)

lemma pad_block: "(length m + 1 + pad_zeros (length m) + 8) mod 64 = 0"
proof -
  have "(length m + k) mod 64 = (length m mod 64 + k) mod 64" for k
    by (simp add: mod_add_left_eq)
  moreover have "length m mod 64 < 64"
    by simp
  ultimately show ?thesis
    unfolding pad_zeros_def add.assoc by simp
qed

section \<open>The update of MD5 and SHA-1\<close>

record md_context =
  total0 :: u32
  total1 :: u32
  state :: "u32 list"
  buffer :: "u8 list"

text \<open>\<^verbatim>\<open>memcpy\<close> into a buffer.\<close>

definition put_bytes :: "'a list \<Rightarrow> nat \<Rightarrow> 'a list \<Rightarrow> 'a list" where
  "put_bytes buf i xs = take i buf @ xs @ drop (i + length xs) buf"

text \<open>The loop over complete blocks of the input: the context and the input that is left.\<close>

function md_blocks :: "(md_context \<Rightarrow> u8 list \<Rightarrow> md_context) \<Rightarrow> md_context \<Rightarrow> u8 list \<Rightarrow> md_context \<times> u8 list" where
  "md_blocks process ctx input =
     (if length input \<ge> 64 then md_blocks process (process ctx (take 64 input)) (drop 64 input) else (ctx, input))"
  by pat_completeness auto
termination
  by (relation "measure (\<lambda>(process, ctx, input). length input)") auto

declare md_blocks.simps [simp del]

text \<open>The counter of bytes, and the bytes themselves with \<^verbatim>\<open>left\<close> bytes already in the buffer.\<close>

definition md_count :: "md_context \<Rightarrow> u32 \<Rightarrow> md_context" where
  "md_count ctx ilen =
     (let ctx1 = ctx\<lparr>total0 := total0 ctx + ilen\<rparr>
      in if total0 ctx1 < ilen then ctx1\<lparr>total1 := total1 ctx1 + 1\<rparr> else ctx1)"

definition md_feed :: "(md_context \<Rightarrow> u8 list \<Rightarrow> md_context) \<Rightarrow> md_context \<Rightarrow> nat \<Rightarrow> u8 list \<Rightarrow> md_context" where
  "md_feed process ctx left input =
     (let fill = 64 - left;
          (ctx1, input1, left1) =
            (if left \<noteq> 0 \<and> length input \<ge> fill
             then let c = ctx\<lparr>buffer := put_bytes (buffer ctx) left (take fill input)\<rparr>
                  in (process c (buffer c), drop fill input, 0)
             else (ctx, input, left));
          (ctx2, input2) = md_blocks process ctx1 input1
      in if input2 \<noteq> [] then ctx2\<lparr>buffer := put_bytes (buffer ctx2) left1 input2\<rparr> else ctx2)"

definition md_update :: "(md_context \<Rightarrow> u8 list \<Rightarrow> md_context) \<Rightarrow> md_context \<Rightarrow> u8 list \<Rightarrow> md_context" where
  "md_update process ctx input =
     (if input = [] then ctx
      else md_feed process (md_count ctx (of_nat (length input))) (unat (total0 ctx AND 0x3F)) input)"

definition iot_padding :: "u8 list" where
  "iot_padding = 0x80 # replicate 63 0"

text \<open>The length words and the padding that both \<^verbatim>\<open>finish\<close> functions compute.\<close>

definition md_high :: "md_context \<Rightarrow> u32" where
  "md_high ctx = drop_bit 29 (total0 ctx) OR push_bit 3 (total1 ctx)"

definition md_low :: "md_context \<Rightarrow> u32" where
  "md_low ctx = push_bit 3 (total0 ctx)"

definition md_padn :: "md_context \<Rightarrow> nat" where
  "md_padn ctx = (let last = unat (total0 ctx AND 0x3F) in if last < 56 then 56 - last else 120 - last)"

text \<open>A context that has taken in the bytes \<open>m\<close>.\<close>

definition md_repr :: "(u32 list \<Rightarrow> u8 list \<Rightarrow> u32 list) \<Rightarrow> u32 list \<Rightarrow> md_context \<Rightarrow> u8 list \<Rightarrow> bool" where
  "md_repr f iv ctx m =
     (state ctx = md_fold f iv m \<and> length (buffer ctx) = 64 \<and> take (length m mod 64) (buffer ctx) = md_rest m
      \<and> total0 ctx = of_nat (length m) \<and> total1 ctx = of_nat (length m div 2 ^ 32))"

lemma take_put [simp]: "i + length xs \<le> length buf \<Longrightarrow> take (i + length xs) (put_bytes buf i xs) = take i buf @ xs"
  by (simp add: put_bytes_def)

lemma length_put [simp]: "i + length xs \<le> length buf \<Longrightarrow> length (put_bytes buf i xs) = length buf"
  by (simp add: put_bytes_def)

lemma put_Nil [simp]: "put_bytes buf i [] = buf"
  by (simp add: put_bytes_def)

lemma put_full: "i + length xs = length buf \<Longrightarrow> put_bytes buf i xs = take i buf @ xs"
  by (simp add: put_bytes_def)

lemma blocks_eq:
  assumes "\<And>c d. process c d = c\<lparr>state := f (state c) d\<rparr>"
  shows "md_blocks process ctx input = (ctx\<lparr>state := md_fold f (state ctx) input\<rparr>, md_rest input)"
proof (induction "length input" arbitrary: ctx input rule: less_induct)
  case less
  show ?case
  proof (cases "64 \<le> length input")
    case True
    have "md_rest (drop 64 input) = md_rest input"
      using md_rest_append [of "take 64 input" "drop 64 input"] True by simp
    then show ?thesis
      using True less [of "drop 64 input" "process ctx (take 64 input)"] md_blocks.simps [of process ctx input]
        md_fold.simps [of f "state ctx" input] by (simp add: assms)
  next
    case False
    then show ?thesis by (simp add: md_blocks.simps [of process ctx input])
  qed
qed

lemma left_mod: "unat ((of_nat n :: u32) AND 0x3F) = n mod 64"
proof -
  have "(of_nat n :: u32) AND 0x3F = take_bit 6 (of_nat n)"
    using take_bit_eq_mask [of 6 "of_nat n :: u32"] by (simp add: mask_eq_exp_minus_1)
  then have "unat ((of_nat n :: u32) AND 0x3F) = take_bit 6 (unat (of_nat n :: u32))"
    by (simp only: unsigned_take_bit_eq)
  also have "\<dots> = n mod 64"
    by (simp only: unat_of_nat take_bit_eq_mod) (simp add: mod_mod_cancel)
  finally show ?thesis .
qed

text \<open>The two counters are the length in 64 bits.\<close>

lemma carry_nat:
  fixes B :: nat
  assumes "k < B"
  shows "(n + k) div B = n div B + (if n mod B + k < B then 0 else 1)"
    and "(n + k) mod B < k \<longleftrightarrow> \<not> n mod B + k < B"
proof -
  have lt: "n mod B < B" "n mod B + k - B < B"
    using assms mod_less_divisor [of B n] by linarith+
  have "(n mod B + k) div B = (if n mod B + k < B then 0 else 1)"
    using lt assms by (simp add: le_div_geq)
  then show "(n + k) div B = n div B + (if n mod B + k < B then 0 else 1)"
    using assms by (simp add: div_add1_eq [of n k B])
  have "(n + k) mod B = (n mod B + k) mod B"
    by (simp add: mod_add_left_eq)
  also have "\<dots> = (if n mod B + k < B then n mod B + k else n mod B + k - B)"
    using lt assms by (simp add: le_mod_geq)
  finally have e: "(n + k) mod B = (if n mod B + k < B then n mod B + k else n mod B + k - B)" .
  show "(n + k) mod B < k \<longleftrightarrow> \<not> n mod B + k < B"
  proof (cases "n mod B + k < B")
    case False
    then have "n mod B + k - B < k"
      using lt(1) by linarith
    then show ?thesis
      unfolding e using False by simp
  qed (simp add: e)
qed

lemma count_carry:
  assumes "k < 2 ^ 32"
  shows "(of_nat n + of_nat k :: u32) < of_nat k \<longleftrightarrow> \<not> n mod 2 ^ 32 + k < 2 ^ 32"
proof -
  have "unat (of_nat n + of_nat k :: u32) = (n + k) mod 2 ^ 32"
    by (simp only: of_nat_add [symmetric] unat_of_nat) simp
  moreover have "unat (of_nat k :: u32) = k"
    using assms by (simp only: unat_of_nat) simp
  ultimately show ?thesis
    using carry_nat(2) [OF assms, of n] by (simp only: word_less_nat_alt)
qed

lemma count_repr:
  assumes "length input < 2 ^ 32" "md_repr f iv ctx m"
  shows "md_count ctx (of_nat (length input)) =
    ctx\<lparr>total0 := of_nat (length (m @ input)), total1 := of_nat (length (m @ input) div 2 ^ 32)\<rparr>"
  using assms(2) count_carry [OF assms(1), of "length m"] carry_nat(1) [OF assms(1), of "length m"]
  by (simp add: md_count_def md_repr_def Let_def del: power_numeral)

text \<open>The buffer holds the bytes after the last complete block, the state is that after the complete blocks.\<close>

lemma feed_repr:
  assumes process: "\<And>c d. process c d = c\<lparr>state := f (state c) d\<rparr>"
    and ctx: "length (buffer ctx) = 64" "take (length r) (buffer ctx) = r" "length r < 64"
  shows "\<exists>buf. md_feed process ctx (length r) input = ctx\<lparr>state := md_fold f (state ctx) (r @ input), buffer := buf\<rparr>
           \<and> length buf = 64 \<and> take ((length r + length input) mod 64) buf = md_rest (r @ input)"
proof -
  have put: "length (put_bytes buf 0 (md_rest x)) = 64" "take (length x mod 64) (put_bytes buf 0 (md_rest x)) = md_rest x"
    if "length buf = 64" for buf x
    using that take_put [of 0 "md_rest x" buf] length_put [of 0 "md_rest x" buf] by (simp_all add: less_imp_le)
  consider "r \<noteq> []" "64 - length r \<le> length input" | "r = []" | "r \<noteq> []" "length input < 64 - length r" by fastforce
  then show ?thesis
  proof cases
    case 1
    define blk where "blk = r @ take (64 - length r) input"
    have blk: "length blk = 64" "r @ input = blk @ drop (64 - length r) input"
      "put_bytes (buffer ctx) (length r) (take (64 - length r) input) = blk"
      using 1 ctx by (simp_all add: blk_def put_full)
    have "(length r + length input) mod 64 = length (drop (64 - length r) input) mod 64"
      using 1 ctx(3) by (simp add: le_mod_geq add.commute)
    then show ?thesis
      using 1 ctx blk put [of blk "drop (64 - length r) input"]
      by (intro exI [of _ "put_bytes blk 0 (md_rest (drop (64 - length r) input))"], cases ctx)
        (simp add: md_feed_def Let_def process blocks_eq [where f = f] md_fold_block md_rest_append)
  next
    case 2
    then show ?thesis
      using ctx(1) put [of "buffer ctx" input]
      by (intro exI [of _ "put_bytes (buffer ctx) 0 (md_rest input)"], cases ctx)
        (simp add: md_feed_def Let_def process blocks_eq [where f = f])
  next
    case 3
    then show ?thesis
      using ctx take_put [of "length r" input "buffer ctx"] length_put [of "length r" input "buffer ctx"]
      by (intro exI [of _ "put_bytes (buffer ctx) (length r) input"], cases ctx)
        (simp add: md_feed_def Let_def process blocks_eq [where f = f] less_imp_le)
  qed
qed

lemma update_repr:
  assumes process: "\<And>c d. process c d = c\<lparr>state := f (state c) d\<rparr>"
    and repr: "md_repr f iv ctx m" and len: "length input < 2 ^ 32"
  shows "md_repr f iv (md_update process ctx input) (m @ input)"
proof -
  have l: "unat (total0 ctx AND 0x3F) = length (md_rest m)"
    using repr left_mod by (simp add: md_repr_def)
  obtain buf where "md_feed process (md_count ctx (of_nat (length input))) (length (md_rest m)) input =
      md_count ctx (of_nat (length input))\<lparr>state := md_fold f (md_fold f iv m) (md_rest m @ input), buffer := buf\<rparr>"
    "length buf = 64" "take ((length m + length input) mod 64) buf = md_rest (md_rest m @ input)"
    using feed_repr [where process = process and f = f, OF process, where ctx = "md_count ctx (of_nat (length input))" and r = "md_rest m" and input = input] repr
    by (auto simp: count_repr [OF len repr] md_repr_def mod_add_left_eq)
  then show ?thesis
    using repr unfolding md_update_def l
    by (auto simp: md_repr_def count_repr [OF len repr] md_fold_rest [of f iv m input] md_rest_rest [of m input])
qed

section \<open>Padding a context\<close>

lemma padding_take: "k \<le> 63 \<Longrightarrow> take (Suc k) iot_padding = 0x80 # replicate k 0"
  by (simp add: iot_padding_def)

lemma padn_repr:
  assumes "md_repr f iv ctx m"
  shows "md_padn ctx = Suc (pad_zeros (length m))" "pad_zeros (length m) \<le> 63"
proof -
  have l: "unat (total0 ctx AND 0x3F) = length m mod 64"
    using assms left_mod by (simp add: md_repr_def)
  have "length m mod 64 < 64"
    by simp
  then show "md_padn ctx = Suc (pad_zeros (length m))" "pad_zeros (length m) \<le> 63"
    unfolding md_padn_def pad_zeros_def l Let_def by (auto simp del: mod_less_divisor)
qed

text \<open>Feeding the padding and the length leaves the state after all blocks of the padded message.\<close>

lemma finish_repr:
  assumes process: "\<And>c d. process c d = c\<lparr>state := f (state c) d\<rparr>"
    and repr: "md_repr f iv ctx m" and lenb: "length (lenbytes (8 * length m)) = 8"
  shows "state (md_update process (md_update process ctx (take (md_padn ctx) iot_padding)) (lenbytes (8 * length m))) =
           md_fold f iv (md_pad lenbytes m)"
proof -
  let ?pad = "0x80 # replicate (pad_zeros (length m)) 0 :: u8 list"
  have t: "take (md_padn ctx) iot_padding = ?pad" "length ?pad \<le> 64"
    using padn_repr [OF repr] by (simp_all only: padding_take) simp
  have "md_repr f iv (md_update process ctx ?pad) (m @ ?pad)"
    by (rule update_repr [where process = process and f = f, OF process repr]) (use t(2) in simp)
  then have "md_repr f iv (md_update process (md_update process ctx ?pad) (lenbytes (8 * length m)))
      ((m @ ?pad) @ lenbytes (8 * length m))"
    by (rule update_repr [where process = process and f = f, OF process]) (simp add: lenb)
  then show ?thesis
    unfolding t md_repr_def by (simp add: md_pad_def)
qed

text \<open>The bits of the length in two words.\<close>

lemma bit_of_nat_u32: "bit (of_nat n :: u32) i \<longleftrightarrow> i < 32 \<and> bit n i"
  by (simp add: bit_simps)

lemma length_words:
  assumes "md_repr f iv ctx m"
  shows "md_high ctx = of_nat (8 * length m div 2 ^ 32)" "md_low ctx = of_nat (8 * length m)"
proof -
  have e: "8 * length m = push_bit 3 (length m)"
    by (simp add: push_bit_eq_mult)
  have t: "total0 ctx = of_nat (length m)" "total1 ctx = of_nat (drop_bit 32 (length m))"
    using assms by (simp_all add: md_repr_def drop_bit_eq_div)
  show "md_high ctx = of_nat (8 * length m div 2 ^ 32)"
    unfolding md_high_def t e drop_bit_eq_div [symmetric]
  proof (rule bit_word_eqI)
    fix i
    assume "i < LENGTH(32)"
    then show "bit (drop_bit 29 (of_nat (length m) :: u32) OR push_bit 3 (of_nat (drop_bit 32 (length m)))) i =
        bit (of_nat (drop_bit 32 (push_bit 3 (length m))) :: u32) i"
      by (cases "i < 3") (simp_all only: bit_of_nat_u32 bit_or_iff bit_drop_bit_eq o_apply bit_push_bit_iff possible_bit_word
        possible_bit_def, auto simp: add.commute)
  qed
  show "md_low ctx = of_nat (8 * length m)"
    unfolding md_low_def t by (simp add: push_bit_eq_mult)
qed

lemma byte_of_word: "k + 8 \<le> 32 \<Longrightarrow> (ucast (drop_bit k (of_nat n :: u32)) :: u8) = of_nat (n div 2 ^ k)"
  unfolding drop_bit_eq_div [of k n, symmetric]
  by (rule bit_word_eqI) (auto simp: bit_simps)

lemma words_bytes64:
  "bytes32 (of_nat n) @ bytes32 (of_nat (n div 2 ^ 32)) = le64_bytes n"
  "rev (bytes32 (of_nat (n div 2 ^ 32))) @ rev (bytes32 (of_nat n)) = be64_bytes n"
proof -
  have l: "[0..<8] = [0, 1, 2, 3, 4, 5, 6, 7 :: nat]"
    by (simp add: upt_rec)
  show le: "bytes32 (of_nat n) @ bytes32 (of_nat (n div 2 ^ 32)) = le64_bytes n"
    using byte_of_word [of 0] by (simp add: bytes32_def le64_bytes_def l byte_of_word div_mult2_eq [symmetric])
  have "be64_bytes n = rev (le64_bytes n)"
    by (simp add: be64_bytes_def le64_bytes_def l)
  then show "rev (bytes32 (of_nat (n div 2 ^ 32))) @ rev (bytes32 (of_nat n)) = be64_bytes n"
    by (simp only: le [symmetric] rev_append)
qed

text \<open>Masks that keep all bits, and rotations written with shifts.\<close>

lemma and_all_ones: "x AND 0xFFFFFFFF = (x :: u32)"
proof -
  have "(0xFFFFFFFF :: u32) = - 1" by simp
  then show ?thesis by (simp only: and.right_neutral)
qed

lemma ucast_low_byte: "(ucast (w AND 0xFF) :: u8) = ucast (w :: u32)"
proof -
  have "w AND 0xFF = take_bit 8 w"
    using take_bit_eq_mask [of 8 w] by (simp add: mask_eq_exp_minus_1)
  then show ?thesis
    by (simp only:) (rule bit_word_eqI, simp add: bit_simps)
qed

lemma rotl_shifts:
  fixes x :: u32
  assumes "0 < n" "n < 32"
  shows "push_bit n x OR drop_bit (32 - n) x = word_rotl n x"
proof (rule bit_word_eqI)
  fix i
  assume i: "i < LENGTH(32)"
  show "bit (push_bit n x OR drop_bit (32 - n) x) i = bit (word_rotl n x) i"
  proof (cases "n \<le> i")
    case True
    then have "(i + 32 - n) mod 32 = i - n" "\<not> bit x (32 - n + i)"
      using assms i by (auto simp: le_mod_geq dest: bit_imp_le_length)
    then show ?thesis using True assms i by (simp add: bit_simps)
  next
    case False
    then have "(i + 32 - n) mod 32 = 32 - n + i"
      using assms by simp
    then show ?thesis using False assms i by (simp add: bit_simps)
  qed
qed

lemma rotr_shifts:
  fixes x :: u32
  assumes "0 < n" "n < 32"
  shows "drop_bit n x OR push_bit (32 - n) x = word_rotr n x"
proof -
  have "word_rotr n x = word_rotl (32 - n) x"
    using assms by (simp add: word_rotl_eq_word_rotr)
  then show ?thesis
    using rotl_shifts [of "32 - n" x] assms by (simp add: or.commute)
qed

lemma four_bytes: "j + 4 \<le> length b \<Longrightarrow> take 4 (drop j b) = [b ! j, b ! (j + 1), b ! (j + 2), b ! (j + 3)]"
proof -
  assume "j + 4 \<le> length b"
  then have "drop j b = b ! j # b ! (j + 1) # b ! (j + 2) # b ! (j + 3) # drop (j + 4) b"
    by (simp add: Cons_nth_drop_Suc eval_nat_numeral)
  then show ?thesis by simp
qed

section \<open>Message schedules in a circular window\<close>

text \<open>
  The hash functions keep the last sixteen words of the message schedule \<open>w\<close> in an array that is indexed
  modulo 16; \<open>window w t W\<close> says that it holds the words before \<open>t\<close> (and the first sixteen).
\<close>

definition window :: "(nat \<Rightarrow> u32) \<Rightarrow> nat \<Rightarrow> u32 list \<Rightarrow> bool" where
  "window w t W = (length W = 16 \<and> (\<forall>i < max t 16. t \<le> i + 16 \<longrightarrow> W ! (i mod 16) = w i))"

lemma window_init: "length W = 16 \<Longrightarrow> (\<And>i. i < 16 \<Longrightarrow> w i = W ! i) \<Longrightarrow> window w 0 W"
  by (simp add: window_def)

lemma window_early: "window w t W \<Longrightarrow> t < 16 \<Longrightarrow> window w (Suc t) W"
  by (auto simp: window_def)

lemma window_read: "window w t W \<Longrightarrow> 16 \<le> t \<Longrightarrow> 0 < k \<Longrightarrow> k \<le> 16 \<Longrightarrow> W ! ((t - k) mod 16) = w (t - k)"
  by (auto simp: window_def)

lemma window_current: "window w (Suc t) W \<Longrightarrow> W ! (t mod 16) = w t"
  by (auto simp: window_def)

lemma mod_window_neq: "i < t \<Longrightarrow> Suc t \<le> i + 16 \<Longrightarrow> i mod 16 \<noteq> t mod (16 :: nat)"
proof
  assume lt: "i < t" "Suc t \<le> i + 16" and "i mod 16 = t mod 16"
  then have "16 dvd t - i"
    using mod_eq_dvd_iff_nat [of i t 16] by simp
  then show False
    using lt dvd_imp_le [of 16 "t - i"] by linarith
qed

lemma window_write:
  assumes "window w t W" "16 \<le> t"
  shows "window w (Suc t) (W[t mod 16 := w t])"
proof -
  have "W[t mod 16 := w t] ! (i mod 16) = w i" if i: "i < Suc t" "Suc t \<le> i + 16" for i
  proof (cases "i = t")
    case True
    then show ?thesis using assms(1) by (simp add: window_def)
  next
    case False
    then have "i mod 16 \<noteq> t mod 16" "W ! (i mod 16) = w i"
      using assms i mod_window_neq [of i t] by (auto simp: window_def)
    then show ?thesis by simp
  qed
  then show ?thesis
    using assms by (simp add: window_def max_def)
qed

section \<open>The interface\<close>

locale hash_stream =
  fixes start :: 'c and upd :: "'c \<Rightarrow> u8 list \<Rightarrow> 'c" and fin :: "'c \<Rightarrow> u8 list"
    and repr :: "'c \<Rightarrow> u8 list \<Rightarrow> bool" and digest :: "u8 list \<Rightarrow> u8 list"
  assumes start_ok: "repr start []"
    and upd_ok: "repr c m \<Longrightarrow> length d < 2 ^ 32 \<Longrightarrow> repr (upd c d) (m @ d)"
    and fin_ok: "repr c m \<Longrightarrow> fin c = digest m"
begin

lemma pieces_repr:
  "repr c m \<Longrightarrow> list_all (\<lambda>d. length d < 2 ^ 32) ds \<Longrightarrow> repr (foldl upd c ds) (m @ concat ds)"
proof (induction ds arbitrary: c m)
  case (Cons d ds)
  then show ?case using Cons.IH [of "upd c d" "m @ d"] upd_ok by simp
qed simp

lemma pieces_digest: "list_all (\<lambda>d. length d < 2 ^ 32) ds \<Longrightarrow> fin (foldl upd start ds) = digest (concat ds)"
  using pieces_repr [OF start_ok] fin_ok by fastforce

lemma two_passes:
  assumes "length ipad < 2 ^ 32" "length opad < 2 ^ 32" "length msg < 2 ^ 32" "length (digest (ipad @ msg)) < 2 ^ 32"
  shows "fin (upd (upd start opad) (fin (upd (upd start ipad) msg))) = digest (opad @ digest (ipad @ msg))"
  using assms pieces_digest [of "[ipad, msg]"] pieces_digest [of "[opad, digest (ipad @ msg)]"] by simp

end

end
