(* ===== verification/Sha256.thy ===== *)
theory Sha256
  imports Hash_Stream Complex_Main
begin

text \<open>
  SHA-256 as in \<^verbatim>\<open>utility/sha256/qm_utils_sha256.c\<close>. The code reads and writes words through pointers
  into byte buffers, so the byte order of the processor, which the code finds out at run time, is an argument
  \<open>big\<close>. The block function keeps its message schedule in the context's own buffer, which may also be the
  block it reads: \<open>None\<close> as the block is that case.

  The reference is the description in the standard, with the constants derived as the standard does. The routine computes it on processors of either byte
  order and for every way of cutting the message into pieces.
\<close>

unbundle bit_operations_syntax

section \<open>The routines\<close>

definition SHA256_BLOCK_LENGTH :: nat where "SHA256_BLOCK_LENGTH = 64"
definition SHA256_SHORT_BLOCK_LENGTH :: nat where "SHA256_SHORT_BLOCK_LENGTH = SHA256_BLOCK_LENGTH - 8"

definition R256 :: "nat \<Rightarrow> u32 \<Rightarrow> u32" where "R256 b x = drop_bit b x"
definition S32 :: "nat \<Rightarrow> u32 \<Rightarrow> u32" where "S32 b x = drop_bit b x OR push_bit (32 - b) x"

definition Ch :: "u32 \<Rightarrow> u32 \<Rightarrow> u32 \<Rightarrow> u32" where "Ch x y z = (x AND y) XOR (NOT x AND z)"
definition Maj :: "u32 \<Rightarrow> u32 \<Rightarrow> u32 \<Rightarrow> u32" where "Maj x y z = (x AND y) XOR (x AND z) XOR (y AND z)"

definition Sigma0_256 :: "u32 \<Rightarrow> u32" where "Sigma0_256 x = S32 2 x XOR S32 13 x XOR S32 22 x"
definition Sigma1_256 :: "u32 \<Rightarrow> u32" where "Sigma1_256 x = S32 6 x XOR S32 11 x XOR S32 25 x"
definition sigma0_256 :: "u32 \<Rightarrow> u32" where "sigma0_256 x = S32 7 x XOR S32 18 x XOR R256 3 x"
definition sigma1_256 :: "u32 \<Rightarrow> u32" where "sigma1_256 x = S32 17 x XOR S32 19 x XOR R256 10 x"

definition K256 :: "u32 list" where
  "K256 = concat
     [[0x428a2f98, 0x71374491, 0xb5c0fbcf, 0xe9b5dba5],
      [0x3956c25b, 0x59f111f1, 0x923f82a4, 0xab1c5ed5],
      [0xd807aa98, 0x12835b01, 0x243185be, 0x550c7dc3],
      [0x72be5d74, 0x80deb1fe, 0x9bdc06a7, 0xc19bf174],
      [0xe49b69c1, 0xefbe4786, 0x0fc19dc6, 0x240ca1cc],
      [0x2de92c6f, 0x4a7484aa, 0x5cb0a9dc, 0x76f988da],
      [0x983e5152, 0xa831c66d, 0xb00327c8, 0xbf597fc7],
      [0xc6e00bf3, 0xd5a79147, 0x06ca6351, 0x14292967],
      [0x27b70a85, 0x2e1b2138, 0x4d2c6dfc, 0x53380d13],
      [0x650a7354, 0x766a0abb, 0x81c2c92e, 0x92722c85],
      [0xa2bfe8a1, 0xa81a664b, 0xc24b8b70, 0xc76c51a3],
      [0xd192e819, 0xd6990624, 0xf40e3585, 0x106aa070],
      [0x19a4c116, 0x1e376c08, 0x2748774c, 0x34b0bcb5],
      [0x391c0cb3, 0x4ed8aa4a, 0x5b9cca4f, 0x682e6ff3],
      [0x748f82ee, 0x78a5636f, 0x84c87814, 0x8cc70208],
      [0x90befffa, 0xa4506ceb, 0xbef9a3f7, 0xc67178f2]]"

definition sha256_initial_hash_value :: "u32 list" where
  "sha256_initial_hash_value =
     [0x6a09e667, 0xbb67ae85, 0x3c6ef372, 0xa54ff53a, 0x510e527f, 0x9b05688c, 0x1f83d9ab, 0x5be0cd19]"

definition reverse_32bit :: "u32 \<Rightarrow> u32" where
  "reverse_32bit data =
     (let data = drop_bit 16 data OR push_bit 16 data
      in drop_bit 8 (data AND 0xff00ff00) OR push_bit 8 (data AND 0x00ff00ff))"

definition os_htobe32 :: "bool \<Rightarrow> u32 \<Rightarrow> u32" where
  "os_htobe32 big data = (if big then data else reverse_32bit data)"

definition os_be32toh :: "bool \<Rightarrow> u32 \<Rightarrow> u32" where
  "os_be32toh big data = os_htobe32 big data"

definition reverse_64bit :: "u64 \<Rightarrow> u64" where
  "reverse_64bit data =
     (let data = drop_bit 32 data OR push_bit 32 data;
          data = drop_bit 8 (data AND 0xff00ff00ff00ff00) OR push_bit 8 (data AND 0x00ff00ff00ff00ff)
      in drop_bit 16 (data AND 0xffff0000ffff0000) OR push_bit 16 (data AND 0x0000ffff0000ffff))"

definition os_htobe64 :: "bool \<Rightarrow> u64 \<Rightarrow> u64" where
  "os_htobe64 big data = (if big then data else reverse_64bit data)"

text \<open>The bytes of a 64-bit integer in memory.\<close>

definition bytes64 :: "u64 \<Rightarrow> u8 list" where
  "bytes64 x = map (\<lambda>i. ucast (drop_bit (8 * i) x)) [0..<8]"

definition store64 :: "bool \<Rightarrow> u64 \<Rightarrow> u8 list" where
  "store64 big x = (if big then rev (bytes64 x) else bytes64 x)"

record qm_sha256_context =
  sstate :: "u32 list"
  bitcount :: u64
  sbuffer :: "u8 list"

definition qm_utils_sha256_init :: qm_sha256_context where
  "qm_utils_sha256_init = \<lparr>sstate = replicate 8 0, bitcount = 0, sbuffer = replicate 64 0\<rparr>"

definition qm_utils_sha256_free :: "qm_sha256_context option \<Rightarrow> qm_sha256_context option" where
  "qm_utils_sha256_free ctx = map_option (\<lambda>_. qm_utils_sha256_init) ctx"

definition qm_utils_sha256_clone :: "qm_sha256_context \<Rightarrow> qm_sha256_context \<Rightarrow> qm_sha256_context" where
  "qm_utils_sha256_clone dst src = src"

definition qm_utils_sha256_starts :: "qm_sha256_context \<Rightarrow> qm_sha256_context" where
  "qm_utils_sha256_starts ctx =
     ctx\<lparr>sstate := sha256_initial_hash_value, sbuffer := replicate SHA256_BLOCK_LENGTH 0, bitcount := 0\<rparr>"

text \<open>Sixteen words of memory, and one step on the registers \<^verbatim>\<open>a\<close> to \<^verbatim>\<open>h\<close>.\<close>

definition load_words :: "bool \<Rightarrow> u8 list \<Rightarrow> u32 list" where
  "load_words big b = map (\<lambda>j. load32 big (take 4 (drop (4 * j) b))) [0..<16]"

fun sha256_apply :: "u32 \<Rightarrow> u32 \<Rightarrow> u32 list \<Rightarrow> u32 list" where
  "sha256_apply k w [a, b, c, d, e, f, g, h] =
     (let T1 = h + Sigma1_256 e + Ch e f g + k + w;
          T2 = Sigma0_256 a + Maj a b c
      in [T1 + T2, a, b, c, d + T1, e, f, g])"
| "sha256_apply k w r = r"

definition sha256_first :: "bool \<Rightarrow> u32 list option \<Rightarrow> nat \<Rightarrow> u32 list \<times> u32 list \<Rightarrow> u32 list \<times> u32 list" where
  "sha256_first big data j rW =
     (case rW of (r, W) \<Rightarrow>
        let W' = W[j := os_htobe32 big (case data of None \<Rightarrow> W ! j | Some d \<Rightarrow> d ! j)]
        in (sha256_apply (K256 ! j) (W' ! j) r, W'))"

definition sha256_later :: "nat \<Rightarrow> u32 list \<times> u32 list \<Rightarrow> u32 list \<times> u32 list" where
  "sha256_later j rW =
     (case rW of (r, W) \<Rightarrow>
        let s0 = sigma0_256 (W ! ((j + 1) mod 16));
            s1 = sigma1_256 (W ! ((j + 14) mod 16));
            W' = W[j mod 16 := W ! (j mod 16) + (s1 + W ! ((j + 9) mod 16) + s0)]
        in (sha256_apply (K256 ! j) (W' ! (j mod 16)) r, W'))"

definition qm_utils_sha256_process :: "bool \<Rightarrow> qm_sha256_context \<Rightarrow> u8 list option \<Rightarrow> qm_sha256_context" where
  "qm_utils_sha256_process big ctx data =
     (let W256 = load_words big (sbuffer ctx);
          rW1 = fold (sha256_first big (map_option (load_words big) data)) [0..<16] (sstate ctx, W256);
          (r, W) = fold sha256_later [16..<64] rW1
      in ctx\<lparr>sstate := map2 (+) (sstate ctx) r, sbuffer := concat (map (store32 big) W)\<rparr>)"

text \<open>The loop over complete blocks: the context and the input that is left.\<close>

function sha256_blocks :: "bool \<Rightarrow> qm_sha256_context \<Rightarrow> u8 list \<Rightarrow> qm_sha256_context \<times> u8 list" where
  "sha256_blocks big ctx input =
     (if length input \<ge> SHA256_BLOCK_LENGTH
      then let c = qm_utils_sha256_process big ctx (Some (take SHA256_BLOCK_LENGTH input))
           in sha256_blocks big (c\<lparr>bitcount := bitcount c + push_bit 3 (of_nat SHA256_BLOCK_LENGTH)\<rparr>)
                (drop SHA256_BLOCK_LENGTH input)
      else (ctx, input))"
  by pat_completeness auto
termination
  by (relation "measure (\<lambda>(big, ctx, input). length input)") (auto simp: SHA256_BLOCK_LENGTH_def)

declare sha256_blocks.simps [simp del]

text \<open>The rest of the update once the buffer is empty.\<close>

definition sha256_tail :: "bool \<Rightarrow> qm_sha256_context \<Rightarrow> u8 list \<Rightarrow> qm_sha256_context" where
  "sha256_tail big ctx input =
     (case sha256_blocks big ctx input of (c, rest) \<Rightarrow>
        if rest \<noteq> []
        then c\<lparr>sbuffer := put_bytes (sbuffer c) 0 rest, bitcount := bitcount c + push_bit 3 (of_nat (length rest))\<rparr>
        else c)"

definition qm_utils_sha256_update :: "bool \<Rightarrow> qm_sha256_context \<Rightarrow> u8 list \<Rightarrow> qm_sha256_context" where
  "qm_utils_sha256_update big ctx input =
     (if input = [] then ctx
      else
        let usedspace = unat (drop_bit 3 (bitcount ctx)) mod SHA256_BLOCK_LENGTH
        in if usedspace > 0
           then let freespace = SHA256_BLOCK_LENGTH - usedspace
                in if length input \<ge> freespace
                   then let c = ctx\<lparr>sbuffer := put_bytes (sbuffer ctx) usedspace (take freespace input),
                                    bitcount := bitcount ctx + push_bit 3 (of_nat freespace)\<rparr>
                        in sha256_tail big (qm_utils_sha256_process big c None) (drop freespace input)
                   else ctx\<lparr>sbuffer := put_bytes (sbuffer ctx) usedspace input,
                            bitcount := bitcount ctx + push_bit 3 (of_nat (length input))\<rparr>
           else sha256_tail big ctx input)"

text \<open>The buffer of the last transform, and the digest with the cleared context.\<close>

definition sha256_pad :: "bool \<Rightarrow> qm_sha256_context \<Rightarrow> nat \<Rightarrow> qm_sha256_context" where
  "sha256_pad big ctx usedspace =
     (if usedspace > 0
      then
        let c = ctx\<lparr>sbuffer := (sbuffer ctx)[usedspace := 0x80]\<rparr>;
            usedspace = usedspace + 1
        in if usedspace \<le> SHA256_SHORT_BLOCK_LENGTH
           then c\<lparr>sbuffer := put_bytes (sbuffer c) usedspace (replicate (SHA256_SHORT_BLOCK_LENGTH - usedspace) 0)\<rparr>
           else
             let c1 = (if usedspace < SHA256_BLOCK_LENGTH
                       then c\<lparr>sbuffer := put_bytes (sbuffer c) usedspace (replicate (SHA256_BLOCK_LENGTH - usedspace) 0)\<rparr>
                       else c);
                 c2 = qm_utils_sha256_process big c1 None
             in c2\<lparr>sbuffer := put_bytes (sbuffer c2) 0 (replicate SHA256_SHORT_BLOCK_LENGTH 0)\<rparr>
      else ctx\<lparr>sbuffer := (put_bytes (sbuffer ctx) 0 (replicate SHA256_SHORT_BLOCK_LENGTH 0))[0 := 0x80]\<rparr>)"

definition qm_utils_sha256_finish :: "bool \<Rightarrow> qm_sha256_context \<Rightarrow> u8 list \<times> qm_sha256_context" where
  "qm_utils_sha256_finish big ctx =
     (let usedspace = unat (drop_bit 3 (bitcount ctx)) mod SHA256_BLOCK_LENGTH;
          c1 = sha256_pad big (ctx\<lparr>bitcount := os_htobe64 big (bitcount ctx)\<rparr>) usedspace;
          c2 = c1\<lparr>sbuffer := put_bytes (sbuffer c1) SHA256_SHORT_BLOCK_LENGTH (store64 big (bitcount c1))\<rparr>;
          c3 = qm_utils_sha256_process big c2 None
      in (concat (map (\<lambda>s. store32 big (os_be32toh big s)) (sstate c3)), qm_utils_sha256_init))"

definition qm_utils_sha256 :: "bool \<Rightarrow> u8 list \<Rightarrow> u8 list" where
  "qm_utils_sha256 big input =
     fst (qm_utils_sha256_finish big (qm_utils_sha256_update big (qm_utils_sha256_starts qm_utils_sha256_init) input))"

section \<open>The reference\<close>

text \<open>The constants of the standard: the first 32 bits of the fractional parts of the cube and square roots of the
  first primes. All of these are below the square of 19, so that trial division by 2 to 17 finds them.\<close>

definition first_primes :: "int list" where
  "first_primes = [p \<leftarrow> [2..311]. list_all (\<lambda>d. d < p \<longrightarrow> p mod d \<noteq> 0) [2, 3, 5, 7, 11, 13, 17]]"

definition root_word :: "nat \<Rightarrow> int \<Rightarrow> u32" where
  "root_word k p = word_of_int \<lfloor>root k (real_of_int p) * 2 ^ 32\<rfloor>"

definition fips_K :: "u32 list" where
  "fips_K = map (root_word 3) first_primes"

definition fips_H0 :: "u32 list" where
  "fips_H0 = map (root_word 2) (take 8 first_primes)"

function sha256_w :: "u32 list \<Rightarrow> nat \<Rightarrow> u32" where
  "sha256_w M t =
     (if t < 16 then M ! t
      else (word_rotr 17 (sha256_w M (t - 2)) XOR word_rotr 19 (sha256_w M (t - 2)) XOR drop_bit 10 (sha256_w M (t - 2)))
         + sha256_w M (t - 7)
         + (word_rotr 7 (sha256_w M (t - 15)) XOR word_rotr 18 (sha256_w M (t - 15)) XOR drop_bit 3 (sha256_w M (t - 15)))
         + sha256_w M (t - 16))"
  by pat_completeness auto
termination
  by (relation "measure snd") auto

declare sha256_w.simps [simp del]

fun fips256_round :: "u32 list \<Rightarrow> nat \<Rightarrow> u32 list \<Rightarrow> u32 list" where
  "fips256_round M t [a, b, c, d, e, f, g, h] =
     (let T1 = h + (word_rotr 6 e XOR word_rotr 11 e XOR word_rotr 25 e) + ((e AND f) XOR (NOT e AND g)) + fips_K ! t + sha256_w M t;
          T2 = (word_rotr 2 a XOR word_rotr 13 a XOR word_rotr 22 a) + ((a AND b) XOR (a AND c) XOR (b AND c))
      in [T1 + T2, a, b, c, d + T1, e, f, g])"
| "fips256_round M t r = r"

definition be_words :: "u8 list \<Rightarrow> u32 list" where
  "be_words b = map (\<lambda>i. of_bytes32 (rev (take 4 (drop (4 * i) b)))) [0..<16]"

definition fips256_compress :: "u32 list \<Rightarrow> u8 list \<Rightarrow> u32 list" where
  "fips256_compress H b = map2 (+) H (fold (fips256_round (be_words b)) [0..<64] H)"

definition sha256_digest :: "u8 list \<Rightarrow> u8 list" where
  "sha256_digest m =
     concat (map (\<lambda>w. rev (bytes32 w)) (md_fold fips256_compress fips_H0 (md_pad be64_bytes m)))"

section \<open>The constants\<close>

text \<open>A word is the fractional part of a root when the integer it stands for brackets the root.\<close>

definition root_check :: "nat \<Rightarrow> int \<Rightarrow> u32 \<Rightarrow> bool" where
  "root_check k p w =
     list_ex (\<lambda>c. if c ^ k \<le> p \<and> p < (c + 1) ^ k then (c * 2 ^ 32 + uint w) ^ k \<le> p * 2 ^ (32 * k) \<and> p * 2 ^ (32 * k) < (c * 2 ^ 32 + uint w + 1) ^ k else False) [1..6]"

lemma root_check:
  assumes "root_check k p w" "0 < k" "0 \<le> p"
  shows "root_word k p = w"
proof -
  obtain c where c: "1 \<le> c" "(c * 2 ^ 32 + uint w) ^ k \<le> p * 2 ^ (32 * k)" "p * 2 ^ (32 * k) < (c * 2 ^ 32 + uint w + 1) ^ k"
    using assms(1) by (auto simp: root_check_def list_ex_iff split: if_splits)
  define r where "r = c * 2 ^ 32 + uint w"
  have r: "0 \<le> r"
    using c(1) unsigned_greater_eq [of w, where ?'a = int] by (simp add: r_def)
  have le: "real_of_int r ^ k \<le> real_of_int p * 2 ^ (32 * k)" "real_of_int p * 2 ^ (32 * k) < (real_of_int r + 1) ^ k"
    using c(2,3) unfolding r_def [symmetric] of_int_le_iff [where ?'a = real, symmetric] of_int_less_iff [where ?'a = real, symmetric]
    by simp_all
  have "root k (real_of_int p) * 2 ^ 32 = root k (real_of_int p * 2 ^ (32 * k))"
    using assms(2) by (simp add: real_root_mult power_mult real_root_power_cancel)
  moreover have "real_of_int r \<le> root k (real_of_int p * 2 ^ (32 * k))"
    using r real_root_le_mono [OF assms(2) le(1)] by (simp add: real_root_power_cancel assms(2))
  moreover have "root k (real_of_int p * 2 ^ (32 * k)) < real_of_int r + 1"
    using r real_root_less_mono [OF assms(2) le(2)] by (simp add: real_root_power_cancel assms(2))
  ultimately have "\<lfloor>root k (real_of_int p) * 2 ^ 32\<rfloor> = r"
    by (simp add: floor_unique)
  moreover have "(word_of_int (c * 2 ^ 32 + uint w) :: u32) = word_of_int (uint w)"
    unfolding word_of_int_eq_iff by (simp add: take_bit_eq_mod)
  ultimately show ?thesis
    unfolding root_word_def r_def by simp
qed

lemma first_primes_pos: "length first_primes = 64 \<and> list_all (\<lambda>p. 0 \<le> p) first_primes"
  by code_simp

lemma K256_check: "list_all (\<lambda>(p, w). root_check 3 p w) (zip first_primes K256)"
  by code_simp

lemma H0_check: "list_all (\<lambda>(p, w). root_check 2 p w) (zip (take 8 first_primes) sha256_initial_hash_value)"
  by code_simp

lemma roots_of_check:
  assumes "list_all (\<lambda>(p, w). root_check k p w) (zip ps ws)" "list_all (\<lambda>p. 0 \<le> p) ps" "length ps = length ws" "0 < k"
  shows "ws = map (root_word k) ps"
  using assms(3,1,2) by (induction ps ws rule: list_induct2) (auto simp: root_check [OF _ assms(4)])

lemma constants_roots: "K256 = fips_K" "sha256_initial_hash_value = fips_H0"
proof -
  show "K256 = fips_K"
    using K256_check first_primes_pos unfolding fips_K_def by (intro roots_of_check) (simp_all add: K256_def)
  show "sha256_initial_hash_value = fips_H0" unfolding fips_H0_def
    using H0_check first_primes_pos
    by (intro roots_of_check) (simp_all add: sha256_initial_hash_value_def list_all_iff, meson in_set_takeD)
qed
section \<open>Byte order\<close>

lemma bit_index: "n < (8 :: nat) \<longleftrightarrow> n = 0 \<or> n = 1 \<or> n = 2 \<or> n = 3 \<or> n = 4 \<or> n = 5 \<or> n = 6 \<or> n = 7"
  by auto

lemma bit_beyond:
  "8 \<le> n \<Longrightarrow> \<not> bit (b :: u8) n" "32 \<le> n \<Longrightarrow> \<not> bit (x :: u32) n" "64 \<le> n \<Longrightarrow> \<not> bit (y :: u64) n"
  by (auto dest: bit_imp_le_length)

lemma bytes32_reverse: "bytes32 (reverse_32bit x) = rev (bytes32 x)"
  unfolding bytes32_def reverse_32bit_def Let_def
  by (simp, intro conjI; rule bit_word_eqI; simp add: bit_index; elim disjE; simp add: bit_simps bit_beyond)

lemma bytes64_reverse: "bytes64 (reverse_64bit x) = rev (bytes64 x)"
proof -
  have l: "[0..<8] = [0, 1, 2, 3, 4, 5, 6, 7 :: nat]"
    by (simp add: upt_rec)
  show ?thesis
    unfolding bytes64_def reverse_64bit_def Let_def l
    by (simp, intro conjI; rule bit_word_eqI; simp add: bit_index; elim disjE; simp add: bit_simps bit_beyond)
qed

lemma store_be:
  "store32 big (os_htobe32 big x) = rev (bytes32 x)"
  "store64 big (os_htobe64 big y) = rev (bytes64 y)"
  by (simp_all add: store32_def os_htobe32_def bytes32_reverse store64_def os_htobe64_def bytes64_reverse)

lemma bytes32_of_bytes32: "bytes32 (of_bytes32 [a, b, c, d]) = [a, b, c, d]"
  unfolding bytes32_def
  by (simp, intro conjI; rule bit_word_eqI; simp add: bit_index; elim disjE; simp add: bit_simps bit_beyond)

lemma load_be:
  assumes "length bs = 4"
  shows "os_htobe32 big (load32 big bs) = of_bytes32 (rev bs)"
proof -
  obtain a b c d where bs: "bs = [a, b, c, d]"
    using assms by (auto simp: length_Suc_conv numeral_eq_Suc)
  have "bytes32 (reverse_32bit (of_bytes32 bs)) = bytes32 (of_bytes32 (rev bs))"
    unfolding bytes32_reverse by (simp only: bs bytes32_of_bytes32 rev.simps append.simps)
  then have "reverse_32bit (of_bytes32 bs) = of_bytes32 (rev bs)"
    by (metis of_bytes32_bytes32)
  then show ?thesis
    by (simp add: os_htobe32_def load32_def)
qed

lemma be_load_words:
  assumes "length b = 64" "j < 16"
  shows "os_htobe32 big (load_words big b ! j) = be_words b ! j"
  using assms load_be [of "take 4 (drop (4 * j) b)" big] by (simp add: load_words_def be_words_def)

lemma bytes64_be: "rev (bytes64 (of_nat n)) = be64_bytes n"
proof -
  have b: "(ucast (drop_bit k (of_nat n :: u64)) :: u8) = of_nat (n div 2 ^ k)" if "k + 8 \<le> 64" for k
    unfolding drop_bit_eq_div [of k n, symmetric] using that by (intro bit_word_eqI) (auto simp: bit_simps)
  have l: "[0..<8] = [0, 1, 2, 3, 4, 5, 6, 7 :: nat]"
    by (simp add: upt_rec)
  show ?thesis
    unfolding bytes64_def be64_bytes_def l using b [of 0] by (simp add: b)
qed

section \<open>The block function\<close>

lemma S32_rotr: "0 < n \<Longrightarrow> n < 32 \<Longrightarrow> S32 n x = word_rotr n x"
  by (simp add: S32_def rotr_shifts)

lemma apply_round: "length r = 8 \<Longrightarrow> sha256_apply (K256 ! t) (sha256_w M t) r = fips256_round M t r"
  by (cases "(M, t, r)" rule: fips256_round.cases)
    (simp_all add: Sigma0_256_def Sigma1_256_def Ch_def Maj_def S32_rotr constants_roots)

lemma length_apply [simp]: "length (sha256_apply k w r) = length r"
  by (cases "(k, w, r)" rule: sha256_apply.cases) (simp_all add: Let_def)

lemma length_round [simp]: "length (fips256_round M t r) = length r"
  by (cases "(M, t, r)" rule: fips256_round.cases) (simp_all add: Let_def)

lemma later_window:
  assumes "window (sha256_w M) t W" "16 \<le> t"
  shows "W[t mod 16 := W ! (t mod 16) + (sigma1_256 (W ! ((t + 14) mod 16)) + W ! ((t + 9) mod 16) + sigma0_256 (W ! ((t + 1) mod 16)))]
    = W[t mod 16 := sha256_w M t]"
proof -
  have m: "W ! ((t + (16 - k)) mod 16) = sha256_w M (t - k)" if "0 < k" "k \<le> 16" for k
  proof -
    have "(t + (16 - k)) mod 16 = (t - k) mod 16"
      using that assms(2) by (simp add: le_mod_geq)
    then show ?thesis using window_read [OF assms that] by simp
  qed
  show ?thesis
    using m [of 16] m [of 2] m [of 7] m [of 15] assms(2)
    by (subst sha256_w.simps) (simp add: sigma0_256_def sigma1_256_def S32_rotr R256_def add_ac)
qed

lemma first_steps:
  assumes "length H = 8" "length W0 = 16"
    and src: "\<And>j. j < 16 \<Longrightarrow> os_htobe32 big ((case data of None \<Rightarrow> W0 | Some d \<Rightarrow> d) ! j) = M ! j"
    and "n \<le> 16"
  shows "\<exists>r W. fold (sha256_first big data) [0..<n] (H, W0) = (r, W) \<and> length r = 8 \<and> length W = 16
    \<and> (\<forall>i < n. W ! i = M ! i) \<and> (\<forall>i. n \<le> i \<longrightarrow> W ! i = W0 ! i) \<and> r = fold (fips256_round M) [0..<n] H"
  using assms(4)
proof (induction n)
  case 0
  then show ?case using assms(1,2) by simp
next
  case (Suc n)
  then obtain r W where s: "fold (sha256_first big data) [0..<n] (H, W0) = (r, W)" "length r = 8" "length W = 16"
    "\<forall>i < n. W ! i = M ! i" "\<forall>i. n \<le> i \<longrightarrow> W ! i = W0 ! i" "r = fold (fips256_round M) [0..<n] H" by auto
  have w: "os_htobe32 big (case data of None \<Rightarrow> W ! n | Some d \<Rightarrow> d ! n) = M ! n" "M ! n = sha256_w M n"
    using src [of n] s(5) Suc.prems by (auto simp: sha256_w.simps [of M n] split: option.splits)
  have "fold (sha256_first big data) [0..<Suc n] (H, W0) = (sha256_apply (K256 ! n) (sha256_w M n) r, W[n := M ! n])"
    using s(1,3) w Suc.prems by (simp add: sha256_first_def)
  then show ?case
    using s apply_round [OF s(2), of n M] Suc.prems by (auto simp: nth_list_update less_Suc_eq)
qed

lemma later_steps:
  assumes "window (sha256_w M) 16 W0" "length r0 = 8"
  shows "\<exists>r W. fold sha256_later [16..<16 + n] (r0, W0) = (r, W) \<and> length r = 8 \<and> window (sha256_w M) (16 + n) W
    \<and> r = fold (fips256_round M) [16..<16 + n] r0"
proof (induction n)
  case 0
  then show ?case using assms by simp
next
  case (Suc n)
  then obtain r W where s: "fold sha256_later [16..<16 + n] (r0, W0) = (r, W)" "length r = 8"
    "window (sha256_w M) (16 + n) W" "r = fold (fips256_round M) [16..<16 + n] r0" by blast
  define W' where "W' = W[(16 + n) mod 16 := sha256_w M (16 + n)]"
  have w: "window (sha256_w M) (Suc (16 + n)) W'"
    using window_write [OF s(3)] by (simp add: W'_def)
  have "sha256_later (16 + n) (r, W) = (sha256_apply (K256 ! (16 + n)) (sha256_w M (16 + n)) r, W')"
    using later_window [OF s(3)] window_current [OF w] by (simp add: sha256_later_def Let_def W'_def)
  moreover have "[16..<16 + Suc n] = [16..<16 + n] @ [16 + n]"
    by (simp only: add_Suc_right upt_Suc_append le_add1)
  ultimately show ?case
    using s w apply_round [OF s(2), of "16 + n" M] by (simp del: upt_Suc)
qed

lemma length_concat_store: "length (concat (map (store32 big) W)) = 4 * length W"
  by (induction W) simp_all

lemma process_fips:
  assumes "length (sstate ctx) = 8" "length (sbuffer ctx) = 64" "length blk = 64"
    and blk: "case data of None \<Rightarrow> blk = sbuffer ctx | Some d \<Rightarrow> blk = d"
  shows "\<exists>G. qm_utils_sha256_process big ctx data = ctx\<lparr>sstate := fips256_compress (sstate ctx) blk, sbuffer := G\<rparr>
    \<and> length G = 64"
proof -
  let ?M = "be_words blk" and ?W0 = "load_words big (sbuffer ctx)" and ?D = "map_option (load_words big) data"
  have src: "os_htobe32 big ((case ?D of None \<Rightarrow> ?W0 | Some d \<Rightarrow> d) ! j) = ?M ! j" if "j < 16" for j
    using be_load_words [OF assms(3) that, of big] blk by (auto split: option.splits)
  obtain r1 W1 where 1: "fold (sha256_first big ?D) [0..<16] (sstate ctx, ?W0) = (r1, W1)" "length r1 = 8" "length W1 = 16"
    "\<forall>i < 16. W1 ! i = ?M ! i" "r1 = fold (fips256_round ?M) [0..<16] (sstate ctx)"
    using first_steps [OF assms(1) _ src, of 16] by (auto simp: load_words_def)
  have "window (sha256_w ?M) 16 W1"
    using 1(3,4) by (simp add: window_def sha256_w.simps)
  then obtain r W where 2: "fold sha256_later [16..<64] (r1, W1) = (r, W)" "length W = 16"
    "r = fold (fips256_round ?M) [16..<64] r1"
    using later_steps [of ?M W1 r1 48] 1(2) by (auto simp: window_def)
  have "[0..<64] = [0..<16] @ [16..<64 :: nat]"
    using upt_add_eq_append [of 0 16 48] by simp
  then have "fold (fips256_round ?M) [0..<64] (sstate ctx) = r"
    using 1(5) 2(3) by simp
  then show ?thesis
    using 1(1) 2(1,2) length_concat_store [of big W]
    by (intro exI [of _ "concat (map (store32 big) W)"]) (simp add: qm_utils_sha256_process_def fips256_compress_def Let_def)
qed

section \<open>The context\<close>

abbreviation sha256_fold :: "u8 list \<Rightarrow> u32 list" where
  "sha256_fold m \<equiv> md_fold fips256_compress sha256_initial_hash_value m"

definition sha256_repr :: "qm_sha256_context \<Rightarrow> u8 list \<Rightarrow> bool" where
  "sha256_repr ctx m =
     (sstate ctx = sha256_fold m \<and> length (sbuffer ctx) = 64 \<and> take (length m mod 64) (sbuffer ctx) = md_rest m
      \<and> bitcount ctx = of_nat (8 * length m))"

text \<open>A context after the complete blocks \<open>a\<close>, with any buffer and the bit count \<open>n\<close>.\<close>

definition aligned :: "qm_sha256_context \<Rightarrow> u8 list \<Rightarrow> u64 \<Rightarrow> bool" where
  "aligned ctx a n =
     (sstate ctx = sha256_fold a \<and> 64 dvd length a \<and> length (sbuffer ctx) = 64 \<and> bitcount ctx = n)"

lemma length_sha256_fold [simp]: "length (sha256_fold m) = 8"
proof -
  have "length (fold (fips256_round M) ts H) = length H" for M ts H
    by (induction ts arbitrary: H) simp_all
  then have "length (fips256_compress H b) = length H" for H b
    by (simp add: fips256_compress_def)
  moreover have "length sha256_initial_hash_value = 8"
    by (simp add: sha256_initial_hash_value_def)
  ultimately show ?thesis
    using md_fold_cong [of "\<lambda>s. length s = 8" fips256_compress fips256_compress] by simp
qed

lemma aligned_process:
  assumes "aligned c a n" "length blk = 64" "case data of None \<Rightarrow> blk = sbuffer c | Some d \<Rightarrow> blk = d"
  shows "aligned (qm_utils_sha256_process big c data) (a @ blk) n"
  using process_fips [OF _ _ assms(2,3), of big] assms(1,2) md_fold_append [of a fips256_compress sha256_initial_hash_value blk]
    md_fold_block [OF assms(2), of fips256_compress _ "[]"]
  by (auto simp: aligned_def)

lemma aligned_repr: "aligned c a (of_nat (8 * length a)) \<Longrightarrow> sha256_repr c a"
  using md_rest_append [of a "[]"] by (auto simp: aligned_def sha256_repr_def dvd_imp_mod_0)

lemma shift_count: "push_bit 3 (of_nat k :: u64) = of_nat (8 * k)"
  by (simp add: push_bit_eq_mult)

lemma usedspace_repr:
  assumes "bitcount ctx = of_nat (8 * n)"
  shows "unat (drop_bit 3 (bitcount ctx)) mod SHA256_BLOCK_LENGTH = n mod 64"
proof -
  have "unat (drop_bit 3 (of_nat (8 * n) :: u64)) = (8 * n) mod 2 ^ 64 div 8"
    unfolding unat_drop_bit_eq unat_of_nat by (simp add: drop_bit_eq_div)
  also have "\<dots> = n mod 2 ^ 61"
    using mult_mod_right [of 8 n "2 ^ 61"] by (simp del: mult_mod_right)
  finally show ?thesis
    unfolding assms SHA256_BLOCK_LENGTH_def by (simp add: mod_mod_cancel)
qed

lemma blocks_aligned:
  assumes "aligned c a (of_nat (8 * length a))" "sha256_blocks big c input = (c', rest)"
  shows "\<exists>x. input = x @ rest \<and> aligned c' (a @ x) (of_nat (8 * length (a @ x))) \<and> length rest < 64"
  using assms
proof (induction "length input" arbitrary: c a input rule: less_induct)
  case less
  show ?case
  proof (cases "64 \<le> length input")
    case True
    define c1 where "c1 = qm_utils_sha256_process big c (Some (take 64 input))"
    have "aligned c1 (a @ take 64 input) (of_nat (8 * length a))"
      unfolding c1_def using True less(2) by (intro aligned_process) auto
    then have "aligned (c1\<lparr>bitcount := bitcount c1 + push_bit 3 (of_nat 64)\<rparr>) (a @ take 64 input) (of_nat (8 * length (a @ take 64 input)))"
      using True by (simp add: aligned_def shift_count)
    moreover have "sha256_blocks big (c1\<lparr>bitcount := bitcount c1 + push_bit 3 (of_nat 64)\<rparr>) (drop 64 input) = (c', rest)"
      using less(3) True sha256_blocks.simps [of big c input] by (simp add: SHA256_BLOCK_LENGTH_def c1_def Let_def)
    moreover have "length (drop 64 input) < length input"
      using True by simp
    ultimately obtain x where "drop 64 input = x @ rest" "aligned c' ((a @ take 64 input) @ x) (of_nat (8 * length ((a @ take 64 input) @ x)))"
      "length rest < 64"
      using less(1) by blast
    then show ?thesis
      by (intro exI [of _ "take 64 input @ x"]) (metis append_assoc append_take_drop_id)
  next
    case False
    then show ?thesis
      using less(2,3) sha256_blocks.simps [of big c input] by (simp add: SHA256_BLOCK_LENGTH_def)
  qed
qed

lemma tail_repr:
  assumes "aligned c a (of_nat (8 * length a))"
  shows "sha256_repr (sha256_tail big c input) (a @ input)"
proof -
  obtain c' rest where b: "sha256_blocks big c input = (c', rest)" by fastforce
  then obtain x where x: "input = x @ rest" "aligned c' (a @ x) (of_nat (8 * length (a @ x)))" "length rest < 64"
    using blocks_aligned [OF assms] by blast
  have fold: "sha256_fold ((a @ x) @ rest) = sha256_fold (a @ x)" "md_rest ((a @ x) @ rest) = rest"
    using x(2,3) by (simp_all add: aligned_def md_fold_append md_rest_append del: append_assoc length_append)
  show ?thesis
  proof (cases "rest = []")
    case True
    then show ?thesis using b x(1,2) aligned_repr by (simp add: sha256_tail_def)
  next
    case False
    have "length (a @ input) mod 64 = length rest"
      using x by (auto simp: aligned_def add.assoc [symmetric] elim!: dvdE)
    then show ?thesis
      using False b x fold take_put [of 0 rest "sbuffer c'"] length_put [of 0 rest "sbuffer c'"]
      by (simp add: sha256_tail_def sha256_repr_def aligned_def shift_count)
  qed
qed

lemma repr_split:
  assumes "sha256_repr ctx m"
  obtains a where "m = a @ md_rest m" "64 dvd length a" "aligned ctx a (of_nat (8 * length m))"
    "length (md_rest m) = length m mod 64" "take (length m mod 64) (sbuffer ctx) = md_rest m"
proof -
  obtain a where a: "m = a @ md_rest m" "64 dvd length a" by (rule md_split)
  moreover have "sha256_fold m = sha256_fold a"
    using md_fold_append [OF a(2), of fips256_compress sha256_initial_hash_value "md_rest m"] a(1) by simp
  ultimately show thesis
    using assms that by (simp add: sha256_repr_def aligned_def)
qed

lemma sha256_update_repr:
  assumes "sha256_repr ctx m"
  shows "sha256_repr (qm_utils_sha256_update big ctx input) (m @ input)"
proof -
  obtain a where a: "m = a @ md_rest m" "64 dvd length a" "aligned ctx a (of_nat (8 * length m))"
    "length (md_rest m) = length m mod 64" "take (length m mod 64) (sbuffer ctx) = md_rest m"
    using repr_split [OF assms] by blast
  define u where "u = length m mod 64"
  have u: "unat (drop_bit 3 (bitcount ctx)) mod SHA256_BLOCK_LENGTH = u" "u < 64"
    using a(3) usedspace_repr [of ctx "length m"] by (simp_all add: aligned_def u_def)
  have buf: "length (sbuffer ctx) = 64" using a(3) by (simp add: aligned_def)
  consider "u = 0" | "0 < u" "64 - u \<le> length input" | "0 < u" "length input < 64 - u" by fastforce
  then show ?thesis
  proof cases
    case 1
    then have "md_rest m = []"
      unfolding length_0_conv [symmetric] a(4) by (simp only: u_def)
    then have "a = m" using a(1) by simp
    then have "sha256_repr (sha256_tail big ctx input) (m @ input)"
      using a(3) by (simp only: tail_repr)
    then show ?thesis
      using 1 assms u(1) by (auto simp: qm_utils_sha256_update_def)
  next
    case 2
    define blk where "blk = md_rest m @ take (64 - u) input"
    define c where "c = ctx\<lparr>sbuffer := blk, bitcount := bitcount ctx + push_bit 3 (of_nat (64 - u))\<rparr>"
    have r: "length (md_rest m) = u"
      unfolding u_def by (rule a(4))
    have "length m = length a + u"
      using arg_cong [OF a(1), of length] unfolding length_append r .
    then have len: "length blk = 64" "length (a @ blk) = length m + (64 - u)"
      unfolding blk_def length_append length_take r using 2 u(2) by linarith+
    have "aligned c a (of_nat (8 * length (a @ blk)))"
      unfolding len(2) using a(3) len(1) by (simp add: c_def aligned_def shift_count)
    then have "aligned (qm_utils_sha256_process big c None) (a @ blk) (of_nat (8 * length (a @ blk)))"
      by (rule aligned_process) (simp_all add: c_def len)
    then have "sha256_repr (sha256_tail big (qm_utils_sha256_process big c None) (drop (64 - u) input)) ((a @ blk) @ drop (64 - u) input)"
      by (rule tail_repr)
    moreover have "(a @ blk) @ drop (64 - u) input = m @ input"
      by (subst a(1)) (simp add: blk_def)
    moreover have "put_bytes (sbuffer ctx) u (take (64 - u) input) = blk"
      using 2 u(2) buf a(5) put_full [of u "take (64 - u) input" "sbuffer ctx"] by (simp add: blk_def u_def)
    ultimately show ?thesis
      using 2 u by (auto simp: qm_utils_sha256_update_def SHA256_BLOCK_LENGTH_def c_def Let_def)
  next
    case 3
    have "length (m @ input) mod 64 = u + length input"
      using 3 mod_add_left_eq [of "length m" 64 "length input"] by (simp add: u_def)
    moreover have "sha256_fold (m @ input) = sha256_fold m" "md_rest (m @ input) = md_rest m @ input"
      using 3 a(4) by (simp_all add: md_fold_rest [of _ _ m input] md_rest_rest [of m input] u_def)
    ultimately show ?thesis
      using 3 u assms buf take_put [of u input "sbuffer ctx"] length_put [of u input "sbuffer ctx"]
      by (auto simp: qm_utils_sha256_update_def SHA256_BLOCK_LENGTH_def sha256_repr_def shift_count Let_def simp flip: u_def)
  qed
qed

text \<open>Padding leaves 56 bytes in the buffer before the length of the message.\<close>

lemma pad_aligned:
  assumes "m = a @ r" "length r = length m mod 64" "aligned ctx a n" "take (length r) (sbuffer ctx) = r"
  shows "\<exists>b. aligned (sha256_pad big ctx (length r)) b n
           \<and> b @ take 56 (sbuffer (sha256_pad big ctx (length r))) @ lenbytes (8 * length m) = md_pad lenbytes m"
proof -
  have r: "length r < 64" using assms(2) by simp
  have buf: "length (sbuffer ctx) = 64" using assms(3) by (simp add: aligned_def)
  have mark: "(sbuffer ctx)[length r := 0x80] = r @ 0x80 # drop (Suc (length r)) (sbuffer ctx)"
    using r buf assms(4) by (simp add: upd_conv_take_nth_drop)
  consider "r = []" | "r \<noteq> []" "length r < 56" | "r \<noteq> []" "56 \<le> length r" by fastforce
  then show ?thesis
  proof cases
    case 1
    have "56 = Suc 55" by simp
    then have "(put_bytes (sbuffer ctx) 0 (replicate 56 0))[0 := 0x80] = 0x80 # replicate 55 0 @ drop 56 (sbuffer ctx)"
      unfolding put_bytes_def by (simp only: replicate_Suc) simp
    then show ?thesis
      using 1 assms buf
      by (intro exI [of _ a])
        (simp add: sha256_pad_def SHA256_SHORT_BLOCK_LENGTH_def SHA256_BLOCK_LENGTH_def aligned_def md_pad_def pad_zeros_def)
  next
    case 2
    have "put_bytes ((sbuffer ctx)[length r := 0x80]) (Suc (length r)) (replicate (56 - Suc (length r)) 0) =
        (r @ 0x80 # replicate (55 - length r) 0) @ drop 56 (sbuffer ctx)"
      using 2 unfolding mark put_bytes_def by (simp add: drop_Cons')
    then show ?thesis
      using 2 assms(1,3) assms(2) [symmetric] buf
      by (intro exI [of _ a])
        (simp add: sha256_pad_def SHA256_SHORT_BLOCK_LENGTH_def SHA256_BLOCK_LENGTH_def aligned_def md_pad_def
          pad_zeros_def take_Cons')
  next
    case 3
    define blk where "blk = r @ 0x80 # replicate (63 - length r) (0 :: u8)"
    define c where "c = qm_utils_sha256_process big (ctx\<lparr>sbuffer := blk\<rparr>) None"
    have "put_bytes ((sbuffer ctx)[length r := 0x80]) (Suc (length r)) (replicate (64 - Suc (length r)) 0) = blk"
      using 3 r buf unfolding mark put_bytes_def by (simp add: blk_def)
    moreover have "(sbuffer ctx)[length r := 0x80] = blk" if "\<not> Suc (length r) < 64"
      using that r buf unfolding mark by (simp add: blk_def)
    ultimately have pad: "sha256_pad big ctx (length r) = c\<lparr>sbuffer := put_bytes (sbuffer c) 0 (replicate 56 0)\<rparr>"
      using 3 by (simp add: sha256_pad_def SHA256_SHORT_BLOCK_LENGTH_def SHA256_BLOCK_LENGTH_def c_def Let_def)
    have len: "length blk = 64" using r by (simp add: blk_def)
    have "aligned (ctx\<lparr>sbuffer := blk\<rparr>) a n"
      using assms(3) len by (simp add: aligned_def)
    then have "aligned c (a @ blk) n"
      unfolding c_def by (rule aligned_process) (simp_all add: len)
    moreover have "replicate (63 - length r) (0 :: u8) @ replicate 56 0 = replicate (119 - length r) 0"
      using r by (simp flip: replicate_add)
    ultimately show ?thesis
      using 3 assms(1) assms(2) [symmetric]
      by (intro exI [of _ "a @ blk"])
        (simp add: pad aligned_def md_pad_def pad_zeros_def blk_def put_bytes_def)
  qed
qed

lemma sha256_finish_digest:
  assumes "sha256_repr ctx m"
  shows "fst (qm_utils_sha256_finish big ctx) = sha256_digest m"
proof -
  obtain a where a: "m = a @ md_rest m" "64 dvd length a" "aligned ctx a (of_nat (8 * length m))"
    "length (md_rest m) = length m mod 64" "take (length m mod 64) (sbuffer ctx) = md_rest m"
    using repr_split [OF assms] by blast
  have u: "unat (drop_bit 3 (bitcount ctx)) mod SHA256_BLOCK_LENGTH = length (md_rest m)"
    using a(3,4) usedspace_repr [of ctx "length m"] by (simp add: aligned_def)
  define c0 where "c0 = ctx\<lparr>bitcount := os_htobe64 big (bitcount ctx)\<rparr>"
  define c1 where "c1 = sha256_pad big c0 (length (md_rest m))"
  have bits: "bitcount c1 = os_htobe64 big (of_nat (8 * length m))"
    using a(3) by (auto simp: c1_def c0_def aligned_def sha256_pad_def qm_utils_sha256_process_def Let_def split: prod.split)
  define c2 where "c2 = c1\<lparr>sbuffer := put_bytes (sbuffer c1) 56 (be64_bytes (8 * length m))\<rparr>"
  have "aligned c0 a (bitcount c0)" "take (length (md_rest m)) (sbuffer c0) = md_rest m"
    using a(3,4,5) by (simp_all add: c0_def aligned_def)
  then obtain b where b: "aligned c1 b (bitcount c0)"
    "b @ take 56 (sbuffer c1) @ be64_bytes (8 * length m) = md_pad be64_bytes m"
    using pad_aligned [OF a(1,4), of c0 "bitcount c0" big be64_bytes] by (auto simp: c1_def)
  define blk where "blk = take 56 (sbuffer c1) @ be64_bytes (8 * length m)"
  have blk: "length blk = 64" "put_bytes (sbuffer c1) 56 (be64_bytes (8 * length m)) = blk"
    using b(1) by (simp_all add: blk_def aligned_def be64_bytes_def put_full)
  have "aligned (c1\<lparr>sbuffer := blk\<rparr>) b (bitcount c0)"
    using b(1) blk(1) by (simp add: aligned_def)
  then have "aligned (qm_utils_sha256_process big (c1\<lparr>sbuffer := blk\<rparr>) None) (md_pad be64_bytes m) (bitcount c0)"
    using aligned_process [OF _ blk(1), of "c1\<lparr>sbuffer := blk\<rparr>" b "bitcount c0" None big] b(2)
    by (simp flip: blk_def)
  then have "sstate (qm_utils_sha256_process big (c1\<lparr>sbuffer := blk\<rparr>) None) = sha256_fold (md_pad be64_bytes m)"
    by (simp add: aligned_def)
  moreover have "store64 big (bitcount c1) = be64_bytes (8 * length m)"
    unfolding bits store_be by (rule bytes64_be)
  moreover have "store32 big (os_be32toh big w) = rev (bytes32 w)" for w
    by (simp add: os_be32toh_def store_be)
  ultimately show ?thesis
    unfolding qm_utils_sha256_finish_def Let_def u sha256_digest_def constants_roots(2) [symmetric] c0_def [symmetric] c1_def [symmetric]
    by (simp add: SHA256_SHORT_BLOCK_LENGTH_def SHA256_BLOCK_LENGTH_def blk)
qed

lemma sha256_start_repr: "sha256_repr (qm_utils_sha256_starts qm_utils_sha256_init) []"
  by (simp add: sha256_repr_def qm_utils_sha256_starts_def qm_utils_sha256_init_def SHA256_BLOCK_LENGTH_def)

interpretation sha256: hash_stream "qm_utils_sha256_starts qm_utils_sha256_init" "qm_utils_sha256_update big"
  "\<lambda>ctx. fst (qm_utils_sha256_finish big ctx)" sha256_repr sha256_digest for big
  by unfold_locales (simp_all only: sha256_start_repr sha256_update_repr sha256_finish_digest)

section \<open>Properties\<close>

text \<open>C5: SHA-256 over any pieces: on a machine of either byte order, starting a context, updating it with pieces
  of the message in whatever cut, and finishing it gives the SHA-256 digest of the standard of the whole message,
  although every transform destroys the context's buffer and the last ones run on the buffer itself.\<close>

theorem sha256_pieces:
  assumes "list_all (\<lambda>d. length d < 2 ^ 32) ds"
  shows "fst (qm_utils_sha256_finish big
           (foldl (qm_utils_sha256_update big) (qm_utils_sha256_starts qm_utils_sha256_init) ds)) =
           sha256_digest (concat ds)"
  using assms by (rule sha256.pieces_digest)

theorem sha256_pieces_witness:
  "fst (qm_utils_sha256_finish False
     (foldl (qm_utils_sha256_update False) (qm_utils_sha256_starts qm_utils_sha256_init) [[97], [], [98, 99]])) =
     sha256_digest [97, 98, 99]"
  using sha256_pieces [of "[[97], [], [98, 99]]" False] by simp

end
