(* ===== verification/Sha1.thy ===== *)
theory Sha1
  imports Hash_Stream
begin

text \<open>
  SHA-1 as in \<^verbatim>\<open>utility/sha1/qm_utils_sha1.c\<close>. The eighty unrolled steps of the code pass the five
  registers in rotated order instead of moving their contents; here the registers are a list and step \<open>t\<close>
  takes them from position \<open>(5 - t mod 5) mod 5\<close> on. The macro \<^verbatim>\<open>R\<close> keeps sixteen words of the message
  schedule.

  The reference is the description in the standard: a schedule of eighty words, five variables that move on
  in each step, and a fold over the blocks of the padded message. The routine computes it for every way of
  cutting the message into pieces.
\<close>

unbundle bit_operations_syntax

section \<open>The routines\<close>

definition IOT_SHA1_GET_UINT32_BE :: "u8 list \<Rightarrow> nat \<Rightarrow> u32" where
  "IOT_SHA1_GET_UINT32_BE b i =
     push_bit 24 (ucast (b ! i)) OR push_bit 16 (ucast (b ! (i + 1))) OR push_bit 8 (ucast (b ! (i + 2))) OR ucast (b ! (i + 3))"

definition IOT_SHA1_PUT_UINT32_BE :: "u32 \<Rightarrow> u8 list" where
  "IOT_SHA1_PUT_UINT32_BE n = [ucast (drop_bit 24 n), ucast (drop_bit 16 n), ucast (drop_bit 8 n), ucast n]"

definition qm_utils_sha1_init :: md_context where
  "qm_utils_sha1_init = \<lparr>total0 = 0, total1 = 0, state = replicate 5 0, buffer = replicate 64 0\<rparr>"

definition qm_utils_sha1_free :: "md_context option \<Rightarrow> md_context option" where
  "qm_utils_sha1_free ctx = map_option (\<lambda>_. qm_utils_sha1_init) ctx"

definition sha1_iv :: "u32 list" where
  "sha1_iv = [0x67452301, 0xEFCDAB89, 0x98BADCFE, 0x10325476, 0xC3D2E1F0]"

definition qm_utils_sha1_clone :: "md_context \<Rightarrow> md_context \<Rightarrow> md_context" where
  "qm_utils_sha1_clone dst src = src"

definition qm_utils_sha1_starts :: "md_context \<Rightarrow> md_context" where
  "qm_utils_sha1_starts ctx = ctx\<lparr>total0 := 0, total1 := 0, state := sha1_iv\<rparr>"

definition sha1_S :: "u32 \<Rightarrow> nat \<Rightarrow> u32" where
  "sha1_S x n = push_bit n x OR drop_bit (32 - n) (x AND 0xFFFFFFFF)"

definition sha1_R :: "u32 list \<Rightarrow> nat \<Rightarrow> u32 list" where
  "sha1_R W t =
     (let temp = W ! ((t - 3) mod 16) XOR W ! ((t - 8) mod 16) XOR W ! ((t - 14) mod 16) XOR W ! (t mod 16)
      in W[t mod 16 := sha1_S temp 1])"

definition sha1_F :: "nat \<Rightarrow> u32 \<Rightarrow> u32 \<Rightarrow> u32 \<Rightarrow> u32" where
  "sha1_F t x y z =
     (if t < 20 then z XOR (x AND (y XOR z))
      else if t < 40 then x XOR y XOR z
      else if t < 60 then (x AND y) OR (z AND (x OR y))
      else x XOR y XOR z)"

definition sha1_K :: "nat \<Rightarrow> u32" where
  "sha1_K t = (if t < 20 then 0x5A827999 else if t < 40 then 0x6ED9EBA1 else if t < 60 then 0x8F1BBCDC else 0xCA62C1D6)"

text \<open>The macro \<^verbatim>\<open>P\<close> of step \<open>t\<close> on the list of the registers \<^verbatim>\<open>A\<close> to \<^verbatim>\<open>E\<close>.\<close>

definition sha1_P :: "nat \<Rightarrow> u32 \<Rightarrow> u32 list \<Rightarrow> u32 list" where
  "sha1_P t x r =
     (let i = (5 - t mod 5) mod 5;
          a = r ! i; b = r ! ((i + 1) mod 5); c = r ! ((i + 2) mod 5); d = r ! ((i + 3) mod 5); e = r ! ((i + 4) mod 5)
      in r[(i + 4) mod 5 := e + (sha1_S a 5 + sha1_F t b c d + sha1_K t + x), (i + 1) mod 5 := sha1_S b 30])"

definition sha1_step :: "nat \<Rightarrow> u32 list \<times> u32 list \<Rightarrow> u32 list \<times> u32 list" where
  "sha1_step t rW = (case rW of (r, W) \<Rightarrow> let W' = (if t < 16 then W else sha1_R W t) in (sha1_P t (W' ! (t mod 16)) r, W'))"

definition sha1_block :: "u32 list \<Rightarrow> u8 list \<Rightarrow> u32 list" where
  "sha1_block st data =
     (let W = map (\<lambda>i. IOT_SHA1_GET_UINT32_BE data (4 * i)) [0..<16];
          (r, _) = fold sha1_step [0..<80] (st, W)
      in map2 (+) st r)"

definition qm_utils_sha1_process :: "md_context \<Rightarrow> u8 list \<Rightarrow> md_context" where
  "qm_utils_sha1_process ctx data = ctx\<lparr>state := sha1_block (state ctx) data\<rparr>"

definition qm_utils_sha1_update :: "md_context \<Rightarrow> u8 list \<Rightarrow> md_context" where
  "qm_utils_sha1_update ctx input = md_update qm_utils_sha1_process ctx input"

text \<open>The digest and the context that is left.\<close>

definition qm_utils_sha1_finish :: "md_context \<Rightarrow> u8 list \<times> md_context" where
  "qm_utils_sha1_finish ctx =
     (let msglen = IOT_SHA1_PUT_UINT32_BE (md_high ctx) @ IOT_SHA1_PUT_UINT32_BE (md_low ctx);
          ctx1 = qm_utils_sha1_update ctx (take (md_padn ctx) iot_padding);
          ctx2 = qm_utils_sha1_update ctx1 msglen
      in (concat (map IOT_SHA1_PUT_UINT32_BE (state ctx2)), ctx2))"

definition qm_utils_sha1 :: "u8 list \<Rightarrow> u8 list" where
  "qm_utils_sha1 input =
     fst (qm_utils_sha1_finish (qm_utils_sha1_update (qm_utils_sha1_starts qm_utils_sha1_init) input))"

section \<open>The reference\<close>

function sha1_w :: "u32 list \<Rightarrow> nat \<Rightarrow> u32" where
  "sha1_w M t =
     (if t < 16 then M ! t
      else word_rotl 1 (sha1_w M (t - 3) XOR sha1_w M (t - 8) XOR sha1_w M (t - 14) XOR sha1_w M (t - 16)))"
  by pat_completeness auto
termination
  by (relation "measure snd") auto

declare sha1_w.simps [simp del]

definition fips_f :: "nat \<Rightarrow> u32 \<Rightarrow> u32 \<Rightarrow> u32 \<Rightarrow> u32" where
  "fips_f t x y z =
     (if t < 20 then (x AND y) XOR (NOT x AND z)
      else if t < 40 then x XOR y XOR z
      else if t < 60 then (x AND y) XOR (x AND z) XOR (y AND z)
      else x XOR y XOR z)"

fun fips_round :: "u32 list \<Rightarrow> nat \<Rightarrow> u32 list \<Rightarrow> u32 list" where
  "fips_round M t [a, b, c, d, e] =
     [word_rotl 5 a + fips_f t b c d + e + sha1_K t + sha1_w M t, a, word_rotl 30 b, c, d]"
| "fips_round M t _ = []"

definition block_words :: "u8 list \<Rightarrow> u32 list" where
  "block_words b = map (\<lambda>i. of_bytes32 (rev (take 4 (drop (4 * i) b)))) [0..<16]"

definition fips_compress :: "u32 list \<Rightarrow> u8 list \<Rightarrow> u32 list" where
  "fips_compress H b = map2 (+) H (fold (fips_round (block_words b)) [0..<80] H)"

definition sha1_digest :: "u8 list \<Rightarrow> u8 list" where
  "sha1_digest m = concat (map (\<lambda>w. rev (bytes32 w)) (md_fold fips_compress sha1_iv (md_pad be64_bytes m)))"

section \<open>The block function\<close>

lemma sha1_S_rotl: "0 < n \<Longrightarrow> n < 32 \<Longrightarrow> sha1_S x n = word_rotl n x"
  by (simp only: sha1_S_def and_all_ones rotl_shifts)

lemma sha1_F_fips: "sha1_F t = fips_f t"
  by (intro ext bit_word_eqI) (auto simp: sha1_F_def fips_f_def bit_simps)

lemma sha1_load_words:
  assumes "length b = 64"
  shows "map (\<lambda>i. IOT_SHA1_GET_UINT32_BE b (4 * i)) [0..<16] = block_words b"
  unfolding block_words_def
proof (rule map_cong [OF refl])
  fix i
  assume "i \<in> set [0..<16 :: nat]"
  then have "4 * i + 4 \<le> length b" using assms by simp
  then show "IOT_SHA1_GET_UINT32_BE b (4 * i) = of_bytes32 (rev (take 4 (drop (4 * i) b)))"
    by (simp add: four_bytes IOT_SHA1_GET_UINT32_BE_def ac_simps)
qed

text \<open>The registers in the order of step \<open>t\<close>.\<close>

definition rot5 :: "nat \<Rightarrow> u32 list \<Rightarrow> u32 list" where
  "rot5 t r = map (\<lambda>j. r ! (((5 - t mod 5) mod 5 + j) mod 5)) [0..<5]"

lemma mod5_cases:
  obtains "t mod 5 = 0" "Suc t mod 5 = 1" | "t mod 5 = 1" "Suc t mod 5 = 2" | "t mod 5 = 2" "Suc t mod 5 = 3"
    | "t mod 5 = 3" "Suc t mod 5 = 4" | "t mod 5 = 4" "Suc t mod 5 = (0 :: nat)"
proof -
  have "t mod 5 = 0 \<or> t mod 5 = 1 \<or> t mod 5 = 2 \<or> t mod 5 = 3 \<or> t mod 5 = 4"
    using mod_less_divisor [of 5 t] by linarith
  then show thesis
    using that by (auto simp: mod_Suc)
qed

lemma sha1_P_round:
  assumes "length r = 5"
  shows "rot5 (Suc t) (sha1_P t (sha1_w M t) r) = fips_round M t (rot5 t r)"
proof -
  obtain A B C D E where r: "r = [A, B, C, D, E]"
    using assms by (auto simp: length_Suc_conv numeral_eq_Suc)
  have S: "sha1_S x 5 = word_rotl 5 x" "sha1_S x 30 = word_rotl 30 x" for x
    by (simp_all add: sha1_S_rotl)
  have l: "[0..<5] = [0, 1, 2, 3, 4 :: nat]"
    by (simp add: upt_rec)
  show ?thesis
    by (rule mod5_cases [of t]) (simp_all add: r l S rot5_def sha1_P_def Let_def sha1_F_fips add_ac)
qed

lemma sha1_R_window:
  assumes "window (sha1_w M) t W" "16 \<le> t"
  shows "window (sha1_w M) (Suc t) (sha1_R W t)"
proof -
  have "W ! (t mod 16) = sha1_w M (t - 16)"
    using window_read [OF assms, of 16] assms(2) by (simp add: le_mod_geq)
  then have "sha1_R W t = W[t mod 16 := sha1_w M t]"
    using assms(2) window_read [OF assms, of 3] window_read [OF assms, of 8] window_read [OF assms, of 14]
    by (subst sha1_w.simps) (simp add: sha1_R_def Let_def sha1_S_rotl)
  then show ?thesis
    using window_write [OF assms] by simp
qed

lemma length_sha1_P [simp]: "length (sha1_P t x r) = length r"
  by (simp add: sha1_P_def Let_def)

lemma sha1_steps:
  assumes "length H = 5" "length M = 16"
  shows "\<exists>r W. fold sha1_step [0..<n] (H, M) = (r, W) \<and> length r = 5 \<and> window (sha1_w M) n W
           \<and> rot5 n r = fold (fips_round M) [0..<n] H"
proof (induction n)
  case 0
  have "window (sha1_w M) 0 M"
    using assms(2) by (rule window_init) (simp add: sha1_w.simps)
  moreover have "rot5 0 H = H"
    using assms(1) by (auto simp: rot5_def intro: nth_equalityI)
  ultimately show ?case using assms(1) by simp
next
  case (Suc n)
  then obtain r W where s: "fold sha1_step [0..<n] (H, M) = (r, W)" "length r = 5" "window (sha1_w M) n W"
    "rot5 n r = fold (fips_round M) [0..<n] H" by blast
  define W' where "W' = (if n < 16 then W else sha1_R W n)"
  have w: "window (sha1_w M) (Suc n) W'"
    using s(3) window_early sha1_R_window by (simp add: W'_def)
  have "fold sha1_step [0..<Suc n] (H, M) = (sha1_P n (sha1_w M n) r, W')"
    using s(1) window_current [OF w] by (simp add: sha1_step_def W'_def Let_def)
  then show ?case
    using s(2,4) w sha1_P_round [OF s(2), of n M] by simp
qed

lemma sha1_block_fips:
  assumes "length H = 5" "length b = 64"
  shows "sha1_block H b = fips_compress H b \<and> length (sha1_block H b) = 5"
proof -
  have M: "length (block_words b) = 16"
    by (simp add: block_words_def)
  obtain r W where s: "fold sha1_step [0..<80] (H, block_words b) = (r, W)" "length r = 5"
    "rot5 80 r = fold (fips_round (block_words b)) [0..<80] H"
    using sha1_steps [OF assms(1) M, of 80] by blast
  have "rot5 80 r = r"
    using s(2) by (auto simp: rot5_def intro: nth_equalityI)
  then show ?thesis
    using s assms(1) unfolding sha1_block_def sha1_load_words [OF assms(2)] fips_compress_def by simp
qed

section \<open>The digest\<close>

lemma put_be: "IOT_SHA1_PUT_UINT32_BE = (\<lambda>w. rev (bytes32 w))"
  by (simp add: fun_eq_iff IOT_SHA1_PUT_UINT32_BE_def bytes32_def)

lemma sha1_length_bytes:
  assumes "md_repr f iv ctx m"
  shows "IOT_SHA1_PUT_UINT32_BE (md_high ctx) @ IOT_SHA1_PUT_UINT32_BE (md_low ctx) = be64_bytes (8 * length m)"
  using words_bytes64(2) by (simp only: length_words [OF assms] put_be)

lemma sha1_fold:
  "md_fold sha1_block sha1_iv m = md_fold fips_compress sha1_iv m \<and> length (md_fold sha1_block sha1_iv m) = 5"
proof -
  have "length sha1_iv = 5" by (simp add: sha1_iv_def)
  then show ?thesis
    using md_fold_cong [of "\<lambda>s. length s = 5" sha1_block fips_compress sha1_iv m, OF sha1_block_fips] by blast
qed

lemma sha1_finish_digest:
  assumes "md_repr sha1_block sha1_iv c m"
  shows "fst (qm_utils_sha1_finish c) = sha1_digest m"
proof -
  have "state (md_update qm_utils_sha1_process (md_update qm_utils_sha1_process c (take (md_padn c) iot_padding))
      (be64_bytes (8 * length m))) = md_fold sha1_block sha1_iv (md_pad be64_bytes m)"
    by (rule finish_repr [where f = sha1_block]) (simp_all add: assms qm_utils_sha1_process_def)
  then show ?thesis
    unfolding qm_utils_sha1_finish_def sha1_length_bytes [OF assms] qm_utils_sha1_update_def Let_def sha1_digest_def
    by (simp add: put_be sha1_fold)
qed

lemma sha1_update_repr:
  assumes "md_repr sha1_block sha1_iv c m" "length d < 2 ^ 32"
  shows "md_repr sha1_block sha1_iv (qm_utils_sha1_update c d) (m @ d)"
  unfolding qm_utils_sha1_update_def using assms
  by (rule update_repr [rotated]) (simp add: qm_utils_sha1_process_def)

lemma sha1_start_repr: "md_repr sha1_block sha1_iv (qm_utils_sha1_starts qm_utils_sha1_init) []"
  by (simp add: md_repr_def qm_utils_sha1_starts_def qm_utils_sha1_init_def)

interpretation sha1: hash_stream "qm_utils_sha1_starts qm_utils_sha1_init" qm_utils_sha1_update
  "\<lambda>ctx. fst (qm_utils_sha1_finish ctx)" "md_repr sha1_block sha1_iv" sha1_digest
  by unfold_locales (fact sha1_start_repr sha1_update_repr sha1_finish_digest)+

lemma length_sha1_digest [simp]: "length (sha1_digest m) = 20"
proof -
  have "length (concat (map (\<lambda>w. rev (bytes32 w)) ws)) = 4 * length ws" for ws
    by (induction ws) (simp_all add: bytes32_def)
  then show ?thesis
    using sha1_fold [of "md_pad be64_bytes m"] by (auto simp: sha1_digest_def)
qed

section \<open>Properties\<close>



end
