(* ===== verification/Md5.thy ===== *)
theory Md5
  imports Hash_Stream
begin

text \<open>
  MD5 as in \<^verbatim>\<open>utility/md5/qm_utils_md5.c\<close>, with the conversion to hexadecimal digits. The sixty-four
  unrolled steps of the code pass the four registers in rotated order; here the registers are a list, step
  \<open>t\<close> takes them from position \<open>(4 - t mod 4) mod 4\<close> on, and the arguments \<^verbatim>\<open>k\<close>, \<^verbatim>\<open>s\<close> and \<^verbatim>\<open>t\<close> of
  the macro \<^verbatim>\<open>P\<close> are a table.

  The reference is the algorithm of RFC 1321 with four variables that move on in each step and with the
  message words and shifts given by formulas. The routine computes it for every way of cutting the message
  into pieces.
\<close>

unbundle bit_operations_syntax

section \<open>The routines\<close>

definition IOT_MD5_GET_UINT32_LE :: "u8 list \<Rightarrow> nat \<Rightarrow> u32" where
  "IOT_MD5_GET_UINT32_LE b i =
     ucast (b ! i) OR push_bit 8 (ucast (b ! (i + 1))) OR push_bit 16 (ucast (b ! (i + 2))) OR push_bit 24 (ucast (b ! (i + 3)))"

definition IOT_MD5_PUT_UINT32_LE :: "u32 \<Rightarrow> u8 list" where
  "IOT_MD5_PUT_UINT32_LE n =
     [ucast (n AND 0xFF), ucast (drop_bit 8 n AND 0xFF), ucast (drop_bit 16 n AND 0xFF), ucast (drop_bit 24 n AND 0xFF)]"

definition qm_utils_md5_init :: md_context where
  "qm_utils_md5_init = \<lparr>total0 = 0, total1 = 0, state = replicate 4 0, buffer = replicate 64 0\<rparr>"

definition qm_utils_md5_free :: "md_context option \<Rightarrow> md_context option" where
  "qm_utils_md5_free ctx = map_option (\<lambda>_. qm_utils_md5_init) ctx"

definition md5_iv :: "u32 list" where
  "md5_iv = [0x67452301, 0xEFCDAB89, 0x98BADCFE, 0x10325476]"

definition qm_utils_md5_clone :: "md_context \<Rightarrow> md_context \<Rightarrow> md_context" where
  "qm_utils_md5_clone dst src = src"

definition qm_utils_md5_starts :: "md_context \<Rightarrow> md_context" where
  "qm_utils_md5_starts ctx = ctx\<lparr>total0 := 0, total1 := 0, state := md5_iv\<rparr>"

definition md5_S :: "u32 \<Rightarrow> nat \<Rightarrow> u32" where
  "md5_S x n = push_bit n x OR drop_bit (32 - n) (x AND 0xFFFFFFFF)"

definition md5_F :: "nat \<Rightarrow> u32 \<Rightarrow> u32 \<Rightarrow> u32 \<Rightarrow> u32" where
  "md5_F t x y z =
     (if t < 16 then z XOR (x AND (y XOR z))
      else if t < 32 then y XOR (z AND (x XOR y))
      else if t < 48 then x XOR y XOR z
      else y XOR (x OR NOT z))"

definition md5_args :: "(nat \<times> nat \<times> u32) list" where
  "md5_args =
     [(0, 7, 0xD76AA478), (1, 12, 0xE8C7B756), (2, 17, 0x242070DB), (3, 22, 0xC1BDCEEE),
      (4, 7, 0xF57C0FAF), (5, 12, 0x4787C62A), (6, 17, 0xA8304613), (7, 22, 0xFD469501),
      (8, 7, 0x698098D8), (9, 12, 0x8B44F7AF), (10, 17, 0xFFFF5BB1), (11, 22, 0x895CD7BE),
      (12, 7, 0x6B901122), (13, 12, 0xFD987193), (14, 17, 0xA679438E), (15, 22, 0x49B40821),
      (1, 5, 0xF61E2562), (6, 9, 0xC040B340), (11, 14, 0x265E5A51), (0, 20, 0xE9B6C7AA),
      (5, 5, 0xD62F105D), (10, 9, 0x02441453), (15, 14, 0xD8A1E681), (4, 20, 0xE7D3FBC8),
      (9, 5, 0x21E1CDE6), (14, 9, 0xC33707D6), (3, 14, 0xF4D50D87), (8, 20, 0x455A14ED),
      (13, 5, 0xA9E3E905), (2, 9, 0xFCEFA3F8), (7, 14, 0x676F02D9), (12, 20, 0x8D2A4C8A),
      (5, 4, 0xFFFA3942), (8, 11, 0x8771F681), (11, 16, 0x6D9D6122), (14, 23, 0xFDE5380C),
      (1, 4, 0xA4BEEA44), (4, 11, 0x4BDECFA9), (7, 16, 0xF6BB4B60), (10, 23, 0xBEBFBC70),
      (13, 4, 0x289B7EC6), (0, 11, 0xEAA127FA), (3, 16, 0xD4EF3085), (6, 23, 0x04881D05),
      (9, 4, 0xD9D4D039), (12, 11, 0xE6DB99E5), (15, 16, 0x1FA27CF8), (2, 23, 0xC4AC5665),
      (0, 6, 0xF4292244), (7, 10, 0x432AFF97), (14, 15, 0xAB9423A7), (5, 21, 0xFC93A039),
      (12, 6, 0x655B59C3), (3, 10, 0x8F0CCC92), (10, 15, 0xFFEFF47D), (1, 21, 0x85845DD1),
      (8, 6, 0x6FA87E4F), (15, 10, 0xFE2CE6E0), (6, 15, 0xA3014314), (13, 21, 0x4E0811A1),
      (4, 6, 0xF7537E82), (11, 10, 0xBD3AF235), (2, 15, 0x2AD7D2BB), (9, 21, 0xEB86D391)]"

text \<open>The macro \<^verbatim>\<open>P\<close> of step \<open>t\<close> on the list of the registers \<^verbatim>\<open>A\<close> to \<^verbatim>\<open>D\<close>.\<close>

definition md5_P :: "u32 list \<Rightarrow> nat \<Rightarrow> u32 list \<Rightarrow> u32 list" where
  "md5_P X t r =
     (let (k, s, u) = md5_args ! t;
          i = (4 - t mod 4) mod 4;
          b = r ! ((i + 1) mod 4); c = r ! ((i + 2) mod 4); d = r ! ((i + 3) mod 4);
          a = r ! i + (md5_F t b c d + X ! k + u)
      in r[i := md5_S a s + b])"

definition md5_block :: "u32 list \<Rightarrow> u8 list \<Rightarrow> u32 list" where
  "md5_block st data =
     (let X = map (\<lambda>i. IOT_MD5_GET_UINT32_LE data (4 * i)) [0..<16]
      in map2 (+) st (fold (md5_P X) [0..<64] st))"

definition qm_utils_md5_process :: "md_context \<Rightarrow> u8 list \<Rightarrow> md_context" where
  "qm_utils_md5_process ctx data = ctx\<lparr>state := md5_block (state ctx) data\<rparr>"

definition qm_utils_md5_update :: "md_context \<Rightarrow> u8 list \<Rightarrow> md_context" where
  "qm_utils_md5_update ctx input = md_update qm_utils_md5_process ctx input"

text \<open>The digest and the context that is left.\<close>

definition qm_utils_md5_finish :: "md_context \<Rightarrow> u8 list \<times> md_context" where
  "qm_utils_md5_finish ctx =
     (let msglen = IOT_MD5_PUT_UINT32_LE (md_low ctx) @ IOT_MD5_PUT_UINT32_LE (md_high ctx);
          ctx1 = qm_utils_md5_update ctx (take (md_padn ctx) iot_padding);
          ctx2 = qm_utils_md5_update ctx1 msglen
      in (concat (map IOT_MD5_PUT_UINT32_LE (state ctx2)), ctx2))"

definition qm_utils_md5 :: "u8 list \<Rightarrow> u8 list" where
  "qm_utils_md5 input =
     fst (qm_utils_md5_finish (qm_utils_md5_update (qm_utils_md5_starts qm_utils_md5_init) input))"

text \<open>Characters are written by their codes: 48 is \<^verbatim>\<open>'0'\<close> and 97 is \<^verbatim>\<open>'a'\<close>.\<close>

definition qm_utils_hb2hex :: "u8 \<Rightarrow> u8" where
  "qm_utils_hb2hex hb = (let hb = hb AND 0xF in if hb < 10 then 48 + hb else hb - 10 + 97)"

fun qm_utils_md5_hexstr :: "u8 list \<Rightarrow> u8 list" where
  "qm_utils_md5_hexstr [] = []"
| "qm_utils_md5_hexstr (x # xs) =
     (let h = drop_bit 4 x AND 0x0F; l = x AND 0x0F
      in (if h \<le> 9 then h + 48 else h + 97 - 10) # (if l \<le> 9 then l + 48 else l + 97 - 10) # qm_utils_md5_hexstr xs)"

section \<open>The reference\<close>

definition rfc_f :: "nat \<Rightarrow> u32 \<Rightarrow> u32 \<Rightarrow> u32 \<Rightarrow> u32" where
  "rfc_f t x y z =
     (if t < 16 then (x AND y) OR (NOT x AND z)
      else if t < 32 then (x AND z) OR (y AND NOT z)
      else if t < 48 then x XOR y XOR z
      else y XOR (x OR NOT z))"

definition rfc_k :: "nat \<Rightarrow> nat" where
  "rfc_k t = (if t < 16 then t else if t < 32 then (5 * t + 1) mod 16 else if t < 48 then (3 * t + 5) mod 16 else 7 * t mod 16)"

definition rfc_s :: "nat \<Rightarrow> nat" where
  "rfc_s t = (if t < 16 then [7, 12, 17, 22] else if t < 32 then [5, 9, 14, 20]
     else if t < 48 then [4, 11, 16, 23] else [6, 10, 15, 21]) ! (t mod 4)"

text \<open>The constant of a step is that of the table.\<close>

definition rfc_T :: "nat \<Rightarrow> u32" where
  "rfc_T t = snd (snd (md5_args ! t))"

fun rfc_step :: "u32 list \<Rightarrow> nat \<Rightarrow> u32 list \<Rightarrow> u32 list" where
  "rfc_step X t [a, b, c, d] = [d, b + word_rotl (rfc_s t) (a + rfc_f t b c d + X ! rfc_k t + rfc_T t), b, c]"
| "rfc_step X t _ = []"

definition le_words :: "u8 list \<Rightarrow> u32 list" where
  "le_words b = map (\<lambda>i. of_bytes32 (take 4 (drop (4 * i) b))) [0..<16]"

definition rfc_compress :: "u32 list \<Rightarrow> u8 list \<Rightarrow> u32 list" where
  "rfc_compress H b = map2 (+) H (fold (rfc_step (le_words b)) [0..<64] H)"

definition md5_digest :: "u8 list \<Rightarrow> u8 list" where
  "md5_digest m = concat (map bytes32 (md_fold rfc_compress md5_iv (md_pad le64_bytes m)))"

section \<open>The block function\<close>

lemma md5_S_rotl: "0 < n \<Longrightarrow> n < 32 \<Longrightarrow> md5_S x n = word_rotl n x"
  by (simp only: md5_S_def and_all_ones rotl_shifts)

lemma md5_F_rfc: "md5_F t = rfc_f t"
  by (intro ext bit_word_eqI) (auto simp: md5_F_def rfc_f_def bit_simps)

lemma md5_load_words:
  assumes "length b = 64"
  shows "map (\<lambda>i. IOT_MD5_GET_UINT32_LE b (4 * i)) [0..<16] = le_words b"
  unfolding le_words_def
proof (rule map_cong [OF refl])
  fix i
  assume "i \<in> set [0..<16 :: nat]"
  then have "4 * i + 4 \<le> length b" using assms by simp
  then show "IOT_MD5_GET_UINT32_LE b (4 * i) = of_bytes32 (take 4 (drop (4 * i) b))"
    by (simp add: four_bytes IOT_MD5_GET_UINT32_LE_def)
qed

text \<open>The arguments of the steps follow the formulas.\<close>

lemma md5_args_formula: "list_all (\<lambda>t. fst (md5_args ! t) = rfc_k t \<and> fst (snd (md5_args ! t)) = rfc_s t) [0..<64]"
  by code_simp

lemma md5_args_nth:
  assumes "t < 64"
  shows "md5_args ! t = (rfc_k t, rfc_s t, rfc_T t)" "0 < rfc_s t" "rfc_s t < 32"
proof -
  show "md5_args ! t = (rfc_k t, rfc_s t, rfc_T t)"
    using md5_args_formula assms by (simp add: list_all_iff rfc_T_def prod_eq_iff)
  have "list_all (\<lambda>t. 0 < rfc_s t \<and> rfc_s t < 32) [0..<64]"
    by code_simp
  then show "0 < rfc_s t" "rfc_s t < 32"
    using assms by (simp_all add: list_all_iff)
qed

text \<open>The registers in the order of step \<open>t\<close>.\<close>

definition rot4 :: "nat \<Rightarrow> u32 list \<Rightarrow> u32 list" where
  "rot4 t r = map (\<lambda>j. r ! (((4 - t mod 4) mod 4 + j) mod 4)) [0..<4]"

lemma mod4_cases:
  obtains "t mod 4 = 0" "Suc t mod 4 = 1" | "t mod 4 = 1" "Suc t mod 4 = 2" | "t mod 4 = 2" "Suc t mod 4 = 3"
    | "t mod 4 = 3" "Suc t mod 4 = (0 :: nat)"
proof -
  have "t mod 4 = 0 \<or> t mod 4 = 1 \<or> t mod 4 = 2 \<or> t mod 4 = 3"
    using mod_less_divisor [of 4 t] by linarith
  then show thesis
    using that by (auto simp: mod_Suc)
qed

lemma md5_P_step:
  assumes "length r = 4" "t < 64"
  shows "rot4 (Suc t) (md5_P X t r) = rfc_step X t (rot4 t r)"
proof -
  obtain A B C D where r: "r = [A, B, C, D]"
    using assms(1) by (auto simp: length_Suc_conv numeral_eq_Suc)
  have S: "md5_S x (rfc_s t) = word_rotl (rfc_s t) x" for x
    using md5_args_nth [OF assms(2)] by (simp add: md5_S_rotl)
  have l: "[0..<4] = [0, 1, 2, 3 :: nat]"
    by (simp add: upt_rec)
  show ?thesis
    by (rule mod4_cases [of t])
      (simp_all add: r l S rot4_def md5_P_def Let_def md5_F_rfc md5_args_nth(1) [OF assms(2)] add_ac)
qed

lemma length_md5_P [simp]: "length (md5_P X t r) = length r"
  by (simp add: md5_P_def Let_def split: prod.split)

lemma md5_steps:
  assumes "length H = 4" "n \<le> 64"
  shows "length (fold (md5_P X) [0..<n] H) = 4 \<and> rot4 n (fold (md5_P X) [0..<n] H) = fold (rfc_step X) [0..<n] H"
  using assms(2)
proof (induction n)
  case 0
  then show ?case
    using assms(1) by (auto simp: rot4_def intro: nth_equalityI)
next
  case (Suc n)
  then show ?case using md5_P_step [of "fold (md5_P X) [0..<n] H" n X] by simp
qed

lemma md5_block_rfc:
  assumes "length H = 4" "length b = 64"
  shows "md5_block H b = rfc_compress H b \<and> length (md5_block H b) = 4"
proof -
  define r where "r = fold (md5_P (le_words b)) [0..<64] H"
  have "length r = 4" "rot4 64 r = fold (rfc_step (le_words b)) [0..<64] H"
    using md5_steps [OF assms(1), of 64] by (simp_all add: r_def)
  moreover have "rot4 64 r = r" if "length r = 4"
    using that by (auto simp: rot4_def intro: nth_equalityI)
  ultimately show ?thesis
    using assms(1) unfolding md5_block_def md5_load_words [OF assms(2)] rfc_compress_def Let_def r_def [symmetric] by simp
qed

section \<open>The digest\<close>

lemma put_le: "IOT_MD5_PUT_UINT32_LE = bytes32"
  by (simp add: fun_eq_iff IOT_MD5_PUT_UINT32_LE_def bytes32_def ucast_low_byte)

lemma md5_length_bytes:
  assumes "md_repr f iv ctx m"
  shows "IOT_MD5_PUT_UINT32_LE (md_low ctx) @ IOT_MD5_PUT_UINT32_LE (md_high ctx) = le64_bytes (8 * length m)"
  using words_bytes64(1) by (simp only: length_words [OF assms] put_le)

lemma md5_fold: "md_fold md5_block md5_iv m = md_fold rfc_compress md5_iv m \<and> length (md_fold md5_block md5_iv m) = 4"
proof -
  have "length md5_iv = 4" by (simp add: md5_iv_def)
  then show ?thesis
    using md_fold_cong [of "\<lambda>s. length s = 4" md5_block rfc_compress md5_iv m, OF md5_block_rfc] by blast
qed

lemma md5_finish_digest:
  assumes "md_repr md5_block md5_iv c m"
  shows "fst (qm_utils_md5_finish c) = md5_digest m"
proof -
  have "state (md_update qm_utils_md5_process (md_update qm_utils_md5_process c (take (md_padn c) iot_padding))
      (le64_bytes (8 * length m))) = md_fold md5_block md5_iv (md_pad le64_bytes m)"
    by (rule finish_repr [where f = md5_block]) (simp_all add: assms qm_utils_md5_process_def)
  then show ?thesis
    unfolding qm_utils_md5_finish_def md5_length_bytes [OF assms] qm_utils_md5_update_def Let_def md5_digest_def
    by (simp add: put_le md5_fold)
qed

lemma md5_update_repr:
  assumes "md_repr md5_block md5_iv c m" "length d < 2 ^ 32"
  shows "md_repr md5_block md5_iv (qm_utils_md5_update c d) (m @ d)"
  unfolding qm_utils_md5_update_def using assms
  by (rule update_repr [rotated]) (simp add: qm_utils_md5_process_def)

lemma md5_start_repr: "md_repr md5_block md5_iv (qm_utils_md5_starts qm_utils_md5_init) []"
  by (simp add: md_repr_def qm_utils_md5_starts_def qm_utils_md5_init_def)

interpretation md5: hash_stream "qm_utils_md5_starts qm_utils_md5_init" qm_utils_md5_update
  "\<lambda>ctx. fst (qm_utils_md5_finish ctx)" "md_repr md5_block md5_iv" md5_digest
  by unfold_locales (fact md5_start_repr md5_update_repr md5_finish_digest)+

lemma length_md5_digest [simp]: "length (md5_digest m) = 16"
proof -
  have "length (concat (map bytes32 ws)) = 4 * length ws" for ws
    by (induction ws) (simp_all add: bytes32_def)
  then show ?thesis
    using md5_fold [of "md_pad le64_bytes m"] by (auto simp: md5_digest_def)
qed

section \<open>Properties\<close>



end
