(* ===== verification/String_Utils.thy ===== *)
theory String_Utils
  imports QM_Prelude
begin

text \<open>
  The string helpers of \<^verbatim>\<open>utility/string/qm_utils_string.c\<close> and \<^verbatim>\<open>qm_string.c\<close>: numbers to and from
  decimal and hexadecimal text, the lookup of a value in a flat JSON text, and the \<^verbatim>\<open>%s\<close> formatter.

  A C string is the list of its character codes without the terminating zero; 48 is \<^verbatim>\<open>'0'\<close>, 65 \<^verbatim>\<open>'A'\<close>,
  97 \<^verbatim>\<open>'a'\<close>, 34 the double quote. An input is the list of the bytes the caller says it has. A result of \<open>None\<close>
  is a read beyond the end of the string. A code of 128 and more is a negative \<^verbatim>\<open>char\<close> for the compilers of the
  targets; no digit test is affected.
\<close>

unbundle bit_operations_syntax

section \<open>\<^verbatim>\<open>qm_utils_string.c\<close>\<close>

definition hex_code :: "u8 \<Rightarrow> u8 \<Rightarrow> u8" where
  "hex_code shift n = (let dd = 48 + n in if dd > 57 then dd + shift else dd)"

definition hex_to_strs :: "u8 list option \<Rightarrow> bool \<Rightarrow> int \<times> u8 list" where
  "hex_to_strs in_buf out_nonnull =
     (case in_buf of
        None \<Rightarrow> (- 1, [])
      | Some bs \<Rightarrow>
          if \<not> out_nonnull \<or> bs = [] then (- 1, [])
          else (0, concat (map (\<lambda>b. [hex_code 39 (b div 16), hex_code 39 (b mod 16)]) bs) @ [0]))"

definition hex_to_strs_print :: "u8 list option \<Rightarrow> bool \<Rightarrow> int \<times> u8 list" where
  "hex_to_strs_print in_buf out_nonnull =
     (case in_buf of
        None \<Rightarrow> (- 1, [])
      | Some bs \<Rightarrow>
          if \<not> out_nonnull \<or> bs = [] then (- 1, [])
          else (0, concat (map (\<lambda>b. [hex_code 7 (b div 16), hex_code 7 (b mod 16), 32]) bs) @ [0]))"

text \<open>The digit tests of the conversions, and their loop: \<^verbatim>\<open>len - 1\<close> digits shifted in, then the last one.\<close>

definition dec_digit :: "u8 \<Rightarrow> u8 option" where
  "dec_digit c = (if c \<ge> 48 \<and> c \<le> 57 then Some (c - 48) else None)"

definition hex_digit :: "u8 \<Rightarrow> u8 option" where
  "hex_digit c =
     (if c \<ge> 48 \<and> c \<le> 57 then Some (c - 48)
      else if c \<ge> 65 \<and> c \<le> 70 then Some (10 + c - 65)
      else if c \<ge> 97 \<and> c \<le> 102 then Some (10 + c - 97)
      else None)"

fun num_loop :: "(u8 \<Rightarrow> u8 option) \<Rightarrow> (u32 \<Rightarrow> u32) \<Rightarrow> nat \<Rightarrow> u32 \<Rightarrow> u8 list \<Rightarrow> u32 option" where
  "num_loop digit shift n h [] = None"
| "num_loop digit shift 0 h (c # s) = (case digit c of None \<Rightarrow> Some 0 | Some d \<Rightarrow> Some (h + ucast d))"
| "num_loop digit shift (Suc n) h (c # s) =
     (case digit c of None \<Rightarrow> Some 0 | Some d \<Rightarrow> num_loop digit shift n (shift (h + ucast d)) s)"

definition hex_str_to_num :: "u8 list \<Rightarrow> u8 \<Rightarrow> u32 option" where
  "hex_str_to_num str len_arg = num_loop hex_digit (push_bit 4) (unat (len_arg - 1)) 0 str"

definition int_str_to_num :: "u8 list \<Rightarrow> u8 \<Rightarrow> u32 option" where
  "int_str_to_num str len_arg = num_loop dec_digit (\<lambda>h. h * 10) (unat (len_arg - 1)) 0 str"

definition hex_str_to_nums :: "u8 list option \<Rightarrow> int \<Rightarrow> bool \<Rightarrow> (int \<times> u8 list) option" where
  "hex_str_to_nums hex_str len_arg num_nonnull =
     (case hex_str of
        None \<Rightarrow> Some (- 1, [])
      | Some s \<Rightarrow>
          if \<not> num_nonnull \<or> len_arg = 0 then Some (- 1, [])
          else map_option (\<lambda>ns. (0, map ucast ns))
                 (those (map (\<lambda>j. hex_str_to_num (drop (2 * j) s) 2) [0..<nat ((len_arg + 1) div 2)])))"

section \<open>\<^verbatim>\<open>qm_string.c\<close>\<close>

definition qm_strdup :: "bool \<Rightarrow> u8 list option \<Rightarrow> u8 list option" where
  "qm_strdup malloc_ok s = (case s of None \<Rightarrow> None | Some cs \<Rightarrow> if malloc_ok then Some cs else None)"

fun str2uint_loop :: "'a::len word \<Rightarrow> u8 list \<Rightarrow> 'a word option" where
  "str2uint_loop temp [] = Some temp"
| "str2uint_loop temp (c # cs) =
     (if c < 48 \<or> c > 57 then None else str2uint_loop (temp * 10 + ucast c - 48) cs)"

definition qm_str2uint :: "u8 list \<Rightarrow> int \<times> u32 option" where
  "qm_str2uint input =
     (case str2uint_loop 0 input of None \<Rightarrow> (- QM_EINVAL, None) | Some temp \<Rightarrow> (QM_EOK, Some temp))"

definition qm_str2uint64 :: "u8 list \<Rightarrow> int \<times> 64 word option" where
  "qm_str2uint64 input =
     (case str2uint_loop 0 input of None \<Rightarrow> (- QM_EINVAL, None) | Some temp \<Rightarrow> (QM_EOK, Some temp))"

text \<open>The digits in the order the division loop stores them in \<^verbatim>\<open>temp\<close>; the second loop copies them backwards.\<close>

function dec_temp :: "nat \<Rightarrow> u8 list" where
  "dec_temp input = (48 + of_nat (input mod 10)) # (if input div 10 > 0 then dec_temp (input div 10) else [])"
  by pat_completeness auto
termination
  by (relation "measure id") auto

declare dec_temp.simps [simp del]

definition qm_uint2str :: "u32 \<Rightarrow> int \<times> u8 list \<times> u8" where
  "qm_uint2str input = (let temp = dec_temp (unat input) in (QM_EOK, rev temp, of_nat (length temp)))"

definition qm_uint642str :: "64 word \<Rightarrow> int \<times> u8 list \<times> u8" where
  "qm_uint642str input = (let temp = dec_temp (unat input) in (QM_EOK, rev temp, of_nat (length temp)))"

definition qm_int2str :: "u32 \<Rightarrow> int \<times> u8 list \<times> u8" where
  "qm_int2str input =
     (let minus = sint input < 0;
          temp = dec_temp (nat \<bar>sint input\<bar>)
      in (QM_EOK, (if minus then [45] else []) @ rev temp, of_nat (length temp) + (if minus then 1 else 0)))"

definition lower :: "u8 list" where
  "lower = [48, 49, 50, 51, 52, 53, 54, 55, 56, 57, 97, 98, 99, 100, 101, 102]"

definition upper :: "u8 list" where
  "upper = [48, 49, 50, 51, 52, 53, 54, 55, 56, 57, 65, 66, 67, 68, 69, 70]"

function hex_temp :: "nat \<Rightarrow> u8 list" where
  "hex_temp input = lower ! (input mod 16) # (if input div 16 > 0 then hex_temp (input div 16) else [])"
  by pat_completeness auto
termination
  by (relation "measure id") auto

declare hex_temp.simps [simp del]

text \<open>\<^verbatim>\<open>input *= -1\<close> overflows on the least \<^verbatim>\<open>int32_t\<close>: no result.\<close>

definition qm_int2hexstr :: "u32 \<Rightarrow> (int \<times> u8 list \<times> u8) option" where
  "qm_int2hexstr input =
     (if sint input = - (2 ^ 31) then None
      else
        let nagative = sint input < 0;
            temp = hex_temp (nat \<bar>sint input\<bar>) @ [120, 48] @ (if nagative then [45] else [])
        in Some (QM_EOK, rev temp, of_nat (length temp)))"

definition qm_hex2str :: "u8 list \<Rightarrow> bool \<Rightarrow> int \<times> u8 list" where
  "qm_hex2str input lowercase =
     (let encode = (if lowercase then lower else upper)
      in (QM_EOK, concat (map (\<lambda>b. [encode ! unat (drop_bit 4 b AND 0xf), encode ! unat (b AND 0xf)]) input)))"

text \<open>A pair of digits into one output byte; a character that is no digit leaves what the byte had.\<close>

definition str2hex_byte :: "u8 \<Rightarrow> u8 \<Rightarrow> u8 \<Rightarrow> u8" where
  "str2hex_byte out hi lo =
     (let out1 = (case hex_digit hi of Some d \<Rightarrow> push_bit 4 d | None \<Rightarrow> out)
      in (case hex_digit lo of Some d \<Rightarrow> out1 OR d | None \<Rightarrow> out1))"

fun str2hex_loop :: "u8 list \<Rightarrow> u8 list \<Rightarrow> u8 list" where
  "str2hex_loop (hi # lo # s) (out # os) = str2hex_byte out hi lo # str2hex_loop s os"
| "str2hex_loop s os = os"

definition qm_str2hex :: "u8 list \<Rightarrow> u8 list \<Rightarrow> int \<times> u8 list" where
  "qm_str2hex input output =
     (if length input mod 2 \<noteq> 0 then (- QM_EINVAL, output) else (QM_EOK, str2hex_loop input output))"

subsection \<open>A value of a JSON text\<close>

text \<open>The three scans of \<^verbatim>\<open>qm_json_value\<close>: the index at which each stops.\<close>

function scan_until :: "(u8 \<Rightarrow> bool) \<Rightarrow> u8 list \<Rightarrow> nat \<Rightarrow> nat option" where
  "scan_until stop input idx =
     (if idx < length input then if stop (input ! idx) then Some idx else scan_until stop input (idx + 1) else None)"
  by pat_completeness auto
termination
  by (relation "measure (\<lambda>(stop, input, idx). length input - idx)") auto

declare scan_until.simps [simp del]

function scan_nested :: "u8 \<Rightarrow> u8 \<Rightarrow> u8 \<Rightarrow> u8 list \<Rightarrow> nat \<Rightarrow> nat option" where
  "scan_nested start stop count input idx =
     (if idx < length input
      then if input ! idx = start then scan_nested start stop (count + 1) input (idx + 1)
           else if input ! idx = stop
           then if count - 1 = 0 then Some idx else scan_nested start stop (count - 1) input (idx + 1)
           else scan_nested start stop count input (idx + 1)
      else None)"
  by pat_completeness auto
termination
  by (relation "measure (\<lambda>(start, stop, count, input, idx). length input - idx)") auto

declare scan_nested.simps [simp del]

text \<open>The value that starts at \<open>idx\<close>: the error code, the offset put in \<^verbatim>\<open>value\<close> and the length put in
  \<^verbatim>\<open>value_len\<close>. A scan that runs off the text also ends the outer loop.\<close>

definition json_value_at :: "u8 list \<Rightarrow> nat \<Rightarrow> int \<times> nat option \<times> nat option" where
  "json_value_at input idx =
     (if input ! idx = 34
      then let v = idx + 1
           in (case scan_until (\<lambda>c. c = 34) input v of
                 Some e \<Rightarrow> (QM_EOK, Some v, Some (e - v)) | None \<Rightarrow> (- QM_ERROR, Some v, None))
      else if input ! idx = 123 \<or> input ! idx = 91
      then let start = input ! idx; stop = (if start = 123 then 125 else 93)
           in (case scan_nested start stop 0 input idx of
                 Some e \<Rightarrow> (QM_EOK, Some idx, Some (e - idx + 1)) | None \<Rightarrow> (- QM_ERROR, Some idx, None))
      else (case scan_until (\<lambda>c. c = 44 \<or> c = 93 \<or> c = 125) input idx of
              Some e \<Rightarrow> (QM_EOK, Some idx, Some (e - idx)) | None \<Rightarrow> (- QM_ERROR, Some idx, None)))"

definition json_match :: "u8 list \<Rightarrow> u8 list \<Rightarrow> nat \<Rightarrow> bool" where
  "json_match input key idx =
     (take (length key) (drop idx input) = key \<and> idx > 0 \<and> input ! (idx - 1) = 34
      \<and> idx + length key < length input \<and> input ! (idx + length key) = 34)"

function json_value_loop :: "u8 list \<Rightarrow> u8 list \<Rightarrow> nat \<Rightarrow> int \<times> nat option \<times> nat option" where
  "json_value_loop input key idx =
     (if idx < length input
      then if idx + length key \<ge> length input then (- QM_ERROR, None, None)
           else if json_match input key idx
           then let i = idx + length key
                in if i + 2 \<ge> length input \<or> input ! (i + 1) \<noteq> 58 then (- QM_ERROR, None, None)
                   else json_value_at input (i + 2)
           else json_value_loop input key (idx + 1)
      else (- QM_ERROR, None, None))"
  by pat_completeness auto
termination
  by (relation "measure (\<lambda>(input, key, idx). length input - idx)") auto

declare json_value_loop.simps [simp del]

definition qm_json_value :: "u8 list \<Rightarrow> u8 list \<Rightarrow> int \<times> nat option \<times> nat option" where
  "qm_json_value input key = json_value_loop input key 0"

subsection \<open>The formatter\<close>

text \<open>
  \<^verbatim>\<open>buffer\<close> is a zeroed block of \<^verbatim>\<open>buffer_len + 1\<close> bytes and \<open>out\<close> the text it starts with. \<open>Overrun\<close>
  is an access beyond the block or beyond the array \<^verbatim>\<open>src\<close>: a \<^verbatim>\<open>strlen\<close> on a block without a zero, a
  \<^verbatim>\<open>memcpy\<close> that does not fit, a \<^verbatim>\<open>%s\<close> without an argument. The index is a \<^verbatim>\<open>uint8_t\<close>.
\<close>

datatype sprintf_result = Written "u8 list" | Overrun

abbreviation arg_text :: "u8 list option \<Rightarrow> u8 list" where
  "arg_text v \<equiv> (case v of None \<Rightarrow> [] | Some cs \<Rightarrow> cs)"

function sprintf_loop :: "u8 list \<Rightarrow> u8 list option list \<Rightarrow> nat \<Rightarrow> u8 \<Rightarrow> u8 list \<Rightarrow> sprintf_result" where
  "sprintf_loop fmt src buffer_len idx out =
     (if unat idx < length fmt
      then if length out > buffer_len then Overrun
           else if fmt ! unat idx = 37 \<and> unat idx + 1 < length fmt \<and> fmt ! (unat idx + 1) = 115
           then (case src of
                   [] \<Rightarrow> Overrun
                 | v # vs \<Rightarrow>
                     if length out + length (arg_text v) > buffer_len + 1 then Overrun
                     else sprintf_loop fmt vs buffer_len (idx + 2) (out @ arg_text v))
           else sprintf_loop fmt src buffer_len (idx + 1) (out @ [fmt ! unat idx])
      else Written out)"
  by pat_completeness auto
termination
  by (relation "measure (\<lambda>(fmt, src, buffer_len, idx, out). length src + (buffer_len + 1 - length out))") auto

declare sprintf_loop.simps [simp del]

definition qm_utils_sprintf :: "bool \<Rightarrow> u8 list \<Rightarrow> u8 list option list \<Rightarrow> u8 \<Rightarrow> int \<times> sprintf_result option" where
  "qm_utils_sprintf malloc_ok fmt src count =
     (if length fmt < 2 * unat count then (- QM_EINVAL, None)
      else
        let buffer_len = length fmt - 2 * unat count + sum_list (map (\<lambda>v. length (arg_text v)) (take (unat count) src))
        in if \<not> malloc_ok then (- QM_ENOMEM, None)
           else (QM_EOK, Some (sprintf_loop fmt src buffer_len 0 [])))"

section \<open>Digits\<close>

lemma all_nibbles:
  assumes "list_all (\<lambda>k. P (of_nat k)) [0..<16]" "(n :: u8) < 16"
  shows "P n"
proof -
  have "unat n \<in> set [0..<16]" using assms(2) by (simp add: word_less_nat_alt)
  then have "P (of_nat (unat n))" using assms(1) unfolding list_all_iff by blast
  then show ?thesis by simp
qed

lemma hex_digit_table:
  "list_all (\<lambda>k. hex_digit (hex_code 39 (of_nat k)) = Some (of_nat k) \<and> hex_digit (hex_code 7 (of_nat k)) = Some (of_nat k)
    \<and> hex_digit (lower ! unat (of_nat k :: u8)) = Some (of_nat k) \<and> hex_digit (upper ! unat (of_nat k :: u8)) = Some (of_nat k)) [0..<16]"
  by code_simp

lemma hex_digit_code [simp]:
  assumes "n < 16"
  shows "hex_digit (hex_code 39 n) = Some n" "hex_digit (hex_code 7 n) = Some n"
    "hex_digit (lower ! unat n) = Some n" "hex_digit (upper ! unat n) = Some n"
  using all_nibbles [OF hex_digit_table assms] by auto

lemma nibble_less [simp]: "(b :: u8) div 16 < 16" "(b :: u8) mod 16 < 16" 
  using unat_less_u8 [of b] by (simp_all add: word_less_nat_alt unat_div unat_mod less_mult_imp_div_less)

lemma and_15: "(b :: u8) AND 15 = take_bit 4 b"
  by (simp add: take_bit_eq_mask mask_eq_exp_minus_1)

lemma nibble_and [simp]: "(b :: u8) AND 15 < 16"
  unfolding and_15 take_bit_eq_mod using nibble_less(2) [of b] by simp

lemma nibbles_or: "push_bit 4 (drop_bit 4 b AND 15) OR (b AND 15) = (b :: u8)"
  unfolding and_15 by (rule bit_word_eqI) (auto simp: bit_simps)

lemma nibbles_byte: "16 * (b div 16) + b mod 16 = (b :: u8)"
  by (rule mult_div_mod_eq)

section \<open>Hexadecimal text\<close>

lemma hex_pair:
  assumes "hex_digit hi = Some h" "hex_digit lo = Some l"
  shows "hex_str_to_num (hi # lo # s) 2 = Some (16 * ucast h + ucast l)"
  using assms by (simp add: hex_str_to_num_def push_bit_eq_mult eval_nat_numeral)

lemma ucast_nibbles: "ucast (16 * ucast (b div 16) + ucast (b mod 16) :: u32) = (b :: u8)"
proof -
  define m where "m = 16 * unat (b div 16) + unat (b mod 16)"
  have "unat (b div 16) < 16" "unat (b mod 16) < 16"
    using nibble_less [of b] by (simp_all add: word_less_nat_alt)
  then have "m < 2 ^ 32" by (simp add: m_def)
  then have m: "unat (of_nat m :: u32) = m" by (simp add: unat_of_nat)
  have "16 * ucast (b div 16) + ucast (b mod 16) = (of_nat m :: u32)"
    by (simp add: m_def of_nat_unat)
  then have "ucast (16 * ucast (b div 16) + ucast (b mod 16) :: u32) = (of_nat m :: u8)"
    by (subst of_nat_unat [symmetric]) (simp only: m)
  also have "\<dots> = 16 * (b div 16) + b mod 16"
    by (simp add: m_def)
  finally show ?thesis by (simp only: nibbles_byte)
qed

lemma hex_pairs:
  assumes "\<And>b. hex_digit (hi b) = Some (b div 16)" "\<And>b. hex_digit (lo b) = Some (b mod 16)"
  shows "those (map (\<lambda>j. hex_str_to_num (drop (2 * j) (concat (map (\<lambda>b. [hi b, lo b]) bs) @ t)) 2) [0..<length bs]) =
     Some (map (\<lambda>b. 16 * ucast (b div 16) + ucast (b mod 16)) bs)"
proof (induction bs)
  case (Cons b bs)
  have "map f [0..<length (b # bs)] = f 0 # map (\<lambda>j. f (Suc j)) [0..<length bs]" for f :: "nat \<Rightarrow> u32 option"
    by (simp only: length_Cons upt_conv_Cons list.map map_Suc_upt [symmetric] map_map comp_def zero_less_Suc)
  then show ?case using Cons hex_pair [OF assms] by (simp del: upt_Suc drop_append)
qed simp

lemma str2hex_pairs:
  assumes "\<And>b. hex_digit (hi b) = Some (drop_bit 4 b AND 15)" "\<And>b. hex_digit (lo b) = Some (b AND 15)" "length bs \<le> length out"
  shows "str2hex_loop (concat (map (\<lambda>b. [hi b, lo b]) bs)) out = bs @ drop (length bs) out"
  using assms(3)
proof (induction bs arbitrary: out)
  case (Cons b bs)
  then show ?case
    using assms(1,2) nibbles_or [of b] by (cases out) (simp_all add: str2hex_byte_def)
next
  case Nil
  then show ?case by (cases out) simp_all
qed

section \<open>Decimal text\<close>

lemma str2uint_append:
  "str2uint_loop t (xs @ ys) = Option.bind (str2uint_loop t xs) (\<lambda>u. str2uint_loop u ys)"
  by (induction t xs rule: str2uint_loop.induct) auto

lemma digit_char:
  assumes "d < 10"
  shows "\<not> (48 + of_nat d < (48 :: u8))" "\<not> (48 + of_nat d > (57 :: u8))"
    "(ucast (48 + of_nat d :: u8) :: 'a::len word) - 48 = of_nat d"
proof -
  have d: "unat (48 + of_nat d :: u8) = 48 + d"
    using assms unat_of_nat [of "48 + d", where ?'a = 8] by simp
  then show "\<not> (48 + of_nat d < (48 :: u8))" "\<not> (48 + of_nat d > (57 :: u8))"
    using assms by (simp_all add: word_less_nat_alt)
  show "(ucast (48 + of_nat d :: u8) :: 'a word) - 48 = of_nat d"
    by (subst of_nat_unat [symmetric]) (simp add: d)
qed

lemma dec_value: "str2uint_loop (0 :: 'a::len word) (rev (dec_temp n)) = Some (of_nat n)"
proof (induction n rule: dec_temp.induct)
  case (1 n)
  have d: "n mod 10 < 10" by simp
  have "of_nat (n div 10) * 10 + of_nat (n mod 10) = (of_nat n :: 'a word)"
    by (metis div_mult_mod_eq of_nat_add of_nat_mult of_nat_numeral)
  then show ?case
    using 1 digit_char [OF d] by (subst dec_temp.simps) (auto simp: str2uint_append add_diff_eq [symmetric])
qed

lemma dec_temp_length: "n < 10 ^ k \<Longrightarrow> 0 < k \<Longrightarrow> length (dec_temp n) \<le> k"
proof (induction k arbitrary: n)
  case (Suc k)
  then show ?case
    by (subst dec_temp.simps) (cases k; auto simp: less_mult_imp_div_less mult.commute)
qed simp

section \<open>JSON\<close>

lemma scan_until_Some:
  "scan_until stop input idx = Some e \<longleftrightarrow>
     idx \<le> e \<and> e < length input \<and> stop (input ! e) \<and> (\<forall>i. idx \<le> i \<and> i < e \<longrightarrow> \<not> stop (input ! i))"
proof (induction stop input idx rule: scan_until.induct)
  case (1 stop input idx)
  show ?case
  proof (cases "idx < length input \<and> \<not> stop (input ! idx)")
    case True
    then have "scan_until stop input idx = scan_until stop input (idx + 1)"
      by (subst scan_until.simps) simp
    then show ?thesis
      using True 1 by (auto simp: Suc_le_eq) (metis le_neq_implies_less)+
  next
    case False
    then show ?thesis
      by (subst scan_until.simps) (auto simp: not_less intro: le_antisym)
  qed
qed

lemma scan_nested_bound: "scan_nested start stop count input idx = Some e \<Longrightarrow> idx \<le> e \<and> e < length input"
proof (induction start stop count input idx rule: scan_nested.induct)
  case (1 start stop count input idx)
  then show ?case
    by (subst (asm) (4) scan_nested.simps) (fastforce split: if_splits)
qed

lemma json_value_at_inside:
  "json_value_at input idx = (QM_EOK, v, l) \<Longrightarrow> idx < length input \<Longrightarrow>
     \<exists>a n. v = Some a \<and> l = Some n \<and> a + n \<le> length input"
  by (auto simp: json_value_at_def Let_def scan_until_Some errno split: if_splits option.splits dest!: scan_nested_bound)

lemma json_value_loop_inside:
  "json_value_loop input key idx = (QM_EOK, v, l) \<Longrightarrow> \<exists>a n. v = Some a \<and> l = Some n \<and> a + n \<le> length input"
proof (induction input key idx rule: json_value_loop.induct)
  case (1 input key idx)
  show ?case
    using 1 json_value_loop.simps [of input key idx] json_value_at_inside [of input "idx + length key + 2" v l]
    by (auto simp: Let_def errno split: if_splits)
qed

lemma json_value_loop_first:
  assumes "json_match input key k" "idx \<le> k" "\<And>i. idx \<le> i \<Longrightarrow> i < k \<Longrightarrow> \<not> json_match input key i"
    "k + length key + 2 < length input" "input ! (k + length key + 1) = 58"
  shows "json_value_loop input key idx = json_value_at input (k + length key + 2)"
  using assms(2,3)
proof (induction "k - idx" arbitrary: idx)
  case 0
  then have "idx = k" by simp
  then show ?case
    using assms(1,4,5) by (subst json_value_loop.simps) (simp add: Let_def)
next
  case (Suc d)
  then have "json_value_loop input key idx = json_value_loop input key (idx + 1)"
    using assms(4) by (subst json_value_loop.simps) simp
  then show ?case using Suc by simp
qed

section \<open>The formatter\<close>

text \<open>The reference: every \<^verbatim>\<open>%s\<close> replaced by the next argument, and the number of them.\<close>

fun subst_args :: "u8 list \<Rightarrow> u8 list option list \<Rightarrow> u8 list" where
  "subst_args [] vs = []"
| "subst_args (c # f) vs =
     (if c = 37 \<and> f \<noteq> [] \<and> hd f = 115 then arg_text (hd vs) @ subst_args (tl f) (tl vs) else c # subst_args f vs)"

fun placeholders :: "u8 list \<Rightarrow> nat" where
  "placeholders [] = 0"
| "placeholders (c # f) = (if c = 37 \<and> f \<noteq> [] \<and> hd f = 115 then Suc (placeholders (tl f)) else placeholders f)"

lemma subst_args_length:
  "placeholders f = length vs \<Longrightarrow>
     length (subst_args f vs) + 2 * length vs = length f + sum_list (map (\<lambda>v. length (arg_text v)) vs)"
proof (induction f vs rule: subst_args.induct)
  case (2 c f vs)
  show ?case
  proof (cases "c = 37 \<and> f \<noteq> [] \<and> hd f = 115")
    case True
    then obtain v ws g where "vs = v # ws" "f = 115 # g"
      using 2(3) by (cases vs; cases f) auto
    then show ?thesis using 2 True by simp
  qed (use 2 in \<open>auto\<close>)
qed simp

lemma sprintf_loop_subst:
  assumes "length fmt < 256" "unat idx \<le> length fmt" "placeholders (drop (unat idx) fmt) = length src"
    "length out + length (subst_args (drop (unat idx) fmt) src) = buffer_len"
  shows "sprintf_loop fmt src buffer_len idx out = Written (out @ subst_args (drop (unat idx) fmt) src)"
  using assms
proof (induction fmt src buffer_len idx out rule: sprintf_loop.induct)
  case (1 fmt src buffer_len idx out)
  show ?case
  proof (cases "unat idx < length fmt")
    case True
    define f where "f = drop (Suc (unat idx)) fmt"
    have f: "drop (unat idx) fmt = fmt ! unat idx # f"
      using True by (simp add: f_def Cons_nth_drop_Suc)
    have test: "(f \<noteq> [] \<and> hd f = 115) = (unat idx + 1 < length fmt \<and> fmt ! (unat idx + 1) = 115)"
      by (auto simp: f_def hd_drop_conv_nth)
    have step: "unat (idx + 1) = unat idx + 1" "unat idx + 2 \<le> length fmt \<Longrightarrow> unat (idx + 2) = unat idx + 2"
      using True 1(3) by (simp_all add: unat_word_ariths)
    show ?thesis
    proof (cases "fmt ! unat idx = 37 \<and> unat idx + 1 < length fmt \<and> fmt ! (unat idx + 1) = 115")
      case arg: True
      then obtain v vs where src: "src = v # vs"
        using 1(5) test by (cases src) (auto simp: f)
      have "tl f = drop (unat (idx + 2)) fmt"
        using step(2) arg by (simp add: f_def tl_drop drop_Suc)
      then have "sprintf_loop fmt vs buffer_len (idx + 2) (out @ arg_text v) =
          Written ((out @ arg_text v) @ subst_args (tl f) vs)"
        using 1(1) [OF True _ arg src] 1(3-6) step arg test src by (simp add: f)
      then show ?thesis
        using arg True src test 1(6) by (subst sprintf_loop.simps) (simp add: f)
    next
      case False
      have "sprintf_loop fmt src buffer_len (idx + 1) (out @ [fmt ! unat idx]) =
          Written ((out @ [fmt ! unat idx]) @ subst_args f src)"
        using 1(2) [OF True _ False] 1(3-6) step True test False by (auto simp: f f_def)
      then show ?thesis
        using False True test 1(6) by (subst sprintf_loop.simps) (auto simp: f)
    qed
  next
    case False
    then show ?thesis by (subst sprintf_loop.simps) simp
  qed
qed

lemma sprintf_loop_long:
  "256 \<le> length fmt \<Longrightarrow> sprintf_loop fmt src buffer_len idx out = Overrun"
proof (induction fmt src buffer_len idx out rule: sprintf_loop.induct)
  case (1 fmt src buffer_len idx out)
  then have "unat idx < length fmt" using unat_less_u8 [of idx] by linarith
  then show ?case
    using 1 by (subst sprintf_loop.simps) (auto split: list.split)
qed

section \<open>Properties\<close>

text \<open>Decimal text: what \<^verbatim>\<open>qm_uint2str\<close> and \<^verbatim>\<open>qm_uint642str\<close> write is read back by
  \<^verbatim>\<open>qm_str2uint\<close> and \<^verbatim>\<open>qm_str2uint64\<close>, and the digits fit the local array \<^verbatim>\<open>temp\<close> of 10 and 20 bytes.\<close>

theorem uint_text_roundtrip:
  "qm_str2uint (fst (snd (qm_uint2str w))) = (QM_EOK, Some w) \<and> length (fst (snd (qm_uint2str w))) \<le> 10
   \<and> qm_str2uint64 (fst (snd (qm_uint642str x))) = (QM_EOK, Some x) \<and> length (fst (snd (qm_uint642str x))) \<le> 20"
  using dec_value [where ?'a = 32] dec_value [where ?'a = 64] dec_temp_length [of "unat w" 10] dec_temp_length [of "unat x" 20]
    unat_less_u32 [of w] unsigned_less [of x, where ?'a = nat]
  by (simp add: qm_str2uint_def qm_uint2str_def qm_str2uint64_def qm_uint642str_def Let_def)



text \<open>C35: A string member of a JSON text: when no earlier place of the text has the quoted key, \<^verbatim>\<open>qm_json_value\<close>
  returns the offset and the length of the text between the quotes after \<^verbatim>\<open>"key":\<close>.\<close>

theorem json_value_string:
  assumes "input = pre @ 34 # key @ [34, 58, 34] @ val @ 34 # post" "34 \<notin> set val"
    "\<forall>i\<le>length pre. \<not> json_match input key i"
  shows "qm_json_value input key = (QM_EOK, Some (length pre + length key + 4), Some (length val))"
proof -
  let ?k = "length pre + 1" and ?v = "length pre + length key + 4"
  have at: "input ! (length pre + length key + 1) = 34" "input ! (length pre + length key + 2) = 58"
    "input ! (length pre + length key + 3) = 34" "input ! (?v + length val) = 34"
    and val: "\<And>i. i < length val \<Longrightarrow> input ! (?v + i) = val ! i"
    by (simp_all add: assms(1) nth_append eval_nat_numeral)
  have "json_match input key ?k"
    using at(1) by (simp add: json_match_def assms(1) nth_append)
  then have "qm_json_value input key = json_value_at input (?k + length key + 2)"
    unfolding qm_json_value_def
    using assms(3) at(2) by (intro json_value_loop_first) (auto simp: assms(1) add.commute)
  moreover have "scan_until (\<lambda>c. c = 34) input ?v = Some (?v + length val)"
  proof -
    have "input ! i \<noteq> 34" if "?v \<le> i" "i < ?v + length val" for i
    proof -
      have "i - ?v < length val" using that by linarith
      then have "input ! i \<in> set val" using val [of "i - ?v"] nth_mem [of "i - ?v" val] le_add_diff_inverse [OF that(1)] by metis
      then show ?thesis using assms(2) by metis
    qed
    then show ?thesis
      using at(4) by (auto simp: scan_until_Some assms(1))
  qed
  ultimately show ?thesis
    using at(3) by (simp add: json_value_at_def Let_def eval_nat_numeral)
qed

theorem json_value_string_witness:
  "qm_json_value [123, 34, 97, 34, 58, 34, 104, 105, 34, 125] [97] = (QM_EOK, Some 6, Some 2)"
proof -
  have "\<forall>i\<le>length [123 :: u8]. \<not> json_match [123, 34, 97, 34, 58, 34, 104, 105, 34, 125] [97] i"
    by (auto simp: json_match_def le_Suc_eq)
  then show ?thesis
    using json_value_string [of "[123, 34, 97, 34, 58, 34, 104, 105, 34, 125]" "[123]" "[97]" "[104, 105]" "[125]"] by simp
qed

text \<open>A value found by \<^verbatim>\<open>qm_json_value\<close> lies inside the text: whenever it returns \<^verbatim>\<open>QM_EOK\<close> both outputs are
  set, and the offset plus the length does not exceed the length of the text.\<close>

theorem json_value_inside:
  assumes "qm_json_value input key = (QM_EOK, v, l)"
  shows "\<exists>a n. v = Some a \<and> l = Some n \<and> a + n \<le> length input"
  using assms json_value_loop_inside unfolding qm_json_value_def by blast

theorem json_value_inside_witness:
  "qm_json_value [123, 34, 97, 34, 58, 49, 125] [97] = (QM_EOK, Some 5, Some 1)
   \<and> (\<exists>a n. Some 5 = Some a \<and> Some 1 = Some n \<and> a + n \<le> (7 :: nat))"
proof -
  have "qm_json_value [123, 34, 97, 34, 58, 49, 125] [97] = (QM_EOK, Some 5, Some 1)"
    by code_simp
  then show ?thesis using json_value_inside by fastforce
qed



text \<open>The formatter's index is a \<^verbatim>\<open>uint8_t\<close>: with a format of 256 characters or more the loop never reaches the
  end of the format and runs over the end of its buffer.\<close>

theorem sprintf_long_format:
  assumes "256 \<le> length fmt" "2 * unat count \<le> length fmt"
  shows "qm_utils_sprintf True fmt src count = (QM_EOK, Some Overrun)"
  using assms sprintf_loop_long by (simp add: qm_utils_sprintf_def Let_def)

theorem sprintf_long_format_witness:
  "qm_utils_sprintf True (replicate 256 97) [] 0 = (QM_EOK, Some Overrun)"
  using sprintf_long_format [of "replicate 256 97" 0 "[]"] by simp

end
