(* ===== verification/Hmac_Totp.thy ===== *)
theory Hmac_Totp
  imports Sha1 Md5 String_Utils
begin

text \<open>
  Keyed hashing of \<^verbatim>\<open>utility/hmac/qm_utils_hmac.c\<close> and the one-time passwords of
  \<^verbatim>\<open>utility/totp/totp.c\<close> on top of it, in the default configuration of \<^verbatim>\<open>totp.h\<close>: six digits and eight
  keys in a set. The reference is HMAC of RFC 2104 over the digests of \<open>Sha1\<close> and \<open>Md5\<close> and the dynamic
  truncation of RFC 4226. A length argument is the length of the list it comes with.
\<close>

section \<open>HMAC\<close>

definition KEY_IOPAD_SIZE :: nat where
  "KEY_IOPAD_SIZE = 64"

text \<open>A pad: the key in a zeroed array, every byte of it XORed.\<close>

definition key_pad :: "u8 \<Rightarrow> u8 list \<Rightarrow> u8 list" where
  "key_pad x key = map (\<lambda>b. b XOR x) (put_bytes (replicate KEY_IOPAD_SIZE 0) 0 key)"

definition hmac_hex :: "u8 list \<Rightarrow> u8 list" where
  "hmac_hex out = concat (map (\<lambda>b. [qm_utils_hb2hex (drop_bit 4 b), qm_utils_hb2hex b]) out)"

definition qm_utils_hmac_md5 :: "u8 list option \<Rightarrow> bool \<Rightarrow> u8 list option \<Rightarrow> int \<times> u8 list" where
  "qm_utils_hmac_md5 msg digest_nonnull key =
     (case (msg, digest_nonnull, key) of
        (Some m, True, Some k) \<Rightarrow>
          if length k > KEY_IOPAD_SIZE then (- QM_EINVAL, [])
          else
            let k_ipad = key_pad 0x36 k;
                k_opad = key_pad 0x5c k;
                c1 = qm_utils_md5_update (qm_utils_md5_starts qm_utils_md5_init) k_ipad;
                c2 = qm_utils_md5_update c1 m;
                out = fst (qm_utils_md5_finish c2);
                c3 = qm_utils_md5_update (qm_utils_md5_starts qm_utils_md5_init) k_opad;
                c4 = qm_utils_md5_update c3 out
            in (QM_EOK, hmac_hex (fst (qm_utils_md5_finish c4)))
      | _ \<Rightarrow> (- QM_EINVAL, []))"

definition qm_utils_hmac_sha1 :: "u8 list option \<Rightarrow> bool \<Rightarrow> u8 list option \<Rightarrow> int \<times> u8 list" where
  "qm_utils_hmac_sha1 msg digest_nonnull key =
     (case (msg, digest_nonnull, key) of
        (Some m, True, Some k) \<Rightarrow>
          if length k > KEY_IOPAD_SIZE then (- QM_EINVAL, [])
          else
            let k_ipad = key_pad 0x36 k;
                k_opad = key_pad 0x5c k;
                c1 = qm_utils_sha1_update (qm_utils_sha1_starts qm_utils_sha1_init) k_ipad;
                c2 = qm_utils_sha1_update c1 m;
                out = fst (qm_utils_sha1_finish c2);
                c3 = qm_utils_sha1_update (qm_utils_sha1_starts qm_utils_sha1_init) k_opad;
                c4 = qm_utils_sha1_update c3 out
            in (QM_EOK, hmac_hex (fst (qm_utils_sha1_finish c4)))
      | _ \<Rightarrow> (- QM_EINVAL, []))"

section \<open>One-time passwords\<close>

definition CONFIG_TOTP_KEY_SETS :: nat where
  "CONFIG_TOTP_KEY_SETS = 8"

definition CONFIG_TOTP_DIGITS :: int where
  "CONFIG_TOTP_DIGITS = 1000000"

definition TOTP_TIME_PADDED :: nat where
  "TOTP_TIME_PADDED = 8"

definition TOTP_REFRESH_MIN_INTERVAL :: u32 where
  "TOTP_REFRESH_MIN_INTERVAL = 600"

definition TOTP_REFRESH_MAX_INTERVAL :: u32 where
  "TOTP_REFRESH_MAX_INTERVAL = 3600"

fun pad_time :: "nat \<Rightarrow> u32 \<Rightarrow> u8 list \<Rightarrow> u8 list" where
  "pad_time 0 ctime time_padded = time_padded"
| "pad_time (Suc i) ctime time_padded = pad_time i (drop_bit 8 ctime) (time_padded[i := ucast ctime])"

text \<open>The dynamic truncation; the shifts and the disjunctions are those of a non-negative \<^verbatim>\<open>int\<close>.\<close>

definition truncate_hmac :: "u8 list \<Rightarrow> int" where
  "truncate_hmac hmac =
     (let offset = unat (hmac ! (20 - 1) AND 0xF);
          result = push_bit 24 (uint (hmac ! (offset + 0) AND 0x7F))
                   OR push_bit 16 (uint (hmac ! (offset + 1) AND 0xFF))
                   OR push_bit 8 (uint (hmac ! (offset + 2) AND 0xFF))
                   OR uint (hmac ! (offset + 3) AND 0xFF)
      in (result AND 0x7FFFFFFF) mod CONFIG_TOTP_DIGITS)"

definition totp_get_key :: "u8 list option \<Rightarrow> u32 \<Rightarrow> bool \<Rightarrow> int \<times> u32 option" where
  "totp_get_key secret timestamp key_nonnull =
     (if secret = None \<or> secret = Some [] \<or> timestamp = 0 \<or> \<not> key_nonnull then (- QM_EINVAL, None)
      else
        let time_padded = pad_time TOTP_TIME_PADDED timestamp (replicate TOTP_TIME_PADDED 0);
            (ret, digest) = qm_utils_hmac_sha1 (Some time_padded) True secret
        in if ret \<noteq> QM_EOK then (ret, None)
           else
             let str_hmac = put_bytes (replicate 41 0) 0 digest;
                 hmac = (case hex_str_to_nums (Some str_hmac) 40 True of Some (_, nums) \<Rightarrow> nums | None \<Rightarrow> [])
             in (QM_EOK, Some (word_of_int (truncate_hmac hmac))))"

text \<open>One set of keys: a call that fails leaves its element, and its error is dropped.\<close>

fun totp_set :: "u8 list option \<Rightarrow> u32 \<Rightarrow> u32 \<Rightarrow> nat \<Rightarrow> u32 list \<Rightarrow> u32 list" where
  "totp_set secret interval ctime 0 keys = []"
| "totp_set secret interval ctime (Suc n) keys =
     (case totp_get_key secret ctime True of (_, Some k) \<Rightarrow> k | (_, None) \<Rightarrow> hd keys)
       # totp_set secret interval (ctime + interval) n (tl keys)"

definition totp_get_keys ::
  "u32 \<Rightarrow> u8 list option \<Rightarrow> u32 \<Rightarrow> u32 list option \<Rightarrow> u32 list option \<Rightarrow> int \<times> u32 list option \<times> u32 list option" where
  "totp_get_keys refresh_interval secret timestamp p_totp p_last_totp =
     (if refresh_interval < TOTP_REFRESH_MIN_INTERVAL \<or> refresh_interval > TOTP_REFRESH_MAX_INTERVAL
      then (- QM_EINVAL, p_totp, p_last_totp)
      else if secret = None \<or> secret = Some [] then (- QM_EINVAL, p_totp, p_last_totp)
      else
        case (p_totp, p_last_totp) of
          (Some keys, Some last_keys) \<Rightarrow>
            let ctime = timestamp - timestamp mod refresh_interval;
                last_ctime = ctime - refresh_interval;
                interval = refresh_interval div of_nat CONFIG_TOTP_KEY_SETS
            in (QM_EOK, Some (totp_set secret interval ctime CONFIG_TOTP_KEY_SETS keys),
                Some (totp_set secret interval last_ctime CONFIG_TOTP_KEY_SETS last_keys))
        | _ \<Rightarrow> (- QM_EINVAL, p_totp, p_last_totp))"

section \<open>The references\<close>

definition hmac_ref :: "(u8 list \<Rightarrow> u8 list) \<Rightarrow> u8 list \<Rightarrow> u8 list \<Rightarrow> u8 list" where
  "hmac_ref H key msg =
     (let k0 = key @ replicate (64 - length key) 0
      in H (map (\<lambda>b. b XOR 0x5c) k0 @ H (map (\<lambda>b. b XOR 0x36) k0 @ msg)))"

text \<open>HOTP of RFC 4226 with six digits: four bytes at the offset of the last nibble, without the sign bit.\<close>

definition hotp_ref :: "u8 list \<Rightarrow> nat \<Rightarrow> nat" where
  "hotp_ref key counter =
     (let h = hmac_ref sha1_digest key (be64_bytes counter);
          o4 = unat (h ! 19) mod 16;
          s = unat (h ! o4) * 2 ^ 24 + unat (h ! (o4 + 1)) * 2 ^ 16 + unat (h ! (o4 + 2)) * 2 ^ 8 + unat (h ! (o4 + 3))
      in s mod 2 ^ 31 mod 10 ^ 6)"

section \<open>HMAC is RFC 2104\<close>

lemma key_pad_ref: "length key \<le> 64 \<Longrightarrow> key_pad x key = map (\<lambda>b. b XOR x) (key @ replicate (64 - length key) 0)"
  by (simp add: key_pad_def put_bytes_def KEY_IOPAD_SIZE_def)

lemma and_15_mod: "(b :: u8) AND 15 = b mod 16"
  by (simp add: and_15 take_bit_eq_mod)

lemma hb2hex_table: "list_all (\<lambda>k. hex_digit (qm_utils_hb2hex (of_nat k)) = Some (of_nat k)) [0..<16]"
  by code_simp

lemma hex_digit_hb2hex: "hex_digit (qm_utils_hb2hex b) = Some (b mod 16)"
proof -
  have "qm_utils_hb2hex (b mod 16) = qm_utils_hb2hex b"
    by (simp add: qm_utils_hb2hex_def and_15_mod mod_word_less)
  then show ?thesis
    using all_nibbles [OF hb2hex_table nibble_less(2) [of b]] by simp
qed

lemma hmac_hex_nums:
  assumes "length out = 20"
  shows "hex_str_to_nums (Some (put_bytes (replicate 41 0) 0 (hmac_hex out))) 40 True = Some (0, out)"
proof -
  have hi: "hex_digit (qm_utils_hb2hex (drop_bit 4 b)) = Some (b div 16)" for b
    using hex_digit_hb2hex [of "drop_bit 4 b"] nibble_less(1) [of b]
    by (simp add: drop_bit_eq_div mod_word_less)
  have "length (concat (map (\<lambda>b. [h b, l b]) bs)) = 2 * length bs" for h l :: "u8 \<Rightarrow> u8" and bs
    by (induction bs) simp_all
  then have "put_bytes (replicate 41 0) 0 (hmac_hex out) = hmac_hex out @ [0]"
    using assms by (simp add: put_bytes_def hmac_hex_def)
  then show ?thesis
    using hex_pairs [OF hi hex_digit_hb2hex, of out "[0]"] assms
    by (simp add: hex_str_to_nums_def hmac_hex_def ucast_nibbles comp_def del: drop_append)
qed

lemma hmac_sha1_ref:
  assumes "length key \<le> 64" "length msg < 2 ^ 32"
  shows "qm_utils_hmac_sha1 (Some msg) True (Some key) = (QM_EOK, hmac_hex (hmac_ref sha1_digest key msg))"
  using assms sha1.two_passes [of "key_pad 0x36 key" "key_pad 0x5c key" msg]
  by (simp add: qm_utils_hmac_sha1_def hmac_ref_def key_pad_ref KEY_IOPAD_SIZE_def Let_def)

lemma hmac_md5_ref:
  assumes "length key \<le> 64" "length msg < 2 ^ 32"
  shows "qm_utils_hmac_md5 (Some msg) True (Some key) = (QM_EOK, hmac_hex (hmac_ref md5_digest key msg))"
  using assms md5.two_passes [of "key_pad 0x36 key" "key_pad 0x5c key" msg]
  by (simp add: qm_utils_hmac_md5_def hmac_ref_def key_pad_ref KEY_IOPAD_SIZE_def Let_def)

section \<open>Passwords are HOTP values\<close>

lemma pad_time_bytes:
  "n \<le> length xs \<Longrightarrow> pad_time n t xs = map (\<lambda>i. ucast (drop_bit (8 * i) t)) (rev [0..<n]) @ drop n xs"
proof (induction n arbitrary: t xs)
  case (Suc n)
  have "rev [0..<Suc n] = map Suc (rev [0..<n]) @ [0]"
    by (simp only: upt_conv_Cons map_Suc_upt [symmetric] zero_less_Suc rev.simps rev_map)
  moreover have "drop n (xs[n := ucast t]) = ucast t # drop (Suc n) xs"
    using Suc(2) by (simp add: drop_update_swap Cons_nth_drop_Suc [symmetric])
  ultimately show ?case
    using Suc by (simp add: comp_def add.commute del: upt_Suc)
qed simp

lemma pad_time_be: "pad_time TOTP_TIME_PADDED t (replicate TOTP_TIME_PADDED 0) = be64_bytes (unat t)"
proof -
  have "(ucast (drop_bit k t) :: u8) = of_nat (unat t div 2 ^ k)" for k
    by (subst of_nat_unat [symmetric]) (simp only: unat_drop_bit_eq drop_bit_eq_div [of k "unat t"])
  then have "(ucast (drop_bit (8 * i) t) :: u8) = of_nat (unat t div 256 ^ i)" for i
    by (simp add: power_mult)
  then show ?thesis
    by (simp add: TOTP_TIME_PADDED_def pad_time_bytes be64_bytes_def) (rule nth_equalityI; simp add: rev_nth)
qed

lemma push_byte: "0 \<le> d \<Longrightarrow> d < 256 \<Longrightarrow> push_bit 8 x OR d = 256 * x + (d :: int)"
  using concat_bit_eq [of 8 d x] concat_bit_def [of 8 d x] by (simp add: take_bit_int_eq_self push_bit_eq_mult or.commute)

lemma and_mask_mod: "x AND 0x7FFFFFFF = x mod 2 ^ 31" for x :: int
  using take_bit_eq_mask [of 31 x] take_bit_eq_mod [of 31 x] by (simp add: mask_eq_exp_minus_1)

lemma uint_and_byte: "uint (x AND 0xFF) = int (unat (x :: u8))" "uint (x AND 0x7F) = int (unat x mod 128)"
proof -
  have "(0xFF :: u8) = - 1" by simp
  then have "x AND 0xFF = x" by (simp only: and.right_neutral)
  then show "uint (x AND 0xFF) = int (unat x)" by (simp add: of_nat_unat)
  have "uint (x AND 0x7F) = uint x mod 128"
    using unsigned_take_bit_eq [of 7 x, where ?'a = int] take_bit_eq_mask [of 7 x] take_bit_eq_mod [of 7 "uint x"]
    by (simp add: mask_eq_exp_minus_1)
  then show "uint (x AND 0x7F) = int (unat x mod 128)" by (simp add: zmod_int of_nat_unat)
qed

lemma or_bytes:
  fixes a b c d :: int
  assumes "0 \<le> b" "b < 256" "0 \<le> c" "c < 256" "0 \<le> d" "d < 256"
  shows "push_bit 24 a OR push_bit 16 b OR push_bit 8 c OR d = 256 * (256 * (256 * a + b) + c) + d"
proof -
  have "push_bit 24 a OR push_bit 16 b OR push_bit 8 c OR d = push_bit 8 (push_bit 8 (push_bit 8 a OR b) OR c) OR d"
    by (simp add: push_bit_or or.assoc)
  then show ?thesis using assms by (simp only: push_byte)
qed

lemma seven_bits:
  fixes a b c d :: nat
  assumes "b < 256" "c < 256" "d < 256"
  shows "(a * 2 ^ 24 + b * 2 ^ 16 + c * 2 ^ 8 + d) mod 2 ^ 31 = 256 * (256 * (256 * (a mod 128) + b) + c) + d"
proof -
  let ?x = "256 * (256 * (256 * (a mod 128) + b) + c) + d"
  have step: "256 * x + y < 256 * n" if "x < n" "y < 256" for x y n :: nat
    using that mult_le_mono2 [of "Suc x" n 256] by simp
  have "?x < 256 * (256 * (256 * 128))"
    using assms by (intro step) simp_all
  then have "?x < 2 ^ 31" by simp
  moreover have "a * 2 ^ 24 + b * 2 ^ 16 + c * 2 ^ 8 + d = (a div 128) * 2 ^ 31 + ?x"
    by simp (use div_mult_mod_eq [of a 128] in linarith)
  ultimately show ?thesis by (simp only: mod_mult_self3 mod_less)
qed
lemma truncate_hmac_ref:
  "truncate_hmac h =
     int ((let o4 = unat (h ! 19) mod 16
           in unat (h ! o4) * 2 ^ 24 + unat (h ! (o4 + 1)) * 2 ^ 16 + unat (h ! (o4 + 2)) * 2 ^ 8 + unat (h ! (o4 + 3)))
          mod 2 ^ 31 mod 10 ^ 6)"
proof -
  define o4 where "o4 = unat (h ! 19) mod 16"
  have o4: "unat (h ! (20 - 1) AND 0xF) = o4"
    by (simp add: and_15_mod o4_def unat_mod)
  define x where "x = 256 * (256 * (256 * (unat (h ! o4) mod 128) + unat (h ! (o4 + 1))) + unat (h ! (o4 + 2))) + unat (h ! (o4 + 3))"
  have x: "(unat (h ! o4) * 2 ^ 24 + unat (h ! (o4 + 1)) * 2 ^ 16 + unat (h ! (o4 + 2)) * 2 ^ 8 + unat (h ! (o4 + 3))) mod 2 ^ 31 = x"
    unfolding x_def by (rule seven_bits) (rule unat_less_u8)+
  have "x < 2 ^ 31" unfolding x [symmetric] by simp
  then have "int x mod 2 ^ 31 = int x" by simp
  moreover have "push_bit 24 (int (unat (h ! (o4 + 0)) mod 128)) OR push_bit 16 (int (unat (h ! (o4 + 1))))
      OR push_bit 8 (int (unat (h ! (o4 + 2)))) OR int (unat (h ! (o4 + 3))) = int x"
    using unat_less_u8 by (subst or_bytes) (simp_all add: x_def zmod_int)
  ultimately have "truncate_hmac h = int x mod 1000000"
    unfolding truncate_hmac_def Let_def o4 uint_and_byte and_mask_mod CONFIG_TOTP_DIGITS_def by (simp add: zmod_int)
  then show ?thesis
    unfolding Let_def o4_def [symmetric] x by (simp add: zmod_int)
qed

lemma totp_get_key_hotp:
  assumes "secret \<noteq> []" "length secret \<le> 64" "timestamp \<noteq> 0"
  shows "totp_get_key (Some secret) timestamp True = (QM_EOK, Some (of_nat (hotp_ref secret (unat timestamp))))"
proof -
  have len: "length (be64_bytes n) = 8" for n
    by (simp add: be64_bytes_def)
  have "length (hmac_ref sha1_digest secret m) = 20" for m
    by (simp add: hmac_ref_def Let_def)
  then show ?thesis
    using assms
    by (simp add: totp_get_key_def pad_time_be hmac_sha1_ref len hmac_hex_nums truncate_hmac_ref hotp_ref_def Let_def)
qed

lemma hotp_ref_digits: "hotp_ref key counter < 10 ^ 6"
  by (simp add: hotp_ref_def Let_def)

lemma totp_set_failing:
  "length secret > 64 \<Longrightarrow> length keys = n \<Longrightarrow> totp_set (Some secret) interval ctime n keys = keys"
proof (induction n arbitrary: ctime keys)
  case (Suc n)
  have "qm_utils_hmac_sha1 (Some m) True (Some secret) = (- QM_EINVAL, [])" for m
    using Suc(2) by (simp add: qm_utils_hmac_sha1_def KEY_IOPAD_SIZE_def)
  then have "totp_get_key (Some secret) ctime True = (- QM_EINVAL, None)"
    by (simp add: totp_get_key_def errno Let_def)
  then show ?case
    using Suc by (cases keys) simp_all
qed simp

lemma window_shift:
  fixes t r :: u32
  assumes "r \<noteq> 0" "r \<le> t"
  shows "(t - r) - (t - r) mod r = t - t mod r - r"
proof -
  have "unat ((t - r) mod r) = unat (t mod r)"
    using assms by (simp add: unat_mod unat_sub word_le_nat_alt le_mod_geq)
  then have "(t - r) mod r = t mod r" by (simp only: word_unat_eq_iff)
  then show ?thesis by (simp only: diff_right_commute)
qed

lemma in_range:
  assumes "600 \<le> refresh" "refresh \<le> 3600"
  shows "\<not> refresh < TOTP_REFRESH_MIN_INTERVAL" "\<not> refresh > TOTP_REFRESH_MAX_INTERVAL"
  using assms by (simp_all add: TOTP_REFRESH_MIN_INTERVAL_def TOTP_REFRESH_MAX_INTERVAL_def not_less)

section \<open>Properties\<close>



text \<open>C6: One-time password: with a secret of 1 to 64 bytes and a non-zero time, \<^verbatim>\<open>totp_get_key\<close> returns the
  six-digit HOTP value of RFC 4226 for the time as the counter.\<close>

theorem totp_key_is_hotp:
  assumes "secret \<noteq> []" "length secret \<le> 64" "timestamp \<noteq> 0"
  shows "totp_get_key (Some secret) timestamp True = (QM_EOK, Some (of_nat (hotp_ref secret (unat timestamp))))
    \<and> hotp_ref secret (unat timestamp) < 10 ^ 6"
  using totp_get_key_hotp [OF assms] hotp_ref_digits by blast

theorem totp_key_is_hotp_witness:
  "totp_get_key (Some [1, 2, 3]) 600 True = (QM_EOK, Some (of_nat (hotp_ref [1, 2, 3] 600))) \<and> hotp_ref [1, 2, 3] 600 < 10 ^ 6"
  using totp_key_is_hotp [of "[1, 2, 3]" 600] by simp

text \<open>C27: The previous passwords: the second set that \<^verbatim>\<open>totp_get_keys\<close> computes at a time is the first set it
  computes one refresh interval earlier, so a password stays valid for one more window.\<close>

theorem totp_last_set_is_previous:
  assumes "600 \<le> refresh" "refresh \<le> 3600" "refresh \<le> timestamp" "secret \<noteq> []"
  shows "snd (snd (totp_get_keys refresh (Some secret) timestamp (Some keys) (Some last_keys))) =
           fst (snd (totp_get_keys refresh (Some secret) (timestamp - refresh) (Some last_keys) (Some other)))"
proof -
  have "refresh \<noteq> 0" using assms(1) by auto
  then have eq: "timestamp - refresh - (timestamp - refresh) mod refresh = timestamp - timestamp mod refresh - refresh"
    using assms(3) by (rule window_shift)
  show ?thesis
    unfolding totp_get_keys_def Let_def eq using in_range [OF assms(1,2)] assms(4) by simp
qed

theorem totp_last_set_is_previous_witness:
  "snd (snd (totp_get_keys 600 (Some [9]) 100000 (Some []) (Some (replicate 8 0)))) =
     fst (snd (totp_get_keys 600 (Some [9]) 99400 (Some (replicate 8 0)) (Some [])))"
  using totp_last_set_is_previous [of 600 100000 "[9]" "[]" "replicate 8 0" "[]"] by simp

text \<open>A secret that is too long: \<^verbatim>\<open>totp_get_keys\<close> drops the errors of its calls and returns \<^verbatim>\<open>QM_EOK\<close> with
  both sets of passwords as they were.\<close>

theorem totp_keys_drop_errors:
  assumes "600 \<le> refresh" "refresh \<le> 3600" "64 < length secret" "length keys = 8" "length last_keys = 8"
  shows "totp_get_keys refresh (Some secret) timestamp (Some keys) (Some last_keys) = (QM_EOK, Some keys, Some last_keys)"
  using assms(3-5) in_range [OF assms(1,2)]
  by (auto simp: totp_get_keys_def CONFIG_TOTP_KEY_SETS_def totp_set_failing Let_def)

theorem totp_keys_drop_errors_witness:
  "totp_get_keys 600 (Some (replicate 65 1)) 100000 (Some (replicate 8 5)) (Some (replicate 8 6)) =
     (QM_EOK, Some (replicate 8 5), Some (replicate 8 6))"
  using totp_keys_drop_errors [of 600 "replicate 65 1" "replicate 8 5" "replicate 8 6" 100000] by simp

end
