(* ===== verification/Multi_Button.thy ===== *)
theory Multi_Button
  imports QM_Prelude
begin

text \<open>
  The button driver of \<^verbatim>\<open>components/multi_button/multi_button.c\<close>: the debouncing of the pin, the state machine
  that turns presses into events, and the work list of started buttons.

  The bit fields of \<^verbatim>\<open>multi_button_t\<close> keep their widths. The timing constants of the header are the record
  \<open>button_cfg\<close>, with the defaults as \<open>default_cfg\<close>. A pin function is named by a number and read through an
  environment; a callback is named by a number, and its call is an entry of the log with the event. Callbacks
  are taken not to write the handle. The handles live in a heap indexed by their address, and the work list is
  the chain of their \<^verbatim>\<open>next\<close> pointers.
\<close>

section \<open>Data\<close>

datatype press_event_t =
    PRESS_EVENT_NONE | PRESS_EVENT_DOWN | PRESS_EVENT_UP | PRESS_EVENT_REPEAT | PRESS_EVENT_SINGLE_CLICK
  | PRESS_EVENT_DOUBLE_CLICK | PRESS_EVENT_LONG_START | PRESS_EVENT_LONG_HOLD | PRESS_EVENT_MAX

record multi_button_t =
  ticks :: u16
  repeat_cnt :: "4 word"
  event :: press_event_t
  state :: "3 word"
  debounce_cnt :: "3 word"
  active_level :: "1 word"
  button_level :: "1 word"
  pin_level_get :: nat
  cb :: "press_event_t \<Rightarrow> nat option"
  next_handle :: "nat option"

record button_cfg =
  debounce_ticks :: nat
  short_ticks :: nat
  long_ticks :: nat

definition default_cfg :: button_cfg where
  "default_cfg = \<lparr>debounce_ticks = 1, short_ticks = 200 div 20, long_ticks = 1000 div 20\<rparr>"

type_synonym button_log = "(nat \<times> press_event_t) list"

section \<open>A handle\<close>

definition multi_button_init :: "(nat \<Rightarrow> u8) \<Rightarrow> nat \<Rightarrow> u8 \<Rightarrow> multi_button_t" where
  "multi_button_init pins fn active =
     \<lparr>ticks = 0, repeat_cnt = 0, event = PRESS_EVENT_NONE, state = 0, debounce_cnt = 0, active_level = ucast active,
      button_level = ucast (pins fn), pin_level_get = fn, cb = (\<lambda>_. None), next_handle = None\<rparr>"

definition multi_button_attach :: "multi_button_t \<Rightarrow> press_event_t \<Rightarrow> nat option \<Rightarrow> multi_button_t" where
  "multi_button_attach handle ev f = handle\<lparr>cb := (cb handle)(ev := f)\<rparr>"

definition multi_button_event_get :: "multi_button_t \<Rightarrow> press_event_t" where
  "multi_button_event_get handle = event handle"

definition EVENT_CB :: "multi_button_t \<Rightarrow> press_event_t \<Rightarrow> button_log" where
  "EVENT_CB handle ev = (case cb handle ev of None \<Rightarrow> [] | Some f \<Rightarrow> [(f, ev)])"

definition button_tick :: "multi_button_t \<Rightarrow> multi_button_t" where
  "button_tick handle = (if state handle > 0 then handle\<lparr>ticks := ticks handle + 1\<rparr> else handle)"

definition button_debounce :: "button_cfg \<Rightarrow> u8 \<Rightarrow> multi_button_t \<Rightarrow> multi_button_t" where
  "button_debounce cfg read_gpio_level handle =
     (if read_gpio_level \<noteq> ucast (button_level handle)
      then let cnt = debounce_cnt handle + 1
           in if unat cnt \<ge> debounce_ticks cfg
              then handle\<lparr>button_level := ucast read_gpio_level, debounce_cnt := 0\<rparr>
              else handle\<lparr>debounce_cnt := cnt\<rparr>
      else handle\<lparr>debounce_cnt := 0\<rparr>)"

definition button_machine :: "button_cfg \<Rightarrow> multi_button_t \<Rightarrow> multi_button_t \<times> button_log" where
  "button_machine cfg handle =
     (if state handle = 0
      then if button_level handle = active_level handle
           then (handle\<lparr>event := PRESS_EVENT_DOWN, ticks := 0, repeat_cnt := 1, state := 1\<rparr>,
                 EVENT_CB handle PRESS_EVENT_DOWN)
           else (handle\<lparr>event := PRESS_EVENT_NONE\<rparr>, [])
      else if state handle = 1
      then if button_level handle \<noteq> active_level handle
           then (handle\<lparr>event := PRESS_EVENT_UP, ticks := 0, state := 2\<rparr>, EVENT_CB handle PRESS_EVENT_UP)
           else if unat (ticks handle) > long_ticks cfg
           then (handle\<lparr>event := PRESS_EVENT_LONG_START, state := 5\<rparr>, EVENT_CB handle PRESS_EVENT_LONG_START)
           else (handle, [])
      else if state handle = 2
      then if button_level handle = active_level handle
           then (handle\<lparr>event := PRESS_EVENT_DOWN, repeat_cnt := repeat_cnt handle + 1, ticks := 0, state := 3\<rparr>,
                 EVENT_CB handle PRESS_EVENT_DOWN @ EVENT_CB handle PRESS_EVENT_REPEAT)
           else if unat (ticks handle) > short_ticks cfg
           then if repeat_cnt handle = 1
                then (handle\<lparr>event := PRESS_EVENT_SINGLE_CLICK, state := 0\<rparr>, EVENT_CB handle PRESS_EVENT_SINGLE_CLICK)
                else if repeat_cnt handle = 2
                then (handle\<lparr>event := PRESS_EVENT_DOUBLE_CLICK, state := 0\<rparr>, EVENT_CB handle PRESS_EVENT_DOUBLE_CLICK)
                else (handle\<lparr>state := 0\<rparr>, [])
           else (handle, [])
      else if state handle = 3
      then if button_level handle \<noteq> active_level handle
           then if unat (ticks handle) < short_ticks cfg
                then (handle\<lparr>event := PRESS_EVENT_UP, ticks := 0, state := 2\<rparr>, EVENT_CB handle PRESS_EVENT_UP)
                else (handle\<lparr>event := PRESS_EVENT_UP, state := 0\<rparr>, EVENT_CB handle PRESS_EVENT_UP)
           else if unat (ticks handle) > short_ticks cfg
           then (handle\<lparr>state := 0\<rparr>, [])
           else (handle, [])
      else if state handle = 5
      then if button_level handle = active_level handle
           then (handle\<lparr>event := PRESS_EVENT_LONG_HOLD\<rparr>, EVENT_CB handle PRESS_EVENT_LONG_HOLD)
           else (handle\<lparr>event := PRESS_EVENT_UP, state := 0\<rparr>, EVENT_CB handle PRESS_EVENT_UP)
      else (handle, []))"

definition button_handler :: "button_cfg \<Rightarrow> u8 \<Rightarrow> multi_button_t \<Rightarrow> multi_button_t \<times> button_log" where
  "button_handler cfg read_gpio_level handle =
     button_machine cfg (button_debounce cfg read_gpio_level (button_tick handle))"

section \<open>The work list\<close>

type_synonym button_heap = "nat \<Rightarrow> multi_button_t"

text \<open>The traversals follow the \<^verbatim>\<open>next\<close> pointers and do not return on a cyclic chain.\<close>

partial_function (option) find_handle :: "button_heap \<Rightarrow> nat \<Rightarrow> nat option \<Rightarrow> bool option" where
  "find_handle heap handle target =
     (case target of
        None \<Rightarrow> Some False
      | Some t \<Rightarrow> if t = handle then Some True else find_handle heap handle (next_handle (heap t)))"

definition multi_button_start :: "button_heap \<Rightarrow> nat option \<Rightarrow> nat \<Rightarrow> (int \<times> button_heap \<times> nat option) option" where
  "multi_button_start heap head_handle handle =
     (case find_handle heap handle head_handle of
        None \<Rightarrow> None
      | Some True \<Rightarrow> Some (- 1, heap, head_handle)
      | Some False \<Rightarrow> Some (0, heap(handle := (heap handle)\<lparr>next_handle := head_handle\<rparr>), Some handle))"

text \<open>\<^verbatim>\<open>curr\<close> points to \<^verbatim>\<open>head_handle\<close> (\<open>None\<close>) or to the \<^verbatim>\<open>next\<close> field of a handle.\<close>

partial_function (option) stop_loop ::
  "button_heap \<Rightarrow> nat option \<Rightarrow> nat \<Rightarrow> nat option \<Rightarrow> (button_heap \<times> nat option) option" where
  "stop_loop heap head_handle handle cur =
     (case (case cur of None \<Rightarrow> head_handle | Some c \<Rightarrow> next_handle (heap c)) of
        None \<Rightarrow> Some (heap, head_handle)
      | Some entry \<Rightarrow>
          if entry = handle
          then (case cur of
                  None \<Rightarrow> Some (heap, next_handle (heap entry))
                | Some c \<Rightarrow> Some (heap(c := (heap c)\<lparr>next_handle := next_handle (heap entry)\<rparr>), head_handle))
          else stop_loop heap head_handle handle (Some entry))"

definition multi_button_stop :: "button_heap \<Rightarrow> nat option \<Rightarrow> nat \<Rightarrow> (button_heap \<times> nat option) option" where
  "multi_button_stop heap head_handle handle = stop_loop heap head_handle handle None"

partial_function (option) ticks_loop ::
  "button_cfg \<Rightarrow> (nat \<Rightarrow> u8) \<Rightarrow> button_heap \<Rightarrow> nat option \<Rightarrow> button_log \<Rightarrow> (button_heap \<times> button_log) option" where
  "ticks_loop cfg pins heap target log =
     (case target of
        None \<Rightarrow> Some (heap, log)
      | Some t \<Rightarrow>
          (case button_handler cfg (pins (pin_level_get (heap t))) (heap t) of
             (b, l) \<Rightarrow> ticks_loop cfg pins (heap(t := b)) (next_handle b) (log @ l)))"

definition multi_button_ticks ::
  "button_cfg \<Rightarrow> (nat \<Rightarrow> u8) \<Rightarrow> button_heap \<Rightarrow> nat option \<Rightarrow> (button_heap \<times> button_log) option" where
  "multi_button_ticks cfg pins heap head_handle = ticks_loop cfg pins heap head_handle []"

section \<open>The work list is a list\<close>

fun chain :: "button_heap \<Rightarrow> nat option \<Rightarrow> nat list \<Rightarrow> bool" where
  "chain heap p [] = (p = None)"
| "chain heap p (x # xs) = (p = Some x \<and> chain heap (next_handle (heap x)) xs)"

lemma chain_other: "y \<notin> set xs \<Longrightarrow> chain (heap(y := b)) p xs = chain heap p xs"
  by (induction xs arbitrary: p) auto

lemma chain_cong: "\<forall>x\<in>set xs. next_handle (g x) = next_handle (h x) \<Longrightarrow> chain g p xs = chain h p xs"
  by (induction xs arbitrary: p) auto

lemma find_chain: "chain heap p xs \<Longrightarrow> find_handle heap handle p = Some (handle \<in> set xs)"
  by (induction xs arbitrary: p) (subst find_handle.simps; force)+

lemma start_chain:
  assumes "chain heap head xs" "handle \<notin> set xs"
  shows "\<exists>heap' head'. multi_button_start heap head handle = Some (0, heap', head') \<and> chain heap' head' (handle # xs)"
  using assms by (auto simp: multi_button_start_def find_chain chain_other)

definition same_but_next :: "button_heap \<Rightarrow> button_heap \<Rightarrow> bool" where
  "same_but_next g h \<longleftrightarrow> (\<forall>x. (g x)\<lparr>next_handle := None\<rparr> = (h x)\<lparr>next_handle := None\<rparr>)"

lemma same_but_next_upd [simp]: "same_but_next h h" "same_but_next (h(c := (h c)\<lparr>next_handle := p\<rparr>)) h"
  by (simp_all add: same_but_next_def)

lemma stop_loop_chain:
  assumes "chain heap (next_handle (heap c)) xs" "distinct (c # xs)"
  shows "\<exists>heap'. stop_loop heap head handle (Some c) = Some (heap', head)
           \<and> chain heap' (next_handle (heap' c)) (remove1 handle xs) \<and> same_but_next heap' heap
           \<and> (\<forall>x. x \<notin> set (c # xs) \<longrightarrow> heap' x = heap x)"
  using assms
proof (induction xs arbitrary: c)
  case Nil
  then show ?case by (subst stop_loop.simps) simp
next
  case (Cons x xs)
  then have cx: "next_handle (heap c) = Some x" "c \<noteq> x" "c \<notin> set xs" "x \<notin> set xs" by auto
  show ?case
  proof (cases "x = handle")
    case True
    then show ?thesis
      using Cons.prems cx by (subst stop_loop.simps) (simp add: chain_other)
  next
    case False
    obtain heap' where h: "stop_loop heap head handle (Some x) = Some (heap', head)"
      "chain heap' (next_handle (heap' x)) (remove1 handle xs)" "same_but_next heap' heap"
      "\<forall>y. y \<notin> set (x # xs) \<longrightarrow> heap' y = heap y"
      using Cons by fastforce
    then show ?thesis
      using False cx by (intro exI [of _ heap'], subst stop_loop.simps) auto
  qed
qed

lemma stop_chain:
  assumes "chain heap head xs" "distinct xs"
  shows "\<exists>heap' head'. multi_button_stop heap head handle = Some (heap', head') \<and> chain heap' head' (remove1 handle xs)
           \<and> same_but_next heap' heap"
proof (cases xs)
  case Nil
  then show ?thesis
    using assms unfolding multi_button_stop_def by (subst stop_loop.simps) simp
next
  case (Cons x ys)
  then have x: "head = Some x" "chain heap (next_handle (heap x)) ys" "distinct (x # ys)" using assms by auto
  obtain heap' where h: "stop_loop heap head handle (Some x) = Some (heap', head)"
    "chain heap' (next_handle (heap' x)) (remove1 handle ys)" "same_but_next heap' heap"
    using stop_loop_chain [OF x(2,3)] by blast
  have "multi_button_stop heap head handle =
      (if x = handle then Some (heap, next_handle (heap x)) else stop_loop heap head handle (Some x))"
    using x(1) unfolding multi_button_stop_def by (subst stop_loop.simps) simp
  then show ?thesis
    using h x Cons by auto
qed

lemma handler_next: "next_handle (fst (button_handler cfg l b)) = next_handle b"
  by (simp add: button_handler_def button_machine_def button_debounce_def button_tick_def Let_def)

abbreviation handle_step :: "button_cfg \<Rightarrow> (nat \<Rightarrow> u8) \<Rightarrow> multi_button_t \<Rightarrow> multi_button_t \<times> button_log" where
  "handle_step cfg pins b \<equiv> button_handler cfg (pins (pin_level_get b)) b"

lemma ticks_loop_chain:
  assumes "chain heap p xs" "distinct xs"
  shows "ticks_loop cfg pins heap p log =
     Some (\<lambda>x. if x \<in> set xs then fst (handle_step cfg pins (heap x)) else heap x,
           log @ concat (map (\<lambda>x. snd (handle_step cfg pins (heap x))) xs))"
  using assms
proof (induction xs arbitrary: heap p log)
  case Nil
  then show ?case by (subst ticks_loop.simps) simp
next
  case (Cons x xs)
  let ?b = "fst (handle_step cfg pins (heap x))"
  have c: "chain (heap(x := ?b)) (next_handle ?b) xs"
    using Cons.prems by (simp add: chain_other handler_next)
  have IH: "ticks_loop cfg pins (heap(x := ?b)) (next_handle ?b) (log @ snd (handle_step cfg pins (heap x))) =
     Some (\<lambda>y. if y \<in> set xs then fst (handle_step cfg pins ((heap(x := ?b)) y)) else (heap(x := ?b)) y,
           (log @ snd (handle_step cfg pins (heap x))) @ concat (map (\<lambda>y. snd (handle_step cfg pins ((heap(x := ?b)) y))) xs))"
    by (rule Cons.IH [OF c]) (use Cons.prems in simp)
  have meq: "map (\<lambda>y. snd (handle_step cfg pins ((heap(x := ?b)) y))) xs = map (\<lambda>y. snd (handle_step cfg pins (heap y))) xs"
    using Cons.prems by (intro map_cong) auto
  show ?case
    using Cons.prems IH [unfolded meq] by (subst ticks_loop.simps) (auto simp: split_beta fun_eq_iff)
qed

section \<open>Typing of the machine\<close>

text \<open>The states the machine can be in, each with the events a query can see there.\<close>

definition button_typed :: "multi_button_t \<Rightarrow> bool" where
  "button_typed h \<longleftrightarrow>
     (state h = 0 \<and> event h \<in> {PRESS_EVENT_NONE, PRESS_EVENT_DOWN, PRESS_EVENT_UP, PRESS_EVENT_SINGLE_CLICK, PRESS_EVENT_DOUBLE_CLICK}
      \<or> state h = 1 \<and> event h = PRESS_EVENT_DOWN \<and> repeat_cnt h = 1
      \<or> state h = 2 \<and> event h = PRESS_EVENT_UP
      \<or> state h = 3 \<and> event h = PRESS_EVENT_DOWN
      \<or> state h = 5 \<and> event h \<in> {PRESS_EVENT_LONG_START, PRESS_EVENT_LONG_HOLD})"

lemma typed_machine: "button_typed h \<Longrightarrow> button_typed (fst (button_machine cfg h))"
  unfolding button_typed_def by (elim disjE) (auto simp: button_machine_def)

lemma typed_debounce: "button_typed (button_debounce cfg l (button_tick h)) = button_typed h"
  by (simp add: button_typed_def button_debounce_def button_tick_def Let_def)

section \<open>Runs\<close>

text \<open>Successive reads of the pin.\<close>

fun button_run :: "button_cfg \<Rightarrow> u8 list \<Rightarrow> multi_button_t \<Rightarrow> multi_button_t \<times> button_log" where
  "button_run cfg [] h = (h, [])"
| "button_run cfg (l # ls) h =
     (case button_handler cfg l h of (h1, g1) \<Rightarrow> case button_run cfg ls h1 of (h2, g2) \<Rightarrow> (h2, g1 @ g2))"

lemma button_run_append:
  "button_run cfg (xs @ ys) h =
     (case button_run cfg xs h of (h1, g1) \<Rightarrow> case button_run cfg ys h1 of (h2, g2) \<Rightarrow> (h2, g1 @ g2))"
  by (induction xs arbitrary: h) (auto split: prod.split)

lemma typed_run: "button_typed h \<Longrightarrow> button_typed (fst (button_run cfg ls h))"
proof (induction ls arbitrary: h)
  case (Cons l ls)
  have "button_typed (fst (button_handler cfg l h))"
    unfolding button_handler_def using Cons.prems by (intro typed_machine) (simp only: typed_debounce)
  then show ?case using Cons.IH by (simp add: split_beta)
qed simp

subsection \<open>Debouncing\<close>

lemma handler_debounce:
  "button_level (fst (button_handler cfg l h)) = button_level (button_debounce cfg l h)"
  "debounce_cnt (fst (button_handler cfg l h)) = debounce_cnt (button_debounce cfg l h)"
  by (simp_all add: button_handler_def button_machine_def button_debounce_def button_tick_def Let_def)

lemma run_snoc: "fst (button_run cfg (ls @ [l]) h) = fst (button_handler cfg l (fst (button_run cfg ls h)))"
  by (simp add: button_run_append split_beta)

lemma debounce_run:
  assumes "debounce_ticks cfg \<le> 7" "debounce_cnt h = 0" "l \<noteq> ucast (button_level h)"
  shows "n < debounce_ticks cfg \<Longrightarrow> button_level (fst (button_run cfg (replicate n l) h)) = button_level h
    \<and> debounce_cnt (fst (button_run cfg (replicate n l) h)) = of_nat n"
proof (induction n)
  case (Suc n)
  have "unat (of_nat n + 1 :: 3 word) = Suc n"
    using Suc.prems assms(1) unat_of_nat [of "Suc n", where ?'a = 3] by (simp add: add.commute)
  then show ?case
    using Suc assms(3) unfolding replicate_Suc replicate_append_same [symmetric] run_snoc handler_debounce
    by (simp add: button_debounce_def Let_def add.commute)
qed (simp add: assms(2))

lemma debounce_flip:
  assumes "debounce_ticks cfg \<le> 7" "debounce_cnt h = 0" "l \<noteq> ucast (button_level h)" "0 < debounce_ticks cfg"
  shows "button_level (fst (button_run cfg (replicate (debounce_ticks cfg) l) h)) = ucast l"
proof -
  obtain n where n: "debounce_ticks cfg = Suc n" using assms(4) gr0_implies_Suc by blast
  have "unat (of_nat n + 1 :: 3 word) = Suc n"
    using n assms(1) unat_of_nat [of "Suc n", where ?'a = 3] by (simp add: add.commute)
  moreover have "replicate (debounce_ticks cfg) l = replicate n l @ [l]"
    by (simp add: n replicate_append_same)
  ultimately show ?thesis
    using debounce_run [OF assms(1-3), of n] assms(3) n
    by (simp add: run_snoc handler_debounce button_debounce_def Let_def)
qed

lemma debounce_stuck: "8 \<le> debounce_ticks cfg \<Longrightarrow> button_level (fst (button_run cfg ls h)) = button_level h"
proof (induction ls arbitrary: h)
  case (Cons l ls)
  have "unat (c :: 3 word) < 8" for c using unsigned_less [of c, where ?'a = nat] by simp
  then have "button_level (button_debounce cfg l h) = button_level h"
    using Cons.prems by (auto simp: button_debounce_def Let_def not_le dest: le_less_trans)
  then show ?case
    using Cons by (simp add: split_beta handler_debounce)
qed simp

subsection \<open>Presses\<close>

text \<open>A handle between two reads of a clean signal: the fields the machine uses, the active level and the callbacks.\<close>

definition standing :: "1 word \<Rightarrow> (press_event_t \<Rightarrow> nat option) \<Rightarrow> 3 word \<times> u16 \<times> 4 word \<Rightarrow> multi_button_t \<Rightarrow> bool" where
  "standing a f = (\<lambda>(s, t, r) h. state h = s \<and> ticks h = t \<and> repeat_cnt h = r \<and> debounce_cnt h = 0 \<and> active_level h = a \<and> cb h = f)"

definition phase ::
  "button_cfg \<Rightarrow> 1 word \<Rightarrow> (press_event_t \<Rightarrow> nat option) \<Rightarrow> u8 list \<Rightarrow> 3 word \<times> u16 \<times> 4 word \<Rightarrow> press_event_t list
     \<Rightarrow> 3 word \<times> u16 \<times> 4 word \<Rightarrow> bool" where
  "phase cfg a f ls p evs q \<longleftrightarrow>
     (\<forall>h. standing a f p h \<longrightarrow>
        (\<exists>h'. button_run cfg ls h = (h', concat (map (\<lambda>e. case f e of None \<Rightarrow> [] | Some c \<Rightarrow> [(c, e)]) evs)) \<and> standing a f q h'))"

lemma phase_Nil: "phase cfg a f [] p [] p"
  by (simp add: phase_def)

lemma phase_append: "phase cfg a f xs p es q \<Longrightarrow> phase cfg a f ys q fs r \<Longrightarrow> phase cfg a f (xs @ ys) p (es @ fs) r"
  unfolding phase_def by (fastforce simp: button_run_append)

lemma ucast_bit: "ucast (ucast x :: u8) = (x :: 1 word)" "(ucast x :: u8) = ucast y \<longleftrightarrow> x = (y :: 1 word)"
proof -
  have again: "ucast (ucast x :: u8) = x" for x :: "1 word"
    by (rule bit_word_eqI) (simp add: bit_simps)
  then show "ucast (ucast x :: u8) = x" .
  show "(ucast x :: u8) = ucast y \<longleftrightarrow> x = y"
    using again [of x] again [of y] by metis
qed

lemma other_level [simp]: "a + 1 \<noteq> (a :: 1 word)"
  by simp

lemma clean_debounce:
  assumes "debounce_ticks cfg \<le> 1" "debounce_cnt h = 0"
  shows "button_debounce cfg (ucast x) h = h\<lparr>button_level := x\<rparr>"
proof -
  have "unat (1 :: 3 word) = 1" by simp
  then show ?thesis
    using assms by (cases h) (auto simp: button_debounce_def ucast_bit Let_def)
qed

lemma phase_step:
  assumes "debounce_ticks cfg \<le> 1"
    "\<And>h. standing a f (s, if s > 0 then t + 1 else t, r) h \<Longrightarrow> button_level h = x \<Longrightarrow>
       standing a f q (fst (button_machine cfg h)) \<and> snd (button_machine cfg h) = concat (map (EVENT_CB h) evs)"
  shows "phase cfg a f [ucast x] (s, t, r) evs q"
  unfolding phase_def
proof (intro allI impI)
  fix h assume h: "standing a f (s, t, r) h"
  let ?h = "(button_tick h)\<lparr>button_level := x\<rparr>"
  have "button_handler cfg (ucast x) h = button_machine cfg ?h"
    using h assms(1) unfolding button_handler_def
    by (subst clean_debounce) (auto simp: standing_def button_tick_def)
  moreover have "standing a f (s, if s > 0 then t + 1 else t, r) ?h" "button_level ?h = x" "EVENT_CB ?h = (\<lambda>e. case f e of None \<Rightarrow> [] | Some c \<Rightarrow> [(c, e)])"
    using h by (auto simp: standing_def button_tick_def EVENT_CB_def)
  ultimately show "\<exists>h'. button_run cfg [ucast x] h = (h', concat (map (\<lambda>e. case f e of None \<Rightarrow> [] | Some c \<Rightarrow> [(c, e)]) evs)) \<and> standing a f q h'"
    using assms(2) [of ?h] by (intro exI [of _ "fst (button_machine cfg ?h)"]) (simp add: split_beta prod_eq_iff)
qed

definition pressed :: "1 word \<Rightarrow> u8" where "pressed a = ucast a"
definition released :: "1 word \<Rightarrow> u8" where "released a = ucast (a + 1)"

lemma unat_tick: "unat t < 65535 \<Longrightarrow> unat (t + 1 :: u16) = unat t + 1"
  by (simp add: unat_word_ariths)

lemma machine_steps:
  assumes "debounce_ticks cfg \<le> 1"
  shows press0: "phase cfg a f [pressed a] (0, t, r) [PRESS_EVENT_DOWN] (1, 0, 1)"
    and hold1: "unat t < long_ticks cfg \<Longrightarrow> unat t < 65535 \<Longrightarrow> phase cfg a f [pressed a] (1, t, r) [] (1, t + 1, r)"
    and long1: "unat t = long_ticks cfg \<Longrightarrow> unat t < 65535 \<Longrightarrow> phase cfg a f [pressed a] (1, t, r) [PRESS_EVENT_LONG_START] (5, t + 1, r)"
    and release1: "phase cfg a f [released a] (1, t, r) [PRESS_EVENT_UP] (2, 0, r)"
    and wait2: "unat t < short_ticks cfg \<Longrightarrow> unat t < 65535 \<Longrightarrow> phase cfg a f [released a] (2, t, r) [] (2, t + 1, r)"
    and click2: "unat t = short_ticks cfg \<Longrightarrow> unat t < 65535 \<Longrightarrow> phase cfg a f [released a] (2, t, r)
      (if r = 1 then [PRESS_EVENT_SINGLE_CLICK] else if r = 2 then [PRESS_EVENT_DOUBLE_CLICK] else []) (0, t + 1, r)"
    and press2: "phase cfg a f [pressed a] (2, t, r) [PRESS_EVENT_DOWN, PRESS_EVENT_REPEAT] (3, 0, r + 1)"
    and hold3: "unat t < short_ticks cfg \<Longrightarrow> unat t < 65535 \<Longrightarrow> phase cfg a f [pressed a] (3, t, r) [] (3, t + 1, r)"
    and release3: "unat t + 1 < short_ticks cfg \<Longrightarrow> unat t < 65535 \<Longrightarrow> phase cfg a f [released a] (3, t, r) [PRESS_EVENT_UP] (2, 0, r)"
    and drop3: "unat t = short_ticks cfg \<Longrightarrow> unat t < 65535 \<Longrightarrow> phase cfg a f [pressed a] (3, t, r) [] (0, t + 1, r)"
    and hold5: "phase cfg a f [pressed a] (5, t, r) [PRESS_EVENT_LONG_HOLD] (5, t + 1, r)"
    and release5: "phase cfg a f [released a] (5, t, r) [PRESS_EVENT_UP] (0, t + 1, r)"
  unfolding pressed_def released_def
  by (rule phase_step [OF assms]; simp add: standing_def button_machine_def unat_tick)+

lemma phase_hold:
  assumes "\<And>k. k < n \<Longrightarrow> phase cfg a f [x] (s, of_nat k, r) [] (s, of_nat k + 1, r)"
  shows "phase cfg a f (replicate n x) (s, 0, r) [] (s, of_nat n, r)"
  using assms
proof (induction n)
  case (Suc n)
  then have "phase cfg a f (replicate n x @ [x]) (s, 0, r) ([] @ []) (s, of_nat n + 1, r)"
    by (intro phase_append [of _ _ _ _ _ _ "(s, of_nat n, r)"]) auto
  then show ?case by (simp add: replicate_append_same add.commute)
qed (simp add: phase_Nil)

lemma phase_then_hold:
  assumes "phase cfg a f [x] p evs (s, 0, r)" "\<And>k. k < n \<Longrightarrow> phase cfg a f [x] (s, of_nat k, r) [] (s, of_nat k + 1, r)"
  shows "phase cfg a f (replicate (Suc n) x) p evs (s, of_nat n, r)"
  using phase_append [OF assms(1) phase_hold [OF assms(2)]] by simp

lemma unat_u16: "k < 65536 \<Longrightarrow> unat (of_nat k :: u16) = k"
  by (simp add: unat_of_nat)

text \<open>The states with the button down from which a release opens the wait for another press.\<close>

definition down_state :: "button_cfg \<Rightarrow> 3 word \<Rightarrow> u16 \<Rightarrow> bool" where
  "down_state cfg s t \<longleftrightarrow> s = 1 \<or> s = 3 \<and> unat t + 1 < short_ticks cfg"

definition presses_signal :: "1 word \<Rightarrow> (nat \<times> nat) list \<Rightarrow> u8 list" where
  "presses_signal a ps = concat (map (\<lambda>(g, d). replicate g (released a) @ replicate d (pressed a)) ps)"

definition clicks :: "4 word \<Rightarrow> press_event_t list" where
  "clicks r = (if r = 1 then [PRESS_EVENT_SINGLE_CLICK] else if r = 2 then [PRESS_EVENT_DOUBLE_CLICK] else [])"

lemma press_phases:
  assumes "debounce_ticks cfg \<le> 1" "long_ticks cfg < 65535" "short_ticks cfg < 65535"
  shows first_press: "n \<le> long_ticks cfg \<Longrightarrow>
      phase cfg a f (replicate (Suc n) (pressed a)) (0, t, r) [PRESS_EVENT_DOWN] (1, of_nat n, 1)"
    and gap: "down_state cfg s t \<Longrightarrow> n \<le> short_ticks cfg \<Longrightarrow>
      phase cfg a f (replicate (Suc n) (released a)) (s, t, r) [PRESS_EVENT_UP] (2, of_nat n, r)"
    and next_press: "n \<le> short_ticks cfg \<Longrightarrow>
      phase cfg a f (replicate (Suc n) (pressed a)) (2, t, r) [PRESS_EVENT_DOWN, PRESS_EVENT_REPEAT] (3, of_nat n, r + 1)"
proof -
  show "phase cfg a f (replicate (Suc n) (pressed a)) (0, t, r) [PRESS_EVENT_DOWN] (1, of_nat n, 1)" if "n \<le> long_ticks cfg"
    using that assms by (intro phase_then_hold press0 hold1) (simp_all add: unat_u16)
  show "phase cfg a f (replicate (Suc n) (pressed a)) (2, t, r) [PRESS_EVENT_DOWN, PRESS_EVENT_REPEAT] (3, of_nat n, r + 1)"
    if "n \<le> short_ticks cfg"
    using that assms by (intro phase_then_hold press2 hold3) (simp_all add: unat_u16)
  assume s: "down_state cfg s t" and n: "n \<le> short_ticks cfg"
  have "phase cfg a f [released a] (s, t, r) [PRESS_EVENT_UP] (2, 0, r)"
    using s assms release1 [OF assms(1)] release3 [OF assms(1), of t] by (auto simp: down_state_def)
  then show "phase cfg a f (replicate (Suc n) (released a)) (s, t, r) [PRESS_EVENT_UP] (2, of_nat n, r)"
    using n assms by (intro phase_then_hold wait2) (simp_all add: unat_u16)
qed

lemma presses_phase:
  assumes cfg: "debounce_ticks cfg \<le> 1" "long_ticks cfg < 65535" "short_ticks cfg < 65535"
    and "down_state cfg s t" "list_all (\<lambda>(g, d). 1 \<le> g \<and> g \<le> short_ticks cfg + 1 \<and> 1 \<le> d \<and> d < short_ticks cfg) ps"
  shows "\<exists>s' t'. down_state cfg s' t' \<and>
    phase cfg a f (presses_signal a ps) (s, t, r) (concat (replicate (length ps) [PRESS_EVENT_UP, PRESS_EVENT_DOWN, PRESS_EVENT_REPEAT]))
      (s', t', r + of_nat (length ps))"
  using assms(4,5)
proof (induction ps arbitrary: s t r)
  case Nil
  then show ?case by (intro exI [of _ s] exI [of _ t]) (simp add: presses_signal_def phase_Nil)
next
  case (Cons p ps)
  obtain g d where p: "p = (Suc g, Suc d)" "g \<le> short_ticks cfg" "Suc d < short_ticks cfg"
    using Cons.prems(2) by (cases p) (auto simp: Suc_le_eq gr0_conv_Suc)
  have d: "down_state cfg 3 (of_nat d)"
    using p(3) cfg(3) by (simp add: down_state_def unat_u16)
  obtain s' t' where IH: "down_state cfg s' t'" "phase cfg a f (presses_signal a ps) (3, of_nat d, r + 1)
      (concat (replicate (length ps) [PRESS_EVENT_UP, PRESS_EVENT_DOWN, PRESS_EVENT_REPEAT])) (s', t', r + 1 + of_nat (length ps))"
    using Cons.IH [OF d, of "r + 1"] Cons.prems(2) by auto
  have "phase cfg a f (replicate (Suc g) (released a) @ replicate (Suc d) (pressed a)) (s, t, r)
      ([PRESS_EVENT_UP] @ [PRESS_EVENT_DOWN, PRESS_EVENT_REPEAT]) (3, of_nat d, r + 1)"
    using Cons.prems(1) p cfg by (intro phase_append [OF gap next_press]) auto
  from phase_append [OF this IH(2)] show ?case
    using IH(1) p by (auto simp: presses_signal_def add.assoc)
qed

lemma last_release:
  assumes cfg: "debounce_ticks cfg \<le> 1" "long_ticks cfg < 65535" "short_ticks cfg < 65535" and "down_state cfg s t"
  shows "\<exists>t'. phase cfg a f (replicate (short_ticks cfg + 2) (released a)) (s, t, r) (PRESS_EVENT_UP # clicks r) (0, t', r)"
proof -
  have "phase cfg a f (replicate (Suc (short_ticks cfg)) (released a) @ [released a]) (s, t, r)
      ([PRESS_EVENT_UP] @ clicks r) (0, of_nat (short_ticks cfg) + 1, r)"
    unfolding clicks_def using assms by (intro phase_append [OF gap click2]) (auto simp: unat_u16)
  then show ?thesis by (auto simp: replicate_append_same)
qed

lemma standing_idle: "debounce_cnt h = 0 \<Longrightarrow> standing (active_level h) (cb h) (state h, ticks h, repeat_cnt h) h"
  by (simp add: standing_def)

lemma phase_run:
  assumes "phase cfg (active_level h) (cb h) ls (s0, ticks h, repeat_cnt h) evs (s, q)" "state h = s0" "debounce_cnt h = 0"
  shows "\<exists>h'. button_run cfg ls h = (h', concat (map (EVENT_CB h) evs)) \<and> state h' = s"
proof -
  have "EVENT_CB h = (\<lambda>e. case cb h e of None \<Rightarrow> [] | Some c \<Rightarrow> [(c, e)])"
    by (simp add: EVENT_CB_def fun_eq_iff)
  then show ?thesis
    using assms(1,2) standing_idle [OF assms(3)] by (cases q) (fastforce simp: phase_def standing_def)
qed

lemma clicks_count:
  "clicks (1 + of_nat n) =
     (if n mod 16 = 0 then [PRESS_EVENT_SINGLE_CLICK] else if n mod 16 = 1 then [PRESS_EVENT_DOUBLE_CLICK] else [])"
proof -
  have "(of_nat n = (of_nat k :: 4 word)) = (n mod 16 = k)" if "k < 16" for k
    using that by (simp add: word_unat_eq_iff unat_of_nat)
  from this [of 0] this [of 1] show ?thesis by (simp add: clicks_def)
qed

lemma long_hold:
  assumes "debounce_ticks cfg \<le> 1"
  shows "\<exists>t'. phase cfg a f (replicate n (pressed a)) (5, t, r) (replicate n PRESS_EVENT_LONG_HOLD) (5, t', r)"
proof (induction n arbitrary: t)
  case (Suc n)
  then obtain t' where "phase cfg a f (replicate n (pressed a)) (5, t + 1, r) (replicate n PRESS_EVENT_LONG_HOLD) (5, t', r)" by blast
  from phase_append [OF hold5 [OF assms] this] show ?case by auto
qed (auto intro: phase_Nil)

section \<open>Properties\<close>

text \<open>C26: Typing of the driver: from an initialised handle, whatever levels are read, the machine is in one of the
  five states the code writes, a query in each state sees only the events of that state, and never
  \<^verbatim>\<open>PRESS_EVENT_REPEAT\<close>.\<close>

theorem button_states_typed:
  "button_typed (fst (button_run cfg ls (multi_button_init pins fn active)))
   \<and> multi_button_event_get (fst (button_run cfg ls (multi_button_init pins fn active))) \<noteq> PRESS_EVENT_REPEAT"
proof -
  have "button_typed (multi_button_init pins fn active)"
    by (simp add: button_typed_def multi_button_init_def)
  then have t: "button_typed (fst (button_run cfg ls (multi_button_init pins fn active)))"
    by (rule typed_run)
  moreover have "event h \<noteq> PRESS_EVENT_REPEAT" if "button_typed h" for h
    using that by (auto simp: button_typed_def)
  ultimately show ?thesis by (simp add: multi_button_event_get_def)
qed

text \<open>C8: Clicks: from the idle state a clean signal of \<open>n + 1\<close> presses, the first at most the long time, the others
  shorter than the short time and with gaps of at most the short time, and then a release, calls exactly the
  callbacks of press, release and repetition in order, and at the end that of a single or double click according
  to the number of presses modulo 16.\<close>

theorem button_clicks:
  assumes "debounce_ticks cfg \<le> 1" "long_ticks cfg < 65535" "short_ticks cfg < 65535"
    and "state h = 0" "debounce_cnt h = 0" "1 \<le> d" "d \<le> long_ticks cfg + 1"
    and "list_all (\<lambda>(g, d). 1 \<le> g \<and> g \<le> short_ticks cfg + 1 \<and> 1 \<le> d \<and> d < short_ticks cfg) ps"
  shows "\<exists>h'. button_run cfg (replicate d (pressed (active_level h)) @ presses_signal (active_level h) ps
                @ replicate (short_ticks cfg + 2) (released (active_level h))) h =
           (h', concat (map (EVENT_CB h)
              (PRESS_EVENT_DOWN # concat (replicate (length ps) [PRESS_EVENT_UP, PRESS_EVENT_DOWN, PRESS_EVENT_REPEAT])
                @ PRESS_EVENT_UP # (if length ps mod 16 = 0 then [PRESS_EVENT_SINGLE_CLICK]
                                    else if length ps mod 16 = 1 then [PRESS_EVENT_DOUBLE_CLICK] else []))))
         \<and> state h' = 0"
proof -
  let ?a = "active_level h" and ?f = "cb h"
  obtain n where n: "d = Suc n" "n \<le> long_ticks cfg" using assms(6,7) by (cases d) auto
  have "down_state cfg 1 (of_nat n)" by (simp add: down_state_def)
  then obtain s t where st: "down_state cfg s t" "phase cfg ?a ?f (presses_signal ?a ps) (1, of_nat n, 1)
      (concat (replicate (length ps) [PRESS_EVENT_UP, PRESS_EVENT_DOWN, PRESS_EVENT_REPEAT])) (s, t, 1 + of_nat (length ps))"
    using presses_phase [OF assms(1-3) _ assms(8)] by blast
  obtain t' where "phase cfg ?a ?f (replicate (short_ticks cfg + 2) (released ?a)) (s, t, 1 + of_nat (length ps))
      (PRESS_EVENT_UP # clicks (1 + of_nat (length ps))) (0, t', 1 + of_nat (length ps))"
    using last_release [OF assms(1-3) st(1)] by blast
  from phase_run [OF phase_append [OF first_press [OF assms(1-3) n(2)] phase_append [OF st(2) this]] assms(4,5)]
  show ?thesis unfolding clicks_count n(1) append_Cons append_Nil .
qed

theorem button_clicks_witness:
  "\<exists>h'. button_run default_cfg (replicate 3 1 @ (replicate 2 0 @ replicate 2 1) @ replicate 12 0)
          ((multi_button_init (\<lambda>_. 0) 0 1)\<lparr>cb := Some \<circ> (\<lambda>_. 7)\<rparr>) =
        (h', map (Pair 7) [PRESS_EVENT_DOWN, PRESS_EVENT_UP, PRESS_EVENT_DOWN, PRESS_EVENT_REPEAT, PRESS_EVENT_UP,
                           PRESS_EVENT_DOUBLE_CLICK]) \<and> state h' = 0"
  using button_clicks [of default_cfg "(multi_button_init (\<lambda>_. 0) 0 1)\<lparr>cb := Some \<circ> (\<lambda>_. 7)\<rparr>" 3 "[(2, 2)]"]
  by (simp add: default_cfg_def multi_button_init_def pressed_def released_def presses_signal_def EVENT_CB_def del: button_run.simps)

text \<open>A long press: held for \<open>n\<close> reads beyond the long time, the button calls the callbacks of the press, of the
  long press, of the hold on each of the \<open>n\<close> reads and of the release, and no click.\<close>

theorem button_long_press:
  assumes "debounce_ticks cfg \<le> 1" "long_ticks cfg < 65535" "short_ticks cfg < 65535" "state h = 0" "debounce_cnt h = 0"
  shows "\<exists>h'. button_run cfg (replicate (long_ticks cfg + 2 + n) (pressed (active_level h)) @ [released (active_level h)]) h =
           (h', concat (map (EVENT_CB h)
              ([PRESS_EVENT_DOWN, PRESS_EVENT_LONG_START] @ replicate n PRESS_EVENT_LONG_HOLD @ [PRESS_EVENT_UP])))
         \<and> state h' = 0"
proof -
  let ?a = "active_level h" and ?f = "cb h" and ?L = "long_ticks cfg"
  obtain t' where "phase cfg ?a ?f (replicate n (pressed ?a)) (5, of_nat ?L + 1, 1) (replicate n PRESS_EVENT_LONG_HOLD) (5, t', 1)"
    using long_hold [OF assms(1)] by blast
  moreover have "phase cfg ?a ?f [pressed ?a] (1, of_nat ?L, 1) [PRESS_EVENT_LONG_START] (5, of_nat ?L + 1, 1)"
    using assms by (intro long1) (simp_all add: unat_u16)
  ultimately have ph: "phase cfg ?a ?f (replicate (Suc ?L) (pressed ?a) @ [pressed ?a] @ replicate n (pressed ?a) @ [released ?a])
      (0, ticks h, repeat_cnt h) ([PRESS_EVENT_DOWN] @ [PRESS_EVENT_LONG_START] @ replicate n PRESS_EVENT_LONG_HOLD @ [PRESS_EVENT_UP])
      (0, t' + 1, 1)"
    by (intro phase_append [OF first_press [OF assms(1-3) order_refl]] phase_append [of _ _ _ "[pressed ?a]"] phase_append [OF _ release5 [OF assms(1)]])
  have "replicate (Suc ?L) x @ [x] @ replicate n x @ ys = replicate (?L + 2 + n) x @ ys" for x :: u8 and ys
    by (simp add: replicate_add replicate_app_Cons_same)
  from phase_run [OF ph assms(4,5), unfolded this] show ?thesis by simp
qed

theorem button_long_press_witness:
  "\<exists>h'. button_run default_cfg (replicate 54 1 @ [0]) (multi_button_attach (multi_button_init (\<lambda>_. 0) 0 1) PRESS_EVENT_LONG_HOLD (Some 3)) =
        (h', replicate 2 (3, PRESS_EVENT_LONG_HOLD)) \<and> state h' = 0"
  using button_long_press [of default_cfg "multi_button_attach (multi_button_init (\<lambda>_. 0) 0 1) PRESS_EVENT_LONG_HOLD (Some 3)" 2]
  by (simp add: default_cfg_def multi_button_init_def multi_button_attach_def pressed_def released_def EVENT_CB_def del: button_run.simps)

text \<open>A second press that is held: after the short time the machine returns to idle without the release event and
  reports another press on the next read, although the button was never released.\<close>

theorem button_second_hold_restarts:
  assumes "debounce_ticks cfg \<le> 1" "short_ticks cfg < 65535" "state h = 2" "debounce_cnt h = 0"
  shows "\<exists>h'. button_run cfg (replicate (short_ticks cfg + 3) (pressed (active_level h))) h =
           (h', concat (map (EVENT_CB h) [PRESS_EVENT_DOWN, PRESS_EVENT_REPEAT, PRESS_EVENT_DOWN]))
         \<and> state h' = 1"
proof -
  let ?a = "active_level h" and ?f = "cb h" and ?S = "short_ticks cfg" and ?r = "repeat_cnt h + 1"
  have "phase cfg ?a ?f (replicate (Suc ?S) (pressed ?a)) (2, ticks h, repeat_cnt h) [PRESS_EVENT_DOWN, PRESS_EVENT_REPEAT] (3, of_nat ?S, ?r)"
    using assms by (intro phase_then_hold press2 hold3) (simp_all add: unat_u16)
  moreover have "phase cfg ?a ?f [pressed ?a] (3, of_nat ?S, ?r) [] (0, of_nat ?S + 1, ?r)"
    using assms by (intro drop3) (simp_all add: unat_u16)
  ultimately have ph: "phase cfg ?a ?f (replicate (Suc ?S) (pressed ?a) @ [pressed ?a] @ [pressed ?a]) (2, ticks h, repeat_cnt h)
      ([PRESS_EVENT_DOWN, PRESS_EVENT_REPEAT] @ [] @ [PRESS_EVENT_DOWN]) (1, 0, 1)"
    using press0 [OF assms(1)] by (intro phase_append)
  have "replicate (Suc ?S) x @ [x] @ [x] = replicate (?S + 3) x" for x :: u8
    by (simp add: replicate_append_same eval_nat_numeral replicate_app_Cons_same)
  from phase_run [OF ph assms(3,4), unfolded this] show ?thesis by simp
qed

theorem button_second_hold_restarts_witness:
  "\<exists>h'. button_run default_cfg (replicate 13 1)
          ((multi_button_init (\<lambda>_. 0) 0 1)\<lparr>state := 2, cb := Some \<circ> (\<lambda>_. 7)\<rparr>) =
        (h', map (Pair 7) [PRESS_EVENT_DOWN, PRESS_EVENT_REPEAT, PRESS_EVENT_DOWN]) \<and> state h' = 1"
  using button_second_hold_restarts [of default_cfg "(multi_button_init (\<lambda>_. 0) 0 1)\<lparr>state := 2, cb := Some \<circ> (\<lambda>_. 7)\<rparr>"]
  by (simp add: default_cfg_def multi_button_init_def pressed_def EVENT_CB_def del: button_run.simps)

text \<open>Debouncing: with a setting of 1 to 7 fewer successive reads of the other level than the setting leave the
  level, and as many change it; with a setting of 8 or more, which the 3-bit counter never reaches, the level never
  changes.\<close>

theorem button_debounces:
  assumes "debounce_cnt h = 0" "l \<noteq> ucast (button_level h)"
  shows "(1 \<le> debounce_ticks cfg \<and> debounce_ticks cfg \<le> 7 \<longrightarrow>
            (\<forall>n < debounce_ticks cfg. button_level (fst (button_run cfg (replicate n l) h)) = button_level h)
            \<and> button_level (fst (button_run cfg (replicate (debounce_ticks cfg) l) h)) = ucast l)
       \<and> (8 \<le> debounce_ticks cfg \<longrightarrow> button_level (fst (button_run cfg ls h)) = button_level h)"
  using debounce_run [OF _ assms] debounce_flip [OF _ assms] debounce_stuck by auto

theorem button_debounces_witness:
  "button_level (fst (button_run \<lparr>debounce_ticks = 3, short_ticks = 10, long_ticks = 50\<rparr> (replicate 2 1)
      (multi_button_init (\<lambda>_. 0) 0 1))) = 0
   \<and> button_level (fst (button_run \<lparr>debounce_ticks = 3, short_ticks = 10, long_ticks = 50\<rparr> (replicate 3 1)
      (multi_button_init (\<lambda>_. 0) 0 1))) = 1
   \<and> button_level (fst (button_run \<lparr>debounce_ticks = 8, short_ticks = 10, long_ticks = 50\<rparr> (replicate 100 1)
      (multi_button_init (\<lambda>_. 0) 0 1))) = 0"
proof -
  let ?h = "multi_button_init (\<lambda>_. 0) 0 1" and ?c = "\<lambda>d. \<lparr>debounce_ticks = d, short_ticks = 10, long_ticks = 50\<rparr>"
  have h: "debounce_cnt ?h = 0" "(1 :: u8) \<noteq> ucast (button_level ?h)" "button_level ?h = 0"
    by (simp_all add: multi_button_init_def)
  have "(2 :: nat) < 3" by simp
  with button_debounces [OF h(1,2), of "?c 3" "[]"] button_debounces [OF h(1,2), of "?c 8" "replicate 100 1"] show ?thesis
    unfolding h(3) by (simp del: button_run.simps)
qed

text \<open>C21: The work list: on a chain of distinct handles starting a new handle puts it in front, starting a listed one
  is refused, stopping removes it and changes nothing but a link, and a tick runs the handler once on every listed
  handle, in the order of the list.\<close>

theorem button_list_refines:
  assumes "chain heap head xs" "distinct xs"
  shows "(handle \<in> set xs \<longrightarrow> multi_button_start heap head handle = Some (- 1, heap, head))
    \<and> (handle \<notin> set xs \<longrightarrow> (\<exists>heap' head'. multi_button_start heap head handle = Some (0, heap', head') \<and> chain heap' head' (handle # xs)))
    \<and> (\<exists>heap' head'. multi_button_stop heap head handle = Some (heap', head') \<and> chain heap' head' (remove1 handle xs) \<and> same_but_next heap' heap)
    \<and> multi_button_ticks cfg pins heap head =
        Some (\<lambda>x. if x \<in> set xs then fst (handle_step cfg pins (heap x)) else heap x, concat (map (\<lambda>x. snd (handle_step cfg pins (heap x))) xs))"
  using start_chain [OF assms(1)] stop_chain [OF assms] ticks_loop_chain [OF assms, of cfg pins "[]"] find_chain [OF assms(1)]
  by (auto simp: multi_button_start_def multi_button_ticks_def)

theorem button_list_refines_witness:
  "\<exists>heap' head'. multi_button_stop (\<lambda>x. (multi_button_init (\<lambda>_. 0) 0 1)\<lparr>next_handle := if x = 4 then Some 2 else None\<rparr>) (Some 4) 2 =
     Some (heap', head') \<and> chain heap' head' [4]"
  using button_list_refines [of "\<lambda>x. (multi_button_init (\<lambda>_. 0) 0 1)\<lparr>next_handle := if x = 4 then Some 2 else None\<rparr>" "Some 4" "[4, 2]" 2]
  by fastforce

end
