(* ===== verification/Hashtable.thy ===== *)
theory Hashtable
  imports QM_Prelude
begin

text \<open>
  The hash table of \<^verbatim>\<open>utility/hashtable/qm_utils_hashtable.c\<close>. The table is an array of root items, each with
  a chain of further items behind it; here a bucket is the list of its items, the root first. A block of memory
  is the list of its bytes, a \<^verbatim>\<open>NULL\<close> pointer is \<open>None\<close>, and \<open>junk n\<close> is what a fresh block of \<open>n\<close> bytes
  holds. \<open>mal i\<close> tells whether the \<open>i\<close>-th allocation of a call succeeds. \<open>Fault\<close> is a write or read
  beyond a block, or the freeing of an item that is still linked.
\<close>

unbundle bit_operations_syntax

section \<open>Data\<close>

record ht_item_t =
  hkey :: "u8 list option"
  len_key :: int
  hval :: "u8 list option"
  size_val :: int

record ht_t =
  cnt :: int
  item :: "ht_item_t list list"

definition null_item :: ht_item_t where
  "null_item = \<lparr>hkey = None, len_key = 0, hval = None, size_val = 0\<rparr>"

datatype 'a outcome = Done 'a | Fault

section \<open>Operations\<close>

definition hash_step :: "u8 \<Rightarrow> u32 \<Rightarrow> u32" where
  "hash_step b hash =
     (let h1 = hash + ucast b;
          h2 = h1 + push_bit 10 h1
      in h2 XOR drop_bit 6 h2)"

definition hash_func :: "u8 list \<Rightarrow> u32" where
  "hash_func key =
     (let h0 = fold hash_step key 0;
          h1 = h0 + push_bit 3 h0;
          h2 = h1 XOR drop_bit 11 h1
      in h2 + push_bit 15 h2)"

definition ht_init :: "(nat \<Rightarrow> bool) \<Rightarrow> int \<Rightarrow> ht_t option" where
  "ht_init mal max_count =
     (if max_count \<le> 0 then None
      else if \<not> mal 0 then None
      else if \<not> mal 1 then None
      else Some \<lparr>cnt = max_count, item = replicate (nat max_count) [null_item]\<rparr>)"

text \<open>The index of the bucket of a key; \<open>None\<close> for a missing table, a missing key or a key of length 0.\<close>

definition ht_find_pos :: "ht_t option \<Rightarrow> u8 list option \<Rightarrow> nat option" where
  "ht_find_pos ht key =
     (case (ht, key) of
        (Some pt, Some k) \<Rightarrow> if k = [] then None else Some (unat (hash_func k mod word_of_int (cnt pt)))
      | _ \<Rightarrow> None)"

definition item_match :: "u8 list \<Rightarrow> ht_item_t \<Rightarrow> bool" where
  "item_match key p =
     (case hkey p of None \<Rightarrow> False | Some k \<Rightarrow> len_key p = int (length key) \<and> take (length key) k = key)"

text \<open>\<open>room\<close> is \<^verbatim>\<open>*size_val\<close>, missing when \<^verbatim>\<open>val\<close> or \<^verbatim>\<open>size_val\<close> is \<^verbatim>\<open>NULL\<close>; the second result is what is
  copied and the new \<^verbatim>\<open>*size_val\<close>.\<close>

definition ht_find :: "ht_t option \<Rightarrow> u8 list option \<Rightarrow> int option \<Rightarrow> u8 list option \<times> (u8 list \<times> int) option" where
  "ht_find ht key room =
     (case (ht, key, ht_find_pos ht key) of
        (Some pt, Some k, Some pos) \<Rightarrow>
          (case find (item_match k) (item pt ! pos) of
             None \<Rightarrow> (None, None)
           | Some p \<Rightarrow>
               (hval p,
                case (hval p, room) of
                  (Some v, Some r) \<Rightarrow> Some (take (nat (if size_val p > r then r else size_val p)) v, size_val p)
                | _ \<Rightarrow> None))
      | _ \<Rightarrow> (None, None))"

text \<open>The first index of a bucket with a property.\<close>

fun index_of :: "('a \<Rightarrow> bool) \<Rightarrow> 'a list \<Rightarrow> nat option" where
  "index_of P [] = None"
| "index_of P (x # xs) = (if P x then Some 0 else map_option Suc (index_of P xs))"

definition new_item :: "u8 list \<Rightarrow> u8 list \<Rightarrow> ht_item_t" where
  "new_item key val = \<lparr>hkey = Some key, len_key = int (length key), hval = Some val, size_val = int (length val)\<rparr>"

text \<open>The key is already in the bucket, at index \<open>j\<close>; \<^verbatim>\<open>p_item\<close> is the item before it, or the root itself.\<close>

definition bucket_replace :: "(nat \<Rightarrow> u8 list) \<Rightarrow> (nat \<Rightarrow> bool) \<Rightarrow> u8 list \<Rightarrow> nat \<Rightarrow> ht_item_t list \<Rightarrow> (int \<times> ht_item_t list) outcome" where
  "bucket_replace junk mal val j b =
     (let b1 = b[j := (b ! j)\<lparr>hval := if mal 0 then Some (junk (length val)) else None\<rparr>];
          p = j - 1
      in (case hval (b1 ! p) of
            None \<Rightarrow> Fault
          | Some block \<Rightarrow>
              if length val > length block then Fault
              else Done (0, b1[p := (b1 ! p)\<lparr>size_val := int (length val), hval := Some (val @ drop (length val) block)\<rparr>])))"

definition bucket_add :: "(nat \<Rightarrow> u8 list) \<Rightarrow> (nat \<Rightarrow> bool) \<Rightarrow> u8 list \<Rightarrow> u8 list \<Rightarrow> ht_item_t list \<Rightarrow> (int \<times> ht_item_t list) outcome" where
  "bucket_add junk mal key val b =
     (let root = hd b
      in if hkey root = None
         then if \<not> mal 0 then Done (- 1, b)
              else if \<not> mal 1 then Done (- 1, root\<lparr>len_key := int (length key), hkey := None\<rparr> # tl b)
              else Done (0, root\<lparr>hkey := Some key, len_key := int (length key), hval := Some val, size_val := int (length val)\<rparr> # tl b)
         else
           case index_of (item_match key) b of
             Some j \<Rightarrow> bucket_replace junk mal val j b
           | None \<Rightarrow> if mal 0 \<and> mal 1 \<and> mal 2 then Done (0, b @ [new_item key val]) else Done (- 1, b))"

definition ht_add :: "(nat \<Rightarrow> u8 list) \<Rightarrow> (nat \<Rightarrow> bool) \<Rightarrow> ht_t option \<Rightarrow> u8 list option \<Rightarrow> u8 list option \<Rightarrow> (int \<times> ht_t option) outcome" where
  "ht_add junk mal ht key val =
     (case (ht, key, val, ht_find_pos ht key) of
        (Some pt, Some k, Some v, Some pos) \<Rightarrow>
          if v = [] then Done (- 1, ht)
          else
            (case bucket_add junk mal k v (item pt ! pos) of
               Fault \<Rightarrow> Fault
             | Done (r, b) \<Rightarrow> Done (r, Some (pt\<lparr>item := (item pt)[pos := b]\<rparr>)))
      | _ \<Rightarrow> Done (- 1, ht))"

text \<open>\<^verbatim>\<open>memcmp\<close> over the length of the key asked for; \<open>None\<close> when it reads beyond the stored key.\<close>

definition del_match :: "u8 list \<Rightarrow> ht_item_t \<Rightarrow> bool option" where
  "del_match key p =
     (case (hkey p, hval p) of
        (Some k, Some v) \<Rightarrow>
          if take (length key) k = key then Some True
          else if take (length k) key = k then None
          else Some False
      | _ \<Rightarrow> Some False)"

fun del_index :: "u8 list \<Rightarrow> ht_item_t list \<Rightarrow> nat option outcome" where
  "del_index key [] = Done None"
| "del_index key (p # ps) =
     (case del_match key p of
        None \<Rightarrow> Fault
      | Some True \<Rightarrow> Done (Some 0)
      | Some False \<Rightarrow> (case del_index key ps of Fault \<Rightarrow> Fault | Done j \<Rightarrow> Done (map_option Suc j)))"

text \<open>The root item is only emptied, an item of the chain is unlinked.\<close>

definition ht_del_node :: "ht_item_t list \<Rightarrow> u8 list option \<Rightarrow> (int \<times> ht_item_t list) outcome" where
  "ht_del_node b key =
     (case key of
        Some k \<Rightarrow>
          (case del_index k b of
             Fault \<Rightarrow> Fault
           | Done None \<Rightarrow> Done (- 1, b)
           | Done (Some j) \<Rightarrow>
               Done (0, if j = 0 then b[0 := (b ! 0)\<lparr>hkey := None, hval := None\<rparr>] else take j b @ drop (Suc j) b))
      | None \<Rightarrow>
          let full = (\<lambda>p. hkey p \<noteq> None \<and> hval p \<noteq> None);
              root = hd b
          in Done (if list_ex full b then 0 else - 1,
                   (if full root then root\<lparr>hkey := None, hval := None\<rparr> else root) # filter (\<lambda>p. \<not> full p) (tl b)))"

definition ht_del :: "ht_t option \<Rightarrow> u8 list option \<Rightarrow> (int \<times> ht_t option) outcome" where
  "ht_del ht key =
     (case (ht, ht_find_pos ht key) of
        (Some pt, Some pos) \<Rightarrow>
          (case ht_del_node (item pt ! pos) key of
             Fault \<Rightarrow> Fault
           | Done (r, b) \<Rightarrow> Done (r, Some (pt\<lparr>item := (item pt)[pos := b]\<rparr>)))
      | _ \<Rightarrow> Done (- 1, ht))"

definition clear_bucket :: "ht_item_t list \<Rightarrow> ht_item_t list" where
  "clear_bucket b = (case ht_del_node b None of Done (_, b') \<Rightarrow> b' | Fault \<Rightarrow> b)"

definition ht_clear :: "ht_t option \<Rightarrow> int \<times> ht_t option" where
  "ht_clear ht =
     (case ht of None \<Rightarrow> (- 1, None) | Some pt \<Rightarrow> (0, Some (pt\<lparr>item := map clear_bucket (item pt)\<rparr>)))"

definition ht_deinit :: "ht_t option \<Rightarrow> int" where
  "ht_deinit ht = (case ht of None \<Rightarrow> - 1 | Some pt \<Rightarrow> 0)"

text \<open>The traversal with a callback that sees the items in order and stops it with a non-zero result: the result and
  the items visited.\<close>

fun visit_items :: "(ht_item_t \<Rightarrow> int) \<Rightarrow> ht_item_t list \<Rightarrow> int \<times> ht_item_t list" where
  "visit_items f [] = (0, [])"
| "visit_items f (p # ps) =
     (if f p \<noteq> 0 then (f p, [p]) else (case visit_items f ps of (r, vs) \<Rightarrow> (r, p # vs)))"

definition ht_traverse :: "ht_t option \<Rightarrow> (ht_item_t \<Rightarrow> int) option \<Rightarrow> int \<times> ht_item_t list" where
  "ht_traverse ht traverse_cb =
     (case (ht, traverse_cb) of
        (Some pt, Some f) \<Rightarrow> visit_items f (concat (filter (\<lambda>b. hkey (hd b) \<noteq> None) (item pt)))
      | _ \<Rightarrow> (- 1, []))"

section \<open>Stores that are maps for fresh keys\<close>

text \<open>The contract of a store in which a key is put only while it is absent: lookups see exactly the insertions and
  removals.\<close>

datatype ('k, 'v) map_op = Put 'k 'v | Remove 'k

fun map_run :: "('k, 'v) map_op list \<Rightarrow> ('k \<Rightarrow> 'v option) \<Rightarrow> 'k \<Rightarrow> 'v option" where
  "map_run [] m = m"
| "map_run (Put k v # ops) m = map_run ops (m(k \<mapsto> v))"
| "map_run (Remove k # ops) m = map_run ops (m(k := None))"

fun legal :: "('k \<Rightarrow> bool) \<Rightarrow> ('v \<Rightarrow> bool) \<Rightarrow> ('k, 'v) map_op list \<Rightarrow> ('k \<Rightarrow> 'v option) \<Rightarrow> bool" where
  "legal K V [] m = True"
| "legal K V (Put k v # ops) m = (K k \<and> V v \<and> m k = None \<and> legal K V ops (m(k \<mapsto> v)))"
| "legal K V (Remove k # ops) m = (K k \<and> legal K V ops (m(k := None)))"

fun store_run :: "('k \<Rightarrow> 'v \<Rightarrow> 't \<Rightarrow> 't option) \<Rightarrow> ('k \<Rightarrow> 't \<Rightarrow> 't option) \<Rightarrow> ('k, 'v) map_op list \<Rightarrow> 't \<Rightarrow> 't option" where
  "store_run put remove [] t = Some t"
| "store_run put remove (Put k v # ops) t = Option.bind (put k v t) (store_run put remove ops)"
| "store_run put remove (Remove k # ops) t = Option.bind (remove k t) (store_run put remove ops)"

locale fresh_store =
  fixes look :: "'t \<Rightarrow> 'k \<Rightarrow> 'v option" and put :: "'k \<Rightarrow> 'v \<Rightarrow> 't \<Rightarrow> 't option" and remove :: "'k \<Rightarrow> 't \<Rightarrow> 't option"
    and inv :: "'t \<Rightarrow> bool" and K :: "'k \<Rightarrow> bool" and V :: "'v \<Rightarrow> bool"
  assumes put_law: "inv t \<Longrightarrow> K k \<Longrightarrow> V v \<Longrightarrow> look t k = None \<Longrightarrow>
      \<exists>t'. put k v t = Some t' \<and> inv t' \<and> (\<forall>k'. K k' \<longrightarrow> look t' k' = ((look t)(k \<mapsto> v)) k')"
    and remove_law: "inv t \<Longrightarrow> K k \<Longrightarrow>
      \<exists>t'. remove k t = Some t' \<and> inv t' \<and> (\<forall>k'. K k' \<longrightarrow> look t' k' = ((look t)(k := None)) k')"
begin

lemma run_is_map:
  "inv t \<Longrightarrow> (\<And>k. K k \<Longrightarrow> look t k = m k) \<Longrightarrow> legal K V ops m \<Longrightarrow>
     \<exists>t'. store_run put remove ops t = Some t' \<and> inv t' \<and> (\<forall>k. K k \<longrightarrow> look t' k = map_run ops m k)"
proof (induction ops m arbitrary: t rule: map_run.induct)
  case (2 k v ops m)
  then obtain t' where t: "put k v t = Some t'" "inv t'" "\<forall>k'. K k' \<longrightarrow> look t' k' = ((look t)(k \<mapsto> v)) k'"
    using put_law [of t k v] by auto
  have "look t' k' = (m(k \<mapsto> v)) k'" if "K k'" for k' using 2(3) t(3) that by simp
  from 2(1) [OF t(2) this] 2(4) t(1) show ?case by (simp del: fun_upd_apply)
next
  case (3 k ops m)
  then obtain t' where t: "remove k t = Some t'" "inv t'" "\<forall>k'. K k' \<longrightarrow> look t' k' = ((look t)(k := None)) k'"
    using remove_law [of t k] by auto
  have "look t' k' = (m(k := None)) k'" if "K k'" for k' using 3(3) t(3) that by simp
  from 3(1) [OF t(2) this] 3(4) t(1) show ?case by (simp del: fun_upd_apply)
qed auto

end

section \<open>A bucket\<close>

definition assoc :: "ht_item_t list \<Rightarrow> (u8 list \<times> u8 list) list" where
  "assoc b = List.map_filter (\<lambda>p. case (hkey p, hval p) of (Some k, Some v) \<Rightarrow> Some (k, v) | _ \<Rightarrow> None) b"

definition item_ok :: "nat \<Rightarrow> ht_item_t \<Rightarrow> bool" where
  "item_ok L p =
     (case hkey p of
        None \<Rightarrow> hval p = None
      | Some k \<Rightarrow> length k = L \<and> len_key p = int L \<and> (\<exists>v. hval p = Some v \<and> size_val p = int (length v)))"

definition bucket_ok :: "nat \<Rightarrow> ht_item_t list \<Rightarrow> bool" where
  "bucket_ok L b =
     (b \<noteq> [] \<and> list_all (item_ok L) b \<and> list_all (\<lambda>p. hkey p \<noteq> None) (tl b) \<and> distinct (map fst (assoc b)))"

lemma assoc_simps [simp]:
  "assoc [] = []"
  "hkey p = None \<Longrightarrow> assoc (p # b) = assoc b"
  "hkey p = Some k \<Longrightarrow> hval p = Some v \<Longrightarrow> assoc (p # b) = (k, v) # assoc b"
  "assoc (b @ c) = assoc b @ assoc c"
  by (simp_all add: assoc_def map_filter_def)

lemma item_ok_cases:
  assumes "item_ok L p"
  obtains "hkey p = None" "hval p = None"
  | k v where "hkey p = Some k" "hval p = Some v" "length k = L" "len_key p = int L" "size_val p = int (length v)"
  using assms by (auto simp: item_ok_def split: option.splits)

lemma match_iff: "item_ok L p \<Longrightarrow> length k = L \<Longrightarrow> item_match k p = (hkey p = Some k)"
  by (erule item_ok_cases) (auto simp: item_match_def)

lemma bucket_look:
  "list_all (item_ok L) b \<Longrightarrow> length k = L \<Longrightarrow>
     (case find (item_match k) b of None \<Rightarrow> None | Some p \<Rightarrow> hval p) = map_of (assoc b) k"
proof (induction b)
  case (Cons p b)
  then have "item_ok L p" by simp
  then show ?case using Cons by (cases rule: item_ok_cases) (auto simp: match_iff)
qed simp

lemma no_match:
  "list_all (item_ok L) b \<Longrightarrow> length k = L \<Longrightarrow> map_of (assoc b) k = None \<Longrightarrow> index_of (item_match k) b = None"
proof (induction b)
  case (Cons p b)
  then have "item_ok L p" by simp
  then show ?case using Cons by (cases rule: item_ok_cases) (auto simp: match_iff split: if_splits)
qed simp

lemma bucket_add_fresh:
  assumes "bucket_ok L b" "length k = L" "map_of (assoc b) k = None"
  shows "\<exists>b'. bucket_add junk (\<lambda>_. True) k v b = Done (0, b') \<and> bucket_ok L b' \<and> map_of (assoc b') = (map_of (assoc b))(k \<mapsto> v)"
proof -
  obtain p c where b: "b = p # c" using assms(1) by (cases b) (auto simp: bucket_ok_def)
  have new: "item_ok L (new_item k v)" "assoc [new_item k v] = [(k, v)]"
    using assms(2) by (simp_all add: item_ok_def new_item_def)
  show ?thesis
  proof (cases "hkey p")
    case None
    then show ?thesis
      using assms b by (auto simp: bucket_add_def bucket_ok_def item_ok_def map_of_eq_None_iff)
  next
    case (Some k')
    have "bucket_add junk (\<lambda>_. True) k v b = Done (0, b @ [new_item k v])"
      using Some assms no_match [of L b k] by (simp add: bucket_add_def b bucket_ok_def)
    moreover have "map_of (assoc (b @ [new_item k v])) = (map_of (assoc b))(k \<mapsto> v)"
      using assms(3) new(2) by (auto simp: fun_eq_iff map_add_def split: option.split)
    moreover have "bucket_ok L (b @ [new_item k v])"
      using assms new by (auto simp: bucket_ok_def map_of_eq_None_iff)
    ultimately show ?thesis by blast
  qed
qed

lemma del_index_eq:
  "list_all (item_ok L) b \<Longrightarrow> length k = L \<Longrightarrow> del_index k b = Done (index_of (\<lambda>p. hkey p = Some k) b)"
proof (induction b)
  case (Cons p b)
  then have "item_ok L p" by simp
  then show ?case using Cons by (cases rule: item_ok_cases) (auto simp: del_match_def)
qed simp

lemma index_of_Some:
  "index_of P b = Some j \<Longrightarrow> \<exists>p. j < length b \<and> b = take j b @ p # drop (Suc j) b \<and> P p \<and> list_all (\<lambda>q. \<not> P q) (take j b)"
proof (induction b arbitrary: j)
  case (Cons q b)
  then show ?case by (auto split: if_splits)
qed simp

lemma index_of_None: "index_of P b = None \<longleftrightarrow> list_all (\<lambda>p. \<not> P p) b"
  by (induction b) auto

lemma item_ok_emptied [simp]: "item_ok L (p\<lparr>hkey := None, hval := None\<rparr>)"
  by (simp add: item_ok_def)

lemma bucket_del:
  assumes "bucket_ok L b" "length k = L"
  shows "\<exists>r b'. ht_del_node b (Some k) = Done (r, b') \<and> bucket_ok L b' \<and> map_of (assoc b') = (map_of (assoc b))(k := None)
    \<and> (r = 0 \<longleftrightarrow> map_of (assoc b) k \<noteq> None)"
proof -
  have ok: "list_all (item_ok L) b" "b \<noteq> []" "distinct (map fst (assoc b))" "list_all (\<lambda>p. hkey p \<noteq> None) (tl b)"
    using assms(1) by (auto simp: bucket_ok_def)
  show ?thesis
  proof (cases "index_of (\<lambda>p. hkey p = Some k) b")
    case None
    then have "list_all (\<lambda>p. hkey p \<noteq> Some k) b" by (simp add: index_of_None)
    with ok(1) have "map_of (assoc b) k = None"
    proof (induction b)
      case (Cons p b)
      then have "item_ok L p" by simp
      then show ?case using Cons by (cases rule: item_ok_cases) auto
    qed simp
    then show ?thesis
      using None assms del_index_eq [OF ok(1) assms(2)] by (auto simp: ht_del_node_def fun_eq_iff)
  next
    case (Some j)
    then obtain p where p: "b = take j b @ p # drop (Suc j) b" "hkey p = Some k" "j < length b"
      using index_of_Some [OF Some] by blast
    define xs ys where "xs = take j b" and "ys = drop (Suc j) b"
    have b: "b = xs @ p # ys" using p(1) by (simp add: xs_def ys_def)
    obtain v where v: "hval p = Some v"
      using ok(1) p(2) unfolding b by (auto simp: item_ok_def split: option.splits)
    have a: "assoc b = assoc xs @ (k, v) # assoc ys"
      unfolding b using p(2) v by simp
    have d: "k \<notin> fst ` set (assoc xs @ assoc ys)" "distinct (map fst (assoc xs @ assoc ys))"
      using ok(3) unfolding a by auto
    have m: "map_of (assoc xs @ assoc ys) = (map_of (assoc b))(k := None)"
    proof -
      have "map_of (assoc xs) k = None" "map_of (assoc ys) k = None"
        using d(1) by (auto simp: map_of_eq_None_iff)
      then show ?thesis unfolding a by (auto simp: fun_eq_iff map_add_def split: option.split)
    qed
    define b' where "b' = (if j = 0 then b[0 := (b ! 0)\<lparr>hkey := None, hval := None\<rparr>] else take j b @ drop (Suc j) b)"
    have "assoc b' = assoc xs @ assoc ys \<and> bucket_ok L b'"
    proof (cases j)
      case 0
      then have "b' = p\<lparr>hkey := None, hval := None\<rparr> # ys" "xs = []"
        using b by (auto simp: b'_def xs_def)
      then show ?thesis using ok d b by (simp add: bucket_ok_def)
    next
      case (Suc i)
      then have "b' = xs @ ys" "xs \<noteq> []" using p(3) by (auto simp: b'_def xs_def ys_def)
      then show ?thesis using ok d b by (simp add: bucket_ok_def)
    qed
    moreover have "ht_del_node b (Some k) = Done (0, b')"
      using Some del_index_eq [OF ok(1) assms(2)] by (simp add: ht_del_node_def b'_def)
    moreover have "map_of (assoc b) k \<noteq> None"
      unfolding a by (simp add: map_add_def split: option.split)
    ultimately show ?thesis using m by auto
  qed
qed

section \<open>The table\<close>

definition ht_inv :: "nat \<Rightarrow> ht_t \<Rightarrow> bool" where
  "ht_inv L t = (0 < cnt t \<and> cnt t < 2 ^ 31 \<and> length (item t) = nat (cnt t) \<and> list_all (bucket_ok L) (item t))"

definition ht_look :: "ht_t \<Rightarrow> u8 list \<Rightarrow> u8 list option" where
  "ht_look t k = fst (ht_find (Some t) (Some k) None)"

definition ht_put :: "(nat \<Rightarrow> u8 list) \<Rightarrow> u8 list \<Rightarrow> u8 list \<Rightarrow> ht_t \<Rightarrow> ht_t option" where
  "ht_put junk k v t = (case ht_add junk (\<lambda>_. True) (Some t) (Some k) (Some v) of Done (r, t') \<Rightarrow> if r = 0 then t' else None | Fault \<Rightarrow> None)"

definition ht_remove :: "u8 list \<Rightarrow> ht_t \<Rightarrow> ht_t option" where
  "ht_remove k t = (case ht_del (Some t) (Some k) of Done (_, t') \<Rightarrow> t' | Fault \<Rightarrow> None)"

abbreviation pos :: "ht_t \<Rightarrow> u8 list \<Rightarrow> nat" where
  "pos t k \<equiv> unat (hash_func k mod word_of_int (cnt t))"

lemma pos_less:
  assumes "ht_inv L t"
  shows "pos t k < length (item t)"
proof -
  have "unat (word_of_int (cnt t) :: u32) = nat (cnt t)"
    using assms by (intro unat_word_of_int) (auto simp: ht_inv_def)
  then show ?thesis
    using assms by (simp add: unat_mod ht_inv_def)
qed

lemma inv_bucket: "ht_inv L t \<Longrightarrow> bucket_ok L (item t ! pos t k)"
  using pos_less [of L t k] by (simp add: ht_inv_def list_all_length)

lemma look_bucket:
  assumes "ht_inv L t" "length k = L" "0 < L"
  shows "ht_look t k = map_of (assoc (item t ! pos t k)) k"
proof -
  have "k \<noteq> []" using assms by auto
  then show ?thesis
    using bucket_look [of L "item t ! pos t k" k] inv_bucket [OF assms(1), of k] assms(2)
    by (auto simp: ht_look_def ht_find_def ht_find_pos_def bucket_ok_def split: option.splits)
qed

lemma replace_bucket:
  assumes "ht_inv L t" "0 < L" "length k = L" "bucket_ok L b" "map_of (assoc b) = (map_of (assoc (item t ! pos t k)))(k := x)"
  defines "t' \<equiv> t\<lparr>item := (item t)[pos t k := b]\<rparr>"
  shows "ht_inv L t' \<and> (\<forall>k'. length k' = L \<longrightarrow> ht_look t' k' = ((ht_look t)(k := x)) k')"
proof -
  have inv: "ht_inv L t'"
    using assms(1,4) by (auto simp: t'_def ht_inv_def list_all_iff dest: set_update_subset_insert [THEN subsetD])
  have "ht_look t' k' = ((ht_look t)(k := x)) k'" if "length k' = L" for k'
    using assms(5) pos_less [OF assms(1), of k] look_bucket [OF inv that assms(2)] look_bucket [OF assms(1) that assms(2)]
    by (auto simp: t'_def nth_list_update)
  then show ?thesis using inv by blast
qed

interpretation ht: fresh_store ht_look "ht_put junk" ht_remove "ht_inv L" "\<lambda>k. length k = L \<and> 0 < L" "\<lambda>v. v \<noteq> []" for junk L
proof
  fix t and k v :: "u8 list" assume t: "ht_inv L t" and k: "length k = L \<and> 0 < L" and v: "v \<noteq> []" and fresh: "ht_look t k = None"
  have kL: "length k = L" "0 < L" "k \<noteq> []" using k by auto
  obtain b where b: "bucket_add junk (\<lambda>_. True) k v (item t ! pos t k) = Done (0, b)" "bucket_ok L b"
    "map_of (assoc b) = (map_of (assoc (item t ! pos t k)))(k \<mapsto> v)"
    using bucket_add_fresh [OF inv_bucket [OF t] kL(1)] fresh look_bucket [OF t kL(1,2)] by metis
  then have "ht_put junk k v t = Some (t\<lparr>item := (item t)[pos t k := b]\<rparr>)"
    using v kL(3) by (simp add: ht_put_def ht_add_def ht_find_pos_def)
  then show "\<exists>t'. ht_put junk k v t = Some t' \<and> ht_inv L t' \<and> (\<forall>k'. length k' = L \<and> 0 < L \<longrightarrow> ht_look t' k' = ((ht_look t)(k \<mapsto> v)) k')"
    using replace_bucket [OF t kL(2,1) b(2,3)] by blast
next
  fix t and k :: "u8 list" assume t: "ht_inv L t" and k: "length k = L \<and> 0 < L"
  have kL: "length k = L" "0 < L" "k \<noteq> []" using k by auto
  obtain r b where b: "ht_del_node (item t ! pos t k) (Some k) = Done (r, b)" "bucket_ok L b"
    "map_of (assoc b) = (map_of (assoc (item t ! pos t k)))(k := None)"
    using bucket_del [OF inv_bucket [OF t] kL(1)] by blast
  then have "ht_remove k t = Some (t\<lparr>item := (item t)[pos t k := b]\<rparr>)"
    using kL(3) by (simp add: ht_remove_def ht_del_def ht_find_pos_def)
  then show "\<exists>t'. ht_remove k t = Some t' \<and> ht_inv L t' \<and> (\<forall>k'. length k' = L \<and> 0 < L \<longrightarrow> ht_look t' k' = ((ht_look t)(k := None)) k')"
    using replace_bucket [OF t kL(2,1) b(2,3)] by blast
qed

lemma init_inv: "0 < n \<Longrightarrow> n < 2 ^ 31 \<Longrightarrow> \<exists>t. ht_init (\<lambda>_. True) n = Some t \<and> ht_inv L t"
  by (auto simp: ht_init_def ht_inv_def list_all_iff bucket_ok_def item_ok_def null_item_def)

lemma init_look: "ht_init mal n = Some t \<Longrightarrow> n < 2 ^ 31 \<Longrightarrow> ht_inv L t \<Longrightarrow> length k = L \<Longrightarrow> 0 < L \<Longrightarrow> ht_look t k = None"
  using pos_less [of L t k]
  by (auto simp: look_bucket ht_init_def null_item_def ht_inv_def split: if_splits)

section \<open>Properties\<close>



text \<open>C39: Storing a key again: when the key sits directly behind the root of its bucket, \<^verbatim>\<open>ht_add\<close> returns success,
  but the new value is written over the value of the root's key, and a lookup of the key itself returns the bytes
  of a fresh block.\<close>

theorem ht_second_add_corrupts:
  assumes "item t ! pos t k = [new_item k0 v0, new_item k v1]" "pos t k0 = pos t k" "pos t k < length (item t)"
    and "k0 \<noteq> k" "k0 \<noteq> []" "k \<noteq> []" "v \<noteq> []" "length v = length v0"
  shows "\<exists>t'. ht_add junk (\<lambda>_. True) (Some t) (Some k) (Some v) = Done (0, Some t')
           \<and> fst (ht_find (Some t') (Some k0) None) = Some v \<and> fst (ht_find (Some t') (Some k) None) = Some (junk (length v))"
proof -
  have m: "item_match x (new_item y w) = (x = y)" for x y w
    by (auto simp: item_match_def new_item_def)
  have "bucket_add junk (\<lambda>_. True) k v (item t ! pos t k) =
      Done (0, [new_item k0 v, (new_item k v1)\<lparr>hval := Some (junk (length v))\<rparr>])"
  proof -
    have "index_of (item_match k) [new_item k0 v0, new_item k v1] = Some 1"
      using assms(4) by (simp add: m)
    moreover have "hkey (new_item k0 v0) = Some k0" "hval (new_item k0 v0) = Some v0"
      "(new_item k0 v0)\<lparr>size_val := int (length v), hval := Some v\<rparr> = new_item k0 v"
      by (simp_all add: new_item_def)
    ultimately show ?thesis
      using assms(1,8) by (simp add: bucket_add_def bucket_replace_def Let_def)
  qed
  moreover have "item_match x ((new_item k v1)\<lparr>hval := w\<rparr>) = (x = k)" for x w
    by (auto simp: item_match_def new_item_def)
  ultimately show ?thesis
    using assms by (auto simp: ht_add_def ht_find_def ht_find_pos_def m) (simp_all add: new_item_def)
qed

theorem ht_second_add_corrupts_witness:
  "\<exists>t'. ht_add (\<lambda>n. replicate n 0) (\<lambda>_. True) (Some \<lparr>cnt = 1, item = [[new_item [1] [7], new_item [2] [8]]]\<rparr>) (Some [2]) (Some [9]) =
      Done (0, Some t') \<and> fst (ht_find (Some t') (Some [1]) None) = Some [9] \<and> fst (ht_find (Some t') (Some [2]) None) = Some [0]"
  using ht_second_add_corrupts [of "\<lparr>cnt = 1, item = [[new_item [1] [7], new_item [2] [8]]]\<rparr>" "[2]" "[1]" "[7]" "[8]" "[9]" "\<lambda>n. replicate n 0"]
  by simp

text \<open>A deleted value comes back: with two keys in one bucket, deleting the first, storing the second again and
  deleting it succeed, and a lookup of the second then returns its old value.\<close>

theorem ht_deleted_value_returns:
  assumes "item t ! pos t k = [new_item k0 v0, new_item k v1]" "pos t k0 = pos t k" "pos t k < length (item t)"
    and "k0 \<noteq> k" "length k0 = length k" "k \<noteq> []" "v \<noteq> []"
  shows "\<exists>t1 t2 t3. ht_del (Some t) (Some k0) = Done (0, Some t1)
           \<and> ht_add junk (\<lambda>_. True) (Some t1) (Some k) (Some v) = Done (0, Some t2)
           \<and> ht_del (Some t2) (Some k) = Done (0, Some t3) \<and> fst (ht_find (Some t3) (Some k) None) = Some v1"
proof -
  let ?gone = "\<lambda>p. p\<lparr>hkey := None, hval := None\<rparr>"
  have d: "del_match x (new_item y w) = Some (x = y)" if "length x = length y" for x y w
    using that by (auto simp: del_match_def new_item_def)
  have 1: "ht_del_node [new_item k0 v0, new_item k v1] (Some k0) = Done (0, [?gone (new_item k0 v0), new_item k v1])"
    using assms(5) by (simp add: ht_del_node_def d)
  have 2: "bucket_add junk (\<lambda>_. True) k v [?gone (new_item k0 v0), new_item k v1] = Done (0, [new_item k v, new_item k v1])"
    by (simp add: bucket_add_def new_item_def)
  have 3: "ht_del_node [new_item k v, new_item k v1] (Some k) = Done (0, [?gone (new_item k v), new_item k v1])"
    by (simp add: ht_del_node_def d)
  have "find (item_match k) [?gone (new_item k v), new_item k v1] = Some (new_item k v1)" "hval (new_item k v1) = Some v1"
    by (simp_all add: item_match_def new_item_def)
  moreover have "k0 \<noteq> []" using assms(5,6) by auto
  ultimately show ?thesis
    using assms(1-3,6,7) 1 2 3
    by (auto simp: ht_del_def ht_add_def ht_find_def ht_find_pos_def)
qed

theorem ht_deleted_value_returns_witness:
  "\<exists>t1 t2 t3. ht_del (Some \<lparr>cnt = 1, item = [[new_item [1] [7], new_item [2] [8]]]\<rparr>) (Some [1]) = Done (0, Some t1)
     \<and> ht_add (\<lambda>n. []) (\<lambda>_. True) (Some t1) (Some [2]) (Some [9]) = Done (0, Some t2)
     \<and> ht_del (Some t2) (Some [2]) = Done (0, Some t3) \<and> fst (ht_find (Some t3) (Some [2]) None) = Some [8]"
  using ht_deleted_value_returns [of "\<lparr>cnt = 1, item = [[new_item [1] [7], new_item [2] [8]]]\<rparr>" "[2]" "[1]" "[7]" "[8]" "[9]" "\<lambda>n. []"]
  by simp

text \<open>The traversal: with a callback that does not stop it, it visits exactly the stored items of the buckets whose
  root holds a key, in order; the items behind an emptied root are passed over.\<close>

theorem ht_traverse_visits:
  assumes "\<forall>p. f p = 0"
  shows "ht_traverse (Some t) (Some f) = (0, concat (filter (\<lambda>b. hkey (hd b) \<noteq> None) (item t)))"
proof -
  have "visit_items f ps = (0, ps)" for ps using assms by (induction ps) simp_all
  then show ?thesis by (simp add: ht_traverse_def)
qed

theorem ht_traverse_visits_witness:
  "ht_traverse (Some \<lparr>cnt = 2, item = [[new_item [1] [7]], [null_item, new_item [2] [8]]]\<rparr>) (Some (\<lambda>_. 0)) = (0, [new_item [1] [7]])"
  using ht_traverse_visits [of "\<lambda>_. 0" "\<lparr>cnt = 2, item = [[new_item [1] [7]], [null_item, new_item [2] [8]]]\<rparr>"]
  by (simp add: new_item_def null_item_def)

end
