(* ===== verification/Calendar.thy ===== *)
theory Calendar
  imports QM_Prelude
begin

text \<open>
  The calendar of \<open>src/components/qm_time/src/qm_time.c\<close>: broken-down time,
  its conversion from and to seconds, the zone offset, the textual form, and
  the clock calls on top of the real-time clock of the platform, whose answers
  are arguments of the calls.

  Seconds are natural numbers below \<open>2 ^ 64\<close> (\<open>qm_time_t\<close>); the conversions of
  the source between 32 and 64 bits are written out.
\<close>

section \<open>Data\<close>

record qm_tm =
  tm_sec :: int
  tm_min :: int
  tm_hour :: int
  tm_mday :: int
  tm_mon :: int
  tm_year :: int
  tm_wday :: int
  tm_yday :: int

definition Days :: "nat list" where
  "Days = [31, 28, 31, 30, 31, 30, 31, 31, 30, 31, 30, 31]"

section \<open>Seconds to broken-down time\<close>

text \<open>
  The hours of a year of the block of four years (\<open>n32_hpery\<close>) and the loop
  that takes them off.
\<close>

definition year_hours :: "int \<Rightarrow> nat" where
  "year_hours y = (if y mod 4 = 0 then 8760 + 24 else 8760)"

function year_loop :: "int \<Rightarrow> nat \<Rightarrow> int \<times> nat" where
  "year_loop y t = (if t < year_hours y then (y, t) else year_loop (y + 1) (t - year_hours y))"
  by auto
termination by (relation "measure snd") (auto simp: year_hours_def split: if_splits)

declare year_loop.simps [simp del]

text \<open>
  The loop over the months; reading past the array \<open>Days\<close> is \<open>None\<close>.
\<close>

fun month_loop :: "nat list \<Rightarrow> int \<Rightarrow> nat \<Rightarrow> (int \<times> nat) option" where
  "month_loop [] m t = None"
| "month_loop (d # ds) m t = (if d < t then month_loop ds (m + 1) (t - d) else Some (m, t))"

text \<open>
  The month and the day of the month of the \<open>t\<close>-th day of the year, from 1.
\<close>

definition month_day :: "int \<Rightarrow> nat \<Rightarrow> (int \<times> nat) option" where
  "month_day y t =
     (if y mod 4 = 0
      then if 60 < t then month_loop Days 0 (t - 1)
           else if t = 60 then Some (1, 29) else month_loop Days 0 t
      else month_loop Days 0 t)"

definition gmtime_r :: "nat \<Rightarrow> qm_tm option" where
  "gmtime_r time =
     (let h = time div 60 div 60;
          p4 = (h mod 2 ^ 32) div (1461 * 24);
          h4 = h mod (1461 * 24);
          (y, hy) = year_loop (int (p4 * 4) + 70) h4
      in case month_day y (hy div 24 + 1) of
           None \<Rightarrow> None
         | Some (mon, mday) \<Rightarrow>
             Some \<lparr>tm_sec = int (time mod 60), tm_min = int (time div 60 mod 60),
               tm_hour = int (hy mod 24), tm_mday = int mday, tm_mon = mon, tm_year = y,
               tm_wday = int ((h div 24 + 4) mod 7), tm_yday = int (h4 div 24 mod 365)\<rparr>)"

text \<open>
  The local time adds the offset of the zone, as a signed number of minutes.
\<close>

definition local_sec :: "int \<Rightarrow> nat \<Rightarrow> nat" where
  "local_sec minuteswest time = nat ((int time + minuteswest * 60) mod 2 ^ 64)"

definition localtime_r :: "int \<Rightarrow> nat \<Rightarrow> qm_tm option" where
  "localtime_r minuteswest time = gmtime_r (local_sec minuteswest time)"

text \<open>
  The public calls: the outer \<open>None\<close> is a fault, the inner one \<open>NULL\<close>.
  \<open>qm_localtime_r\<close> reads through \<open>time\<close> before it compares it with \<open>NULL\<close>.
\<close>

definition qm_localtime_r :: "int \<Rightarrow> nat option \<Rightarrow> bool \<Rightarrow> qm_tm option option" where
  "qm_localtime_r mw time tm_null =
     (case time of None \<Rightarrow> None
      | Some t \<Rightarrow> if tm_null then Some None else map_option Some (localtime_r mw t))"

definition qm_localtime :: "int \<Rightarrow> nat option \<Rightarrow> qm_tm option option" where
  "qm_localtime mw time =
     (case time of None \<Rightarrow> Some None | Some t \<Rightarrow> map_option Some (localtime_r mw t))"

definition qm_gmtime :: "nat option \<Rightarrow> qm_tm option option" where
  "qm_gmtime time = (case time of None \<Rightarrow> None | Some t \<Rightarrow> map_option Some (gmtime_r t))"

section \<open>Broken-down time to seconds\<close>

definition s32 :: "int \<Rightarrow> int" where
  "s32 x = (x + 2 ^ 31) mod 2 ^ 32 - 2 ^ 31"

text \<open>
  The operands of \<open>_qm_mktime\<close> are unsigned 32-bit numbers up to the cast to
  \<open>qm_time_t\<close>; only \<open>year*365\<close> is still computed in 32 bits after it.
\<close>

definition mktime :: "int \<Rightarrow> int \<Rightarrow> int \<Rightarrow> int \<Rightarrow> int \<Rightarrow> int \<Rightarrow> int" where
  "mktime year0 mon0 day hour mi sec =
     (let m1 = (mon0 - 2) mod 2 ^ 32;
          (mon, year) = (if s32 m1 \<le> 0 then ((m1 + 12) mod 2 ^ 32, (year0 - 1) mod 2 ^ 32)
                         else (m1, year0));
          days = (year div 4 - year div 100 + year div 400 + (367 * mon mod 2 ^ 32) div 12 + day)
                 mod 2 ^ 32
      in ((((days + year * 365 mod 2 ^ 32 - 719499) * 24 + hour) * 60 + mi) * 60 + sec) mod 2 ^ 64)"

definition qm_mktime :: "qm_tm option \<Rightarrow> int" where
  "qm_mktime tm =
     (case tm of None \<Rightarrow> 0
      | Some t \<Rightarrow> mktime ((tm_year t + 1900) mod 2 ^ 32) ((tm_mon t + 1) mod 2 ^ 32)
          (tm_mday t mod 2 ^ 32) (tm_hour t mod 2 ^ 32) (tm_min t mod 2 ^ 32) (tm_sec t mod 2 ^ 32))"

section \<open>The clock\<close>

text \<open>
  The real-time clock of the platform answers a read with a code and a 32-bit
  timestamp and a write with a code and its new state.
\<close>

record 'r time_state =
  minuteswest :: int
  rtc :: 'r

definition qm_time_init :: "('r \<Rightarrow> 'r) \<Rightarrow> 'r time_state \<Rightarrow> int \<times> 'r time_state" where
  "qm_time_init rtc_init s = (QM_EOK, s\<lparr>minuteswest := 8 * 60, rtc := rtc_init (rtc s)\<rparr>)"

text \<open>
  \<open>tv\<close> and \<open>tz\<close> are the buffers of the caller: seconds and microseconds, and the
  minutes.
\<close>

definition qm_gettimeofday ::
  "('r \<Rightarrow> int \<times> u32) \<Rightarrow> 'r time_state \<Rightarrow> (nat \<times> nat) option \<Rightarrow> int option
   \<Rightarrow> int \<times> (nat \<times> nat) option \<times> int option" where
  "qm_gettimeofday rtc_get s tv tz =
     (case tv of None \<Rightarrow> (- QM_EINVAL, tv, tz)
      | Some (sec, usec) \<Rightarrow>
          (case rtc_get (rtc s) of (ret, timestamp) \<Rightarrow>
             if ret \<noteq> QM_EOK then (0, tv, tz)
             else (QM_EOK, Some (unat timestamp, usec), map_option (\<lambda>_. minuteswest s) tz)))"

definition qm_settimezone :: "'r time_state \<Rightarrow> int option \<Rightarrow> int \<times> 'r time_state" where
  "qm_settimezone s tz =
     (case tz of None \<Rightarrow> (- QM_EINVAL, s) | Some m \<Rightarrow> (QM_EOK, s\<lparr>minuteswest := m\<rparr>))"

definition qm_settimeofday ::
  "('r \<Rightarrow> u32 \<Rightarrow> int \<times> 'r) \<Rightarrow> 'r time_state \<Rightarrow> (nat \<times> nat) option \<Rightarrow> int option
   \<Rightarrow> int \<times> 'r time_state" where
  "qm_settimeofday rtc_set s tv tz =
     (case tv of None \<Rightarrow> (- QM_EINVAL, s)
      | Some (sec, usec) \<Rightarrow>
          (case rtc_set (rtc s) (of_nat sec) of (ret, r) \<Rightarrow>
             let s1 = s\<lparr>rtc := r\<rparr>
             in if ret \<noteq> QM_EOK then (ret, s1)
                else (QM_EOK, case tz of None \<Rightarrow> s1 | Some m \<Rightarrow> s1\<lparr>minuteswest := m\<rparr>)))"

text \<open>
  \<open>qm_time\<close>: the result and what is stored through the pointer, if anything.
\<close>

definition qm_time :: "('r \<Rightarrow> int \<times> u32) \<Rightarrow> 'r time_state \<Rightarrow> nat option \<Rightarrow> nat \<times> nat option" where
  "qm_time rtc_get s time =
     (case rtc_get (rtc s) of (ret, timestamp) \<Rightarrow>
        if ret \<noteq> QM_EOK then (0, time)
        else (unat timestamp, map_option (\<lambda>_. unat timestamp) time))"

section \<open>Text\<close>

text \<open>
  The conversions of \<open>qm_snprintf\<close> that the format uses: \<open>%.3s\<close> on a pointer into
  a literal, and a decimal number padded with zeros. A pointer outside the
  literal is \<open>None\<close>.
\<close>

definition pick3 :: "string \<Rightarrow> int \<Rightarrow> string option" where
  "pick3 s i = (if 0 \<le> i \<and> 3 * nat i \<le> length s then Some (take 3 (drop (3 * nat i) s)) else None)"

fun digits :: "nat \<Rightarrow> string" where
  "digits n = (if n < 10 then [] else digits (n div 10)) @ [char_of (n mod 10 + 48)]"

declare digits.simps [simp del]

definition zero_pad :: "nat \<Rightarrow> string \<Rightarrow> string" where
  "zero_pad w ds = replicate (w - length ds) CHR ''0'' @ ds"

definition show_d :: "nat \<Rightarrow> int \<Rightarrow> string" where
  "show_d w x = (if x < 0 then CHR ''-'' # zero_pad (w - 1) (digits (nat (- x)))
                 else zero_pad w (digits (nat x)))"

definition week_names :: string where
  "week_names = ''SunMonTueWedThuFriSat''"

definition month_names :: string where
  "month_names = ''JanFebMarAprMayJunJulAugSepOctNovDec''"

definition qm_asctime :: "qm_tm \<Rightarrow> string option" where
  "qm_asctime tm =
     (case (pick3 week_names (tm_wday tm), pick3 month_names (tm_mon tm)) of
        (Some w, Some m) \<Rightarrow>
          Some (take 25 (w @ '' '' @ m @ '' '' @ show_d 2 (tm_mday tm) @ '' '' @ show_d 2 (tm_hour tm) @ '':''
            @ show_d 2 (tm_min tm) @ '':'' @ show_d 2 (tm_sec tm) @ '' '' @ show_d 4 (tm_year tm + 1900)
            @ [char_of (10 :: nat)]))
      | _ \<Rightarrow> None)"

text \<open>\<open>qm_ctime\<close> on a time that is not \<open>NULL\<close>.\<close>

definition qm_ctime :: "int \<Rightarrow> nat \<Rightarrow> string option" where
  "qm_ctime mw time = Option.bind (localtime_r mw time) qm_asctime"

definition qm_time_print :: "('r \<Rightarrow> int \<times> u32) \<Rightarrow> 'r time_state \<Rightarrow> string option" where
  "qm_time_print rtc_get s = qm_ctime (minuteswest s) (fst (qm_time rtc_get s None))"

section \<open>The reference calendar\<close>

text \<open>
  The Gregorian calendar, day by day from Thursday, 1 January 1970. A date is
  the year, the month from 0 and the day of the month.
\<close>

type_synonym date = "int \<times> int \<times> int"

definition leap :: "int \<Rightarrow> bool" where
  "leap y \<longleftrightarrow> y mod 4 = 0 \<and> (y mod 100 \<noteq> 0 \<or> y mod 400 = 0)"

definition month_length :: "bool \<Rightarrow> int \<Rightarrow> int" where
  "month_length l m = (if m = 1 then if l then 29 else 28 else if m \<in> {3, 5, 8, 10} then 30 else 31)"

fun next_day :: "date \<Rightarrow> date" where
  "next_day (y, m, d) =
     (if d < month_length (leap y) m then (y, m, d + 1) else if m < 11 then (y, m + 1, 1) else (y + 1, 0, 1))"

definition civil :: "nat \<Rightarrow> date" where
  "civil n = (next_day ^^ n) (1970, 0, 1)"

section \<open>The conversion from seconds\<close>

lemma year_loop_stop: "t < year_hours y \<Longrightarrow> year_loop y t = (y, t)"
  by (simp add: year_loop.simps)

lemma year_loop_next: "year_hours y \<le> t \<Longrightarrow> year_loop y t = year_loop (y + 1) (t - year_hours y)"
  by (subst year_loop.simps) simp

lemma year_loop_block:
  assumes "y mod 4 = 2" "h < 35064"
  shows "year_loop y h =
    (if h < 8760 then (y, h) else if h < 17520 then (y + 1, h - 8760)
     else if h < 26304 then (y + 2, h - 17520) else (y + 3, h - 26304))"
proof -
  have "(y + 1) mod 4 = 3" "(y + 2) mod 4 = 0" "(y + 3) mod 4 = 1"
    using assms(1) by presburger+
  then have h: "year_hours y = 8760" "year_hours (y + 1) = 8760" "year_hours (y + 2) = 8784"
    "year_hours (y + 3) = 8760"
    using assms(1) by (simp_all add: year_hours_def)
  have n: "y + 1 + 1 = y + 2" "y + 2 + 1 = y + 3" by simp_all
  have "8760 \<le> h \<Longrightarrow> year_loop y h = year_loop (y + 1) (h - 8760)"
    "17520 \<le> h \<Longrightarrow> year_loop (y + 1) (h - 8760) = year_loop (y + 2) (h - 17520)"
    "26304 \<le> h \<Longrightarrow> year_loop (y + 2) (h - 17520) = year_loop (y + 3) (h - 26304)"
    using year_loop_next [of y h] year_loop_next [of "y + 1" "h - 8760"] year_loop_next [of "y + 2" "h - 17520"]
    unfolding n h by (simp_all add: le_diff_conv2)
  moreover have "h < 8760 \<Longrightarrow> year_loop y h = (y, h)"
    "8760 \<le> h \<Longrightarrow> h < 17520 \<Longrightarrow> year_loop (y + 1) (h - 8760) = (y + 1, h - 8760)"
    "17520 \<le> h \<Longrightarrow> h < 26304 \<Longrightarrow> year_loop (y + 2) (h - 17520) = (y + 2, h - 17520)"
    "26304 \<le> h \<Longrightarrow> year_loop (y + 3) (h - 26304) = (y + 3, h - 26304)"
    using assms(2) by (auto intro!: year_loop_stop simp: h)
  ultimately show ?thesis by simp
qed

text \<open>
  The days of a year: what the month loop answers on the \<open>j\<close>-th day, from 0, and
  how the closed formula of \<open>_qm_mktime\<close> counts it.
\<close>

definition year_length :: "bool \<Rightarrow> nat" where
  "year_length l = (if l then 366 else 365)"

definition day_ok :: "bool \<Rightarrow> nat \<Rightarrow> bool" where
  "day_ok l j \<longleftrightarrow>
     (case month_day (if l then 0 else 1) (j + 1) of None \<Rightarrow> False
      | Some (m, d) \<Rightarrow> 0 \<le> m \<and> m \<le> 11 \<and> 1 \<le> d \<and> int d \<le> month_length l m
          \<and> (if j + 1 < year_length l
             then month_day (if l then 0 else 1) (j + 2)
                  = Some (if int d < month_length l m then (m, d + 1) else (m + 1, 1))
                  \<and> (int d < month_length l m \<or> m < 11)
             else m = 11 \<and> d = 31)
          \<and> (l \<and> j < 58 \<and> m = 1 \<longrightarrow> d < 28)
          \<and> 367 * (if m < 2 then m + 11 else m - 1) div 12 + int d - (if m < 2 then 365 + of_bool l else 0)
            = int j - 28 - of_bool l)"

lemma month_loop_Days:
  "month_loop Days 0 t =
     (if t \<le> 31 then Some (0, t) else if t \<le> 59 then Some (1, t - 31) else if t \<le> 90 then Some (2, t - 59)
      else if t \<le> 120 then Some (3, t - 90) else if t \<le> 151 then Some (4, t - 120)
      else if t \<le> 181 then Some (5, t - 151) else if t \<le> 212 then Some (6, t - 181)
      else if t \<le> 243 then Some (7, t - 212) else if t \<le> 273 then Some (8, t - 243)
      else if t \<le> 304 then Some (9, t - 273) else if t \<le> 334 then Some (10, t - 304)
      else if t \<le> 365 then Some (11, t - 334) else None)"
  by (simp add: Days_def less_diff_conv)

lemma month_cases:
  obtains "t \<le> 31" | "31 < t" "t \<le> 59" | "59 < t" "t \<le> 90" | "90 < t" "t \<le> 120" | "120 < t" "t \<le> 151"
  | "151 < t" "t \<le> 181" | "181 < t" "t \<le> 212" | "212 < t" "t \<le> 243" | "243 < t" "t \<le> 273"
  | "273 < t" "t \<le> 304" | "304 < t" "t \<le> 334" | "334 < (t :: nat)"
  by linarith

lemma days_ok_common: "j < 365 \<Longrightarrow> day_ok False j"
  by (cases "j + 1" rule: month_cases)
    (auto simp: day_ok_def month_day_def month_loop_Days year_length_def month_length_def)

lemma days_ok_leap: "j < 366 \<Longrightarrow> day_ok True j"
  by (cases "j" rule: month_cases)
    (auto simp: day_ok_def month_day_def month_loop_Days year_length_def month_length_def)

lemma days_ok: "j < year_length l \<Longrightarrow> day_ok l j"
  using days_ok_common days_ok_leap by (cases l) (auto simp: year_length_def)

text \<open>
  The position of a day in a block of four years, and the date of the \<open>n\<close>-th day
  by the rules of the code.
\<close>

definition year_pos :: "nat \<Rightarrow> nat \<times> nat" where
  "year_pos r = (if r < 365 then (0, r) else if r < 730 then (1, r - 365)
                 else if r < 1096 then (2, r - 730) else (3, r - 1096))"

definition day_year :: "nat \<Rightarrow> int" where
  "day_year n = 1970 + 4 * int (n div 1461) + int (fst (year_pos (n mod 1461)))"

definition day_pos :: "nat \<Rightarrow> nat" where
  "day_pos n = snd (year_pos (n mod 1461))"

definition gm_date :: "nat \<Rightarrow> date" where
  "gm_date n = (case month_day (day_year n) (day_pos n + 1) of
     Some (m, d) \<Rightarrow> (day_year n, m, int d) | None \<Rightarrow> (0, 0, 0))"

lemma month_day_cong: "month_day y t = month_day (if y mod 4 = 0 then 0 else 1) t"
  by (simp add: month_day_def)

lemma day_year_leap: "day_year n mod 4 = 0 \<longleftrightarrow> fst (year_pos (n mod 1461)) = 2"
proof -
  have "1970 + 4 * int q + int k = (2 + int k) + (492 + int q) * 4" for k q :: nat by simp
  then have "(1970 + 4 * int q + int k) mod 4 = (2 + int k) mod 4" for k q :: nat
    by (metis mod_mult_self1)
  then show ?thesis by (simp add: day_year_def year_pos_def)
qed

lemma day_pos_less: "day_pos n < year_length (day_year n mod 4 = 0)"
proof -
  have "n mod 1461 < 1461" by simp
  then show ?thesis
    unfolding day_year_leap unfolding day_pos_def year_pos_def year_length_def by (auto split: if_splits)
qed

lemma month_day_some:
  obtains m d where "month_day (day_year n) (day_pos n + 1) = Some (m, d)" "gm_date n = (day_year n, m, int d)"
    "0 \<le> m" "m \<le> 11" "1 \<le> d" "d \<le> 31"
    "367 * (if m < 2 then m + 11 else m - 1) div 12 + int d
       - (if m < 2 then 365 + of_bool (day_year n mod 4 = 0) else 0)
     = int (day_pos n) - 28 - of_bool (day_year n mod 4 = 0)"
proof -
  have "day_ok (day_year n mod 4 = 0) (day_pos n)" by (rule days_ok [OF day_pos_less])
  then show thesis
    using that unfolding day_ok_def month_day_cong [of "day_year n"] gm_date_def
    by (auto split: option.splits prod.splits simp: month_length_def split: if_splits)
qed

lemma year_loop_days:
  assumes "y mod 4 = 2" "h < 35064"
  shows "year_loop y h = (y + int (fst (year_pos (h div 24))), 24 * snd (year_pos (h div 24)) + h mod 24)"
proof -
  define a b where "a = h div 24" and "b = h mod 24"
  have h: "h = 24 * a + b" "b < 24" by (simp_all add: a_def b_def)
  have "year_loop y h = (y + int (fst (year_pos a)), 24 * snd (year_pos a) + b)"
    using year_loop_block [OF assms] h(2) assms(2) unfolding h(1) year_pos_def by auto
  then show ?thesis by (simp add: a_def b_def)
qed

lemma gmtime_r_days:
  assumes "t < 2 ^ 32 * 3600"
  shows "\<exists>m d. gm_date (t div 86400) = (day_year (t div 86400), m, int d)
    \<and> gmtime_r t = Some \<lparr>tm_sec = int (t mod 60), tm_min = int (t div 60 mod 60), tm_hour = int (t div 3600 mod 24),
        tm_mday = int d, tm_mon = m, tm_year = day_year (t div 86400) - 1900,
        tm_wday = int ((t div 86400 + 4) mod 7), tm_yday = int (t div 86400 mod 1461 mod 365)\<rparr>"
proof -
  define h n where "h = t div 3600" and "n = t div 86400"
  have hn: "n = h div 24" "t div 60 div 60 = h" "h mod 2 ^ 32 = h" "h div 24 = n"
    using assms by (simp_all add: h_def n_def div_mult2_eq [symmetric] less_mult_imp_div_less)
  have b: "h div (1461 * 24) = n div 1461" "h mod (1461 * 24) div 24 = n mod 1461"
    "h mod (1461 * 24) mod 24 = h mod 24"
    using div_mult2_eq [of h 24 1461] mod_mult2_eq [of h 24 1461] unfolding hn(1)
    by (simp_all add: mod_mod_cancel)
  have "(int (n div 1461 * 4) + 70) mod 4 = 2"
    using mod_mult_self1 [of 2 "int (n div 1461) + 17" 4] by (simp add: algebra_simps)
  then have y: "year_loop (int (n div 1461 * 4) + 70) (h mod (1461 * 24)) = (day_year n - 1900, 24 * day_pos n + h mod 24)"
    using year_loop_days [of "int (n div 1461 * 4) + 70" "h mod (1461 * 24)"]
    unfolding b(2,3) by (simp add: day_year_def day_pos_def)
  obtain m d where md: "month_day (day_year n) (day_pos n + 1) = Some (m, d)" "gm_date n = (day_year n, m, int d)"
    by (rule month_day_some)
  have "(x - 1900) mod 4 = x mod 4" for x :: int using mod_mult_self1 [of x "- 475" 4] by simp
  then have "month_day (day_year n - 1900) (day_pos n + 1) = Some (m, d)"
    using md(1) by (simp add: month_day_def)
  then have "gmtime_r t = Some \<lparr>tm_sec = int (t mod 60), tm_min = int (t div 60 mod 60), tm_hour = int (h mod 24),
      tm_mday = int d, tm_mon = m, tm_year = day_year n - 1900,
      tm_wday = int ((n + 4) mod 7), tm_yday = int (n mod 1461 mod 365)\<rparr>"
    unfolding gmtime_r_def Let_def hn(2) hn(3) b(1,2) y hn(4) by simp
  then show ?thesis using md(2) unfolding h_def n_def by blast
qed

lemma day_year_next:
  "if day_pos n + 1 < year_length (day_year n mod 4 = 0)
   then day_year (Suc n) = day_year n \<and> day_pos (Suc n) = day_pos n + 1
   else day_year (Suc n) = day_year n + 1 \<and> day_pos (Suc n) = 0"
proof (cases "n mod 1461 = 1460")
  case True
  then have "Suc n mod 1461 = 0" "Suc n div 1461 = Suc (n div 1461)"
    by (simp_all add: mod_Suc div_Suc)
  with True show ?thesis
    unfolding day_year_leap by (simp add: day_year_def day_pos_def year_pos_def year_length_def)
next
  case False
  then have "Suc n mod 1461 = Suc (n mod 1461)" "Suc n div 1461 = n div 1461" "n mod 1461 < 1460"
    using mod_less_divisor [of 1461 n] by (simp_all add: mod_Suc div_Suc)
  then show ?thesis
    unfolding day_year_leap
    by (auto simp: day_year_def day_pos_def year_pos_def year_length_def) linarith+
qed

lemma day_year_2100:
  assumes "n < 47482 + k" "k \<le> 100"
  shows "1970 \<le> day_year n" "day_year n < 2100 \<or> day_year n = 2100 \<and> day_pos n < k"
proof -
  define q r where "q = n div 1461" and "r = n mod 1461"
  have "1461 * q + r < 47482 + k" "r < 1461" using assms by (simp_all add: q_def r_def)
  then show "1970 \<le> day_year n" "day_year n < 2100 \<or> day_year n = 2100 \<and> day_pos n < k"
    using assms(2) unfolding day_year_def day_pos_def q_def [symmetric] r_def [symmetric] year_pos_def by auto
qed

lemma leap_before_2100: "1970 \<le> y \<Longrightarrow> y < 2100 \<Longrightarrow> leap y \<longleftrightarrow> y mod 4 = 0"
proof -
  assume "1970 \<le> y" "y < 2100"
  then have "19 < y div 100" "y div 100 < 21" if "y mod 100 = 0" using that div_mult_mod_eq [of y 100] by linarith+
  then have "y mod 100 = 0 \<Longrightarrow> y = 2000" using div_mult_mod_eq [of y 100] by simp
  then show ?thesis by (auto simp: leap_def)
qed

lemma gm_date_next:
  assumes "n < 47540"
  shows "gm_date (Suc n) = next_day (gm_date n)"
proof -
  define l where "l \<longleftrightarrow> day_year n mod 4 = 0"
  have ok: "day_ok l (day_pos n)" unfolding l_def by (rule days_ok [OF day_pos_less])
  obtain m d where md: "month_day (day_year n) (day_pos n + 1) = Some (m, d)" "gm_date n = (day_year n, m, int d)"
    by (rule month_day_some)
  have md': "month_day (if l then 0 else 1) (day_pos n + 1) = Some (m, d)"
    using md(1) by (simp add: l_def month_day_cong [of "day_year n"])
  have leap: "int d < month_length (leap (day_year n)) m \<longleftrightarrow> int d < month_length l m"
  proof (cases "day_year n < 2100")
    case True
    then show ?thesis using leap_before_2100 day_year_2100(1) [of n 58] assms by (simp add: l_def)
  next
    case False
    then have "day_year n = 2100" "day_pos n < 58" using day_year_2100(2) [of n 58] assms by auto
    then show ?thesis using ok md' by (auto simp: day_ok_def l_def month_length_def)
  qed
  show ?thesis
  proof (cases "day_pos n + 1 < year_length l")
    case True
    then have "day_year (Suc n) = day_year n" "day_pos (Suc n) = day_pos n + 1"
      using day_year_next [of n] by (simp_all add: l_def)
    moreover have "month_day (day_year n) (day_pos n + 2) = Some (if int d < month_length l m then (m, d + 1) else (m + 1, 1))"
      "int d < month_length l m \<or> m < 11"
      using ok True md' by (simp_all add: day_ok_def month_day_cong [of "day_year n"] l_def [symmetric])
    ultimately show ?thesis using leap by (auto simp: gm_date_def [of "Suc n"] md(2))
  next
    case False
    then have "day_year (Suc n) = day_year n + 1" "day_pos (Suc n) = 0"
      using day_year_next [of n] by (simp_all add: l_def)
    moreover have "m = 11" "d = 31" using ok False md' by (simp_all add: day_ok_def)
    ultimately show ?thesis
      by (simp add: gm_date_def [of "Suc n"] md(2) month_day_def month_loop_Days month_length_def)
  qed
qed

lemma gm_date_civil: "n \<le> 47540 \<Longrightarrow> gm_date n = civil n"
proof (induction n)
  case 0
  show ?case by (simp add: civil_def gm_date_def day_year_def day_pos_def year_pos_def month_day_def month_loop_Days)
next
  case (Suc n)
  then show ?case by (simp add: gm_date_next civil_def)
qed

section \<open>The conversion back\<close>

lemma s32_small: "- (2 ^ 31) \<le> x \<Longrightarrow> x < 2 ^ 31 \<Longrightarrow> s32 (x mod 2 ^ 32) = x"
  by (simp add: s32_def mod_add_left_eq mod_pos_pos_trivial)

text \<open>
  Between March 1969 and February 2100 the corrections of the century years in
  the closed formula add up to a constant.
\<close>

lemma century_corrections: "1969 \<le> (y :: int) \<Longrightarrow> y < 2100 \<Longrightarrow> y div 4 - y div 100 + y div 400 = y div 4 - 15"
proof -
  assume y: "1969 \<le> y" "y < 2100"
  have "y div 100 = (if y < 2000 then 19 else 20)" using y by (auto; linarith)
  moreover have "y div 400 = (if y < 2000 then 4 else 5)" using y by (auto; linarith)
  ultimately show ?thesis by simp
qed

lemma mktime_formula:
  assumes "0 \<le> m" "m \<le> 11" "1 \<le> d" "d \<le> 31" "1970 \<le> y" "y < 2100 \<or> y = 2100 \<and> m < 2"
    "y' = (if m < 2 then y - 1 else y)" "m' = (if m < 2 then m + 11 else m - 1)"
  shows "mktime y (m + 1) d H M S
    = ((((y' div 4 - 15 + 367 * m' div 12 + d + y' * 365 - 719499) * 24 + H) * 60 + M) * 60 + S) mod 2 ^ 64"
proof -
  have y': "1969 \<le> y'" "y' < 2100" using assms by (auto split: if_splits)
  have m': "1 \<le> m'" "m' \<le> 12" using assms by (auto split: if_splits)
  have "s32 ((m - 1) mod 2 ^ 32) = m - 1" by (rule s32_small) (use assms in auto)
  then have c: "s32 ((m + 1 - 2) mod 2 ^ 32) \<le> 0 \<longleftrightarrow> m < 2" by auto
  have p: "(if m < 2 then (((m + 1 - 2) mod 2 ^ 32 + 12) mod 2 ^ 32, (y - 1) mod 2 ^ 32) else ((m + 1 - 2) mod 2 ^ 32, y))
      = (m', y')"
    using assms by (auto simp: mod_add_left_eq mod_pos_pos_trivial)
  have "0 \<le> y' div 4 - 15 + 367 * m' div 12 + d" "y' div 4 - 15 + 367 * m' div 12 + d < 4294967296"
    using y' m' assms(3,4) by linarith+
  then show ?thesis
    using y' m' unfolding mktime_def Let_def c p prod.case century_corrections [OF y'] by simp
qed

lemma day_count:
  "day_year n div 4 - of_bool (day_year n mod 4 = 0) + 365 * day_year n - 719542 + int (day_pos n) = int n"
proof -
  define q r where "q = n div 1461" and "r = n mod 1461"
  have n: "n = 1461 * q + r" "r < 1461" by (simp_all add: q_def r_def)
  have "(1970 + 4 * int q + int k) div 4 = 492 + int q + (2 + int k) div 4" for k :: nat
    using div_mult_self1 [of 4 "2 + int k" "492 + int q"] by (simp add: algebra_simps)
  then show ?thesis
    using n(2) unfolding day_year_leap unfolding day_year_def day_pos_def q_def [symmetric] r_def [symmetric]
    by (auto simp: n(1) year_pos_def)
qed

lemma mktime_days:
  assumes "n \<le> 47540" "gm_date n = (y, m, d)"
  shows "mktime y (m + 1) d H M S = (((int n * 24 + H) * 60 + M) * 60 + S) mod 2 ^ 64"
proof -
  obtain m0 d0 where md: "month_day (day_year n) (day_pos n + 1) = Some (m0, d0)" "gm_date n = (day_year n, m0, int d0)"
    "0 \<le> m0" "m0 \<le> 11" "1 \<le> d0" "d0 \<le> 31"
    "367 * (if m0 < 2 then m0 + 11 else m0 - 1) div 12 + int d0
       - (if m0 < 2 then 365 + of_bool (day_year n mod 4 = 0) else 0)
     = int (day_pos n) - 28 - of_bool (day_year n mod 4 = 0)"
    by (rule month_day_some)
  have e: "y = day_year n" "m = m0" "d = int d0" using assms(2) md(2) by auto
  have "day_pos n < 59 \<Longrightarrow> m < 2"
    using md(1) unfolding e by (auto simp: month_day_def month_loop_Days split: if_splits)
  then have b: "1970 \<le> y" "y < 2100 \<or> y = 2100 \<and> m < 2"
    using day_year_2100 [of n 59] assms(1) unfolding e by auto
  define y' m' where "y' = (if m < 2 then y - 1 else y)" and "m' = (if m < 2 then m + 11 else m - 1)"
  have "(y - 1) div 4 = y div 4 - of_bool (y mod 4 = 0)" by (auto simp: of_bool_def) presburger+
  then have "y' div 4 - 15 + 367 * m' div 12 + d + y' * 365 - 719499 = int n"
    using day_count [of n] md(7) unfolding y'_def m'_def e [symmetric] by (auto split: if_splits)
  then show ?thesis
    using mktime_formula [of m d y y' m' H M S] md(3-6) b by (simp add: e y'_def m'_def)
qed

lemma gmtime_r_civil:
  assumes "t < 4107542400"
  obtains tm where "gmtime_r t = Some tm" "(tm_year tm + 1900, tm_mon tm, tm_mday tm) = civil (t div 86400)"
    "tm_hour tm = int (t div 3600 mod 24)" "tm_min tm = int (t div 60 mod 60)" "tm_sec tm = int (t mod 60)"
    "tm_wday tm = int ((t div 86400 + 4) mod 7)" "gm_date (t div 86400) = (tm_year tm + 1900, tm_mon tm, tm_mday tm)"
proof -
  obtain m d where md: "gm_date (t div 86400) = (day_year (t div 86400), m, int d)"
    and g: "gmtime_r t = Some \<lparr>tm_sec = int (t mod 60), tm_min = int (t div 60 mod 60), tm_hour = int (t div 3600 mod 24),
        tm_mday = int d, tm_mon = m, tm_year = day_year (t div 86400) - 1900,
        tm_wday = int ((t div 86400 + 4) mod 7), tm_yday = int (t div 86400 mod 1461 mod 365)\<rparr>"
    using gmtime_r_days [of t] assms by auto
  have "t div 86400 \<le> 47540" using assms less_mult_imp_div_less [of t 47541 86400] by simp
  then show thesis using md by (intro that [OF g]) (simp_all add: gm_date_civil [symmetric])
qed

lemma gm_date_range:
  "gm_date n = (y, m, d) \<Longrightarrow> 0 \<le> m \<and> m \<le> 11 \<and> 1 \<le> d \<and> d \<le> 31 \<and> 1970 \<le> y \<and> y \<le> 1973 + int n"
proof -
  assume g: "gm_date n = (y, m, d)"
  have "fst (year_pos r) \<le> 3" for r by (simp add: year_pos_def)
  then have "int (fst (year_pos (n mod 1461))) \<le> 3" by (simp add: le_nat_iff)
  moreover have "4 * (n div 1461) \<le> n" by linarith
  then have "4 * int (n div 1461) \<le> int n" by (metis of_nat_le_iff of_nat_mult of_nat_numeral)
  ultimately have "1970 \<le> day_year n" "day_year n \<le> 1973 + int n" unfolding day_year_def by linarith+
  then show ?thesis using g by (rule_tac month_day_some [of n]) auto
qed

lemma digits_length: "k = 0 \<or> 10 ^ k \<le> n \<Longrightarrow> n < 10 ^ Suc k \<Longrightarrow> length (digits n) = Suc k"
proof (induction k arbitrary: n)
  case 0
  then show ?case by (subst digits.simps) simp
next
  case (Suc k)
  then have b: "10 * 10 ^ k \<le> n" "n < 10 * 10 ^ Suc k" by simp_all
  have "(1 :: nat) \<le> 10 ^ k" by simp
  with b(1) have "\<not> n < 10" by linarith
  moreover have "10 ^ k \<le> n div 10" "n div 10 < 10 ^ Suc k"
    using b by (simp_all add: less_eq_div_iff_mult_less_eq div_less_iff_less_mult)
  ultimately have "10 ^ k \<le> n div 10" "n div 10 < 10 ^ Suc k" "\<not> n < 10" by simp_all
  then show ?case using Suc.IH [of "n div 10"] by (subst digits.simps) simp
qed

lemma show_d_length:
  "0 \<le> x \<Longrightarrow> x < 100 \<Longrightarrow> length (show_d 2 x) = 2"
  "1000 \<le> x \<Longrightarrow> x < 10000 \<Longrightarrow> length (show_d 4 x) = 4"
  using digits_length [of 0 "nat x"] digits_length [of 1 "nat x"] digits_length [of 3 "nat x"] by (cases "x < 10"; simp add: show_d_def zero_pad_def)+

lemma pick3_some: "0 \<le> i \<Longrightarrow> 3 * i + 3 \<le> int (length s) \<Longrightarrow> \<exists>w. pick3 s i = Some w \<and> length w = 3"
  by (auto simp: pick3_def)

lemma qm_localtime_null:
  "qm_localtime mw None = Some None" "qm_localtime_r mw None b = None" "qm_gmtime None = None"
  by (simp_all add: qm_localtime_def qm_localtime_r_def qm_gmtime_def)

section \<open>Properties\<close>

text \<open>C11: The broken-down time is the Gregorian calendar: for every second before 1 March 2100, \<open>_qm_gmtime_r\<close>
  returns, with the date that counting the days one by one from 1 January 1970 gives, the time of day, and the day of the week.\<close>

theorem gmtime_gregorian:
  assumes "t < 4107542400"
  shows "\<exists>tm. gmtime_r t = Some tm \<and> (tm_year tm + 1900, tm_mon tm, tm_mday tm) = civil (t div 86400)
    \<and> tm_hour tm = int (t div 3600 mod 24) \<and> tm_min tm = int (t div 60 mod 60) \<and> tm_sec tm = int (t mod 60)
    \<and> tm_wday tm = int ((t div 86400 + 4) mod 7)"
  by (rule gmtime_r_civil [OF assms]) blast

theorem gmtime_gregorian_witness:
  "\<exists>tm. gmtime_r 5097605 = Some tm \<and> (tm_year tm + 1900, tm_mon tm, tm_mday tm) = (1970, 2, 1)
    \<and> tm_hour tm = 0 \<and> tm_min tm = 0 \<and> tm_sec tm = 5 \<and> tm_wday tm = 0"
proof -
  have "civil 59 = (1970, 2, 1)" by (simp add: civil_def leap_def month_length_def numeral_eq_Suc)
  then show ?thesis using gmtime_gregorian [of 5097605] by simp
qed

text \<open>C12: Round trip: before 1 March 2100 \<open>qm_mktime\<close> gives back the seconds from what \<open>_qm_gmtime_r\<close> made of them.\<close>

theorem mktime_gmtime:
  assumes "t < 4107542400"
  shows "qm_mktime (gmtime_r t) = int t"
proof -
  obtain tm where g: "gmtime_r t = Some tm" and f: "tm_hour tm = int (t div 3600 mod 24)"
    "tm_min tm = int (t div 60 mod 60)" "tm_sec tm = int (t mod 60)"
    and d: "gm_date (t div 86400) = (tm_year tm + 1900, tm_mon tm, tm_mday tm)"
    by (rule gmtime_r_civil [OF assms])
  have n: "t div 86400 \<le> 47540" using assms less_mult_imp_div_less [of t 47541 86400] by simp
  have u: "tm_hour tm mod 2 ^ 32 = tm_hour tm" "tm_min tm mod 2 ^ 32 = tm_min tm" "tm_sec tm mod 2 ^ 32 = tm_sec tm"
    "(tm_year tm + 1900) mod 2 ^ 32 = tm_year tm + 1900" "(tm_mon tm + 1) mod 2 ^ 32 = tm_mon tm + 1"
    "tm_mday tm mod 2 ^ 32 = tm_mday tm"
    using gm_date_range [OF d] n f by (simp_all add: mod_pos_pos_trivial)
  have "((t div 86400 * 24 + t div 3600 mod 24) * 60 + t div 60 mod 60) * 60 + t mod 60 = t"
  proof -
    have "t div 86400 = t div 60 div 60 div 24" "t div 3600 = t div 60 div 60" by (simp_all add: div_mult2_eq [symmetric])
    then show ?thesis by (metis mult.commute div_mult_mod_eq)
  qed
  then have "((int (t div 86400) * 24 + tm_hour tm) * 60 + tm_min tm) * 60 + tm_sec tm = int t"
    unfolding f by (metis of_nat_add of_nat_mult of_nat_numeral)
  then show ?thesis using assms mktime_days [OF n d] unfolding qm_mktime_def g option.case u by simp
qed

theorem mktime_gmtime_witness: "qm_mktime (gmtime_r 951827696) = 951827696"
  using mktime_gmtime [of 951827696] by simp


text \<open>The text of every local time before 1 March 2100 has 25 characters and ends with the line feed, so that
  with its terminator it fills the buffer of 26 bytes exactly and nothing is cut off.\<close>

theorem ctime_fits:
  assumes "local_sec mw t < 4107542400"
  shows "\<exists>s. qm_ctime mw t = Some s \<and> length s = 25 \<and> last s = char_of (10 :: nat)"
proof -
  obtain tm where g: "gmtime_r (local_sec mw t) = Some tm"
    and f: "tm_hour tm = int (local_sec mw t div 3600 mod 24)" "tm_min tm = int (local_sec mw t div 60 mod 60)"
    "tm_sec tm = int (local_sec mw t mod 60)" "tm_wday tm = int ((local_sec mw t div 86400 + 4) mod 7)"
    and d: "gm_date (local_sec mw t div 86400) = (tm_year tm + 1900, tm_mon tm, tm_mday tm)"
    by (rule gmtime_r_civil [OF assms])
  have n: "local_sec mw t div 86400 < 47482 + 59" using assms less_mult_imp_div_less [of "local_sec mw t" 47541 86400] by simp
  have y: "tm_year tm + 1900 = day_year (local_sec mw t div 86400)"
    by (rule month_day_some [of "local_sec mw t div 86400"]) (simp add: d)
  obtain w where w: "pick3 week_names (tm_wday tm) = Some w" "length w = 3"
    using pick3_some [of "tm_wday tm" week_names] f(4) mod_less_divisor [of 7 "local_sec mw t div 86400 + 4"]
    by (auto simp: week_names_def simp del: mod_less_divisor)
  obtain m where m: "pick3 month_names (tm_mon tm) = Some m" "length m = 3"
    using pick3_some [of "tm_mon tm" month_names] gm_date_range [OF d] by (auto simp: month_names_def)
  have "1000 \<le> tm_year tm + 1900" "tm_year tm + 1900 < 10000"
    using day_year_2100 [OF n] unfolding y by auto
  moreover have "0 \<le> tm_mday tm" "tm_mday tm < 100" using gm_date_range [OF d] by auto
  moreover have "int (x mod 60) < 100" "int (x mod 24) < 100" for x :: nat
    using mod_less_divisor [of 60 x] mod_less_divisor [of 24 x] by linarith+
  ultimately have l: "length (show_d 2 (tm_mday tm)) = 2" "length (show_d 2 (tm_hour tm)) = 2" "length (show_d 2 (tm_min tm)) = 2"
    "length (show_d 2 (tm_sec tm)) = 2" "length (show_d 4 (tm_year tm + 1900)) = 4"
    unfolding f by (intro show_d_length; simp)+
  show ?thesis
    by (simp add: qm_ctime_def localtime_r_def g qm_asctime_def w m l)
qed

theorem ctime_fits_witness:
  "\<exists>s. qm_ctime 480 951827696 = Some s \<and> length s = 25 \<and> last s = char_of (10 :: nat)"
  by (rule ctime_fits) (simp add: local_sec_def)

end
