(* ===== verification/Weekly_Timer.thy ===== *)
theory Weekly_Timer
  imports Calendar
begin

text \<open>
  The weekly alarm of \<open>src/components/weekly_timer/src/weekly_timer.c\<close>: a group of
  times of day that fire on the marked days of the week. The calendar is that of
  \<open>Calendar\<close>; the software timer of the platform is the number of milliseconds it
  was last started with, an \<open>int\<close>, and \<open>None\<close> when it is stopped or was created
  without a time; the clock readings of a call
  are its arguments, one for each call of \<open>qm_time\<close>, in their order.
\<close>

section \<open>Data\<close>

record event_time =
  hour :: int
  minute :: int
  second :: int
  tm_cb :: nat
  arg :: nat
  en :: bool

record event_timer_loop =
  weekly_loop :: bool
  week_mark :: u8
  time_num :: nat
  nearest_tm :: nat
  nearest_idx :: nat
  timer :: "int option"
  time_group :: "event_time list"

abbreviation SEC_PER_DAY :: nat where "SEC_PER_DAY \<equiv> 86400"

definition TIMER_NEAREST_INF :: nat where "TIMER_NEAREST_INF = 2147483647"

text \<open>The bits of the union \<open>weekday_mask_t\<close>: Sunday is bit 0, \<open>enable\<close> is bit 7.\<close>

definition day_set :: "u8 \<Rightarrow> nat \<Rightarrow> bool" where
  "day_set mark d \<longleftrightarrow> bit mark d"

definition set_enable :: "bool \<Rightarrow> u8 \<Rightarrow> u8" where
  "set_enable b mark = (if b then Bit_Operations.set_bit 7 mark else unset_bit 7 mark)"

section \<open>The next alarm\<close>

text \<open>The search for the next marked day, at most a week ahead, in unsigned 32-bit arithmetic.\<close>

function day_search :: "u8 \<Rightarrow> nat \<Rightarrow> nat \<Rightarrow> nat \<Rightarrow> nat \<Rightarrow> nat" where
  "day_search mark now time_loc week_day day_diff =
     (if 7 < day_diff then time_loc
      else if day_set mark week_day \<and> now < (time_loc + SEC_PER_DAY * day_diff) mod 2 ^ 32
      then (time_loc + SEC_PER_DAY * day_diff) mod 2 ^ 32
      else day_search mark now time_loc ((week_day + 1) mod 7) (day_diff + 1))"
  by auto
termination by (relation "measure (\<lambda>(_, _, _, _, d). 8 - d)") auto

declare day_search.simps [simp del]

text \<open>
  One round of the loop over the group: \<open>timeinfo\<close> holds the local date, its time
  of day is replaced, and \<open>nearest_tm\<close> and \<open>nearest_idx\<close> are updated.
\<close>

definition event_instant :: "bool \<Rightarrow> u8 \<Rightarrow> nat \<Rightarrow> nat \<Rightarrow> qm_tm \<Rightarrow> nat \<Rightarrow> event_time \<Rightarrow> nat" where
  "event_instant weekly mark old_idx now timeinfo i ev =
     (let time_loc = nat (qm_mktime (Some (timeinfo\<lparr>tm_hour := hour ev, tm_min := minute ev, tm_sec := second ev\<rparr>))
                          mod 2 ^ 32);
          w = nat (tm_wday timeinfo)
      in if weekly
         then if i = old_idx then day_search mark now time_loc ((w + 1) mod 7) 1
              else day_search mark now time_loc w 0
         else if now < time_loc then time_loc else (time_loc + SEC_PER_DAY) mod 2 ^ 32)"

fun nearest_loop :: "(nat \<Rightarrow> event_time \<Rightarrow> nat) \<Rightarrow> event_time list \<Rightarrow> nat \<Rightarrow> nat \<times> nat \<Rightarrow> nat \<times> nat" where
  "nearest_loop inst [] i n = n"
| "nearest_loop inst (ev # evs) i n =
     nearest_loop inst evs (i + 1) (if en ev \<and> inst i ev < fst n then (inst i ev, i) else n)"

text \<open>
  \<open>qm_localtime_r\<close> is given the address of the 32-bit \<open>g_now\<close> as that of a 64-bit
  time: its upper half is whatever lies beside the variable, the argument \<open>upper\<close>.
  \<open>None\<close> is the fault of a conversion.
\<close>

definition get_nearest :: "int \<Rightarrow> u32 \<Rightarrow> u32 \<Rightarrow> event_timer_loop \<Rightarrow> (nat \<times> event_timer_loop) option" where
  "get_nearest mw upper g_now l =
     (case localtime_r mw (unat g_now + 2 ^ 32 * unat upper) of None \<Rightarrow> None
      | Some timeinfo \<Rightarrow>
          if \<not> day_set (week_mark l) 7 then Some (TIMER_NEAREST_INF, l)
          else let (t, i) = nearest_loop
                     (event_instant (weekly_loop l) (week_mark l) (nearest_idx l) (unat g_now) timeinfo)
                     (take (time_num l) (time_group l)) 0 (TIMER_NEAREST_INF, nearest_idx l)
               in Some (t, l\<lparr>nearest_tm := t, nearest_idx := i\<rparr>))"

definition weekly_timer_update :: "int \<Rightarrow> u32 \<Rightarrow> u32 \<Rightarrow> u32 \<Rightarrow> event_timer_loop \<Rightarrow> event_timer_loop option" where
  "weekly_timer_update mw upper now1 now2 l =
     (case get_nearest mw upper now2 l of None \<Rightarrow> None
      | Some (tm_loc, l1) \<Rightarrow>
          let l2 = l1\<lparr>timer := None\<rparr>
          in Some (if tm_loc \<noteq> TIMER_NEAREST_INF \<and> (of_nat tm_loc - now1 :: u32) \<noteq> 0
                   then l2\<lparr>timer := Some (sint ((of_nat tm_loc - now1) * 1000 :: u32))\<rparr> else l2))"

section \<open>The callback and the calls\<close>

text \<open>
  The callback of the timer answers with the callback and the argument of the
  event it ran, which does not call this component; an index outside the group is
  \<open>None\<close>.
\<close>

definition weekly_timer_cb ::
  "int \<Rightarrow> u32 \<Rightarrow> u32 \<Rightarrow> u32 \<Rightarrow> event_timer_loop \<Rightarrow> ((nat \<times> nat) \<times> event_timer_loop) option" where
  "weekly_timer_cb mw upper now1 now2 l =
     (let i = nearest_idx l
      in if length (time_group l) \<le> i then None
         else let ev = time_group l ! i;
                  l1 = (if weekly_loop l then l
                        else l\<lparr>time_group := (time_group l)[i := ev\<lparr>en := False\<rparr>]\<rparr>)
              in map_option (\<lambda>l2. ((tm_cb ev, arg ev), l2)) (weekly_timer_update mw upper now1 now2 l1))"

text \<open>
  The answer of \<open>weekly_timer_add\<close>: \<open>None\<close> for a fault; inside, \<open>None\<close> for \<open>NULL\<close>.
  The block is sized and filled for \<open>time_num\<close> entries, so a shorter array of the
  caller is a read beyond it.
\<close>

definition weekly_timer_add ::
  "int \<Rightarrow> bool \<Rightarrow> u32 \<Rightarrow> u32 \<Rightarrow> u32 \<Rightarrow> u32 \<Rightarrow> bool \<Rightarrow> u8 \<Rightarrow> nat \<Rightarrow> event_time list option
   \<Rightarrow> event_timer_loop option option" where
  "weekly_timer_add mw malloc_ok upper now0 now1 now2 weekly mark num group0 =
     (case group0 of None \<Rightarrow> Some None
      | Some evs \<Rightarrow>
          if \<not> malloc_ok then Some None
          else if length evs < num then None
          else let l = \<lparr>weekly_loop = weekly, week_mark = mark, time_num = num, nearest_tm = TIMER_NEAREST_INF,
                         nearest_idx = TIMER_NEAREST_INF, timer = None, time_group = take num evs\<rparr>
               in (case localtime_r mw (unat now0) of None \<Rightarrow> None
                  | Some timeinfo \<Rightarrow>
                      if 2023 - 1900 \<le> tm_year timeinfo
                      then map_option Some (weekly_timer_update mw upper now1 now2 l)
                      else Some (Some l)))"

definition set_all :: "bool \<Rightarrow> event_timer_loop \<Rightarrow> event_timer_loop" where
  "set_all b l = l\<lparr>week_mark := set_enable b (week_mark l), nearest_tm := TIMER_NEAREST_INF,
     nearest_idx := TIMER_NEAREST_INF,
     time_group := map (\<lambda>ev. ev\<lparr>en := b\<rparr>) (take (time_num l) (time_group l)) @ drop (time_num l) (time_group l)\<rparr>"

definition weekly_timer_start ::
  "int \<Rightarrow> u32 \<Rightarrow> u32 \<Rightarrow> u32 \<Rightarrow> event_timer_loop option \<Rightarrow> (int \<times> event_timer_loop option) option" where
  "weekly_timer_start mw upper now1 now2 h =
     (case h of None \<Rightarrow> Some (- QM_EINVAL, None)
      | Some l \<Rightarrow> map_option (\<lambda>l'. (QM_EOK, Some l')) (weekly_timer_update mw upper now1 now2 (set_all True l)))"

definition weekly_timer_stop ::
  "int \<Rightarrow> u32 \<Rightarrow> u32 \<Rightarrow> u32 \<Rightarrow> event_timer_loop option \<Rightarrow> (int \<times> event_timer_loop option) option" where
  "weekly_timer_stop mw upper now1 now2 h =
     (case h of None \<Rightarrow> Some (- QM_EINVAL, None)
      | Some l \<Rightarrow> map_option (\<lambda>l'. (QM_EOK, Some l')) (weekly_timer_update mw upper now1 now2 (set_all False l)))"

text \<open>Deleting stops and frees the timer and the block.\<close>

definition weekly_timer_delete :: "event_timer_loop option \<Rightarrow> int \<times> event_timer_loop option" where
  "weekly_timer_delete h = (case h of None \<Rightarrow> (- QM_EINVAL, None) | Some l \<Rightarrow> (QM_EOK, None))"

section \<open>The search\<close>

definition day_hit :: "u8 \<Rightarrow> nat \<Rightarrow> nat \<Rightarrow> nat \<Rightarrow> nat \<Rightarrow> bool" where
  "day_hit mark now b w k \<longleftrightarrow> day_set mark ((w + k) mod 7) \<and> now < b + SEC_PER_DAY * k"

lemma day_search_find:
  assumes "b + SEC_PER_DAY * 8 < 2 ^ 32"
  shows "day_search mark now b ((w + dd) mod 7) dd =
    (case List.find (day_hit mark now b w) [dd..<8] of None \<Rightarrow> b | Some k \<Rightarrow> b + SEC_PER_DAY * k)"
proof (induction "8 - dd" arbitrary: dd)
  case 0
  then show ?case by (simp add: day_search.simps)
next
  case (Suc n)
  then have dd: "dd < 8" by simp
  have m: "(b + SEC_PER_DAY * dd) mod 2 ^ 32 = b + SEC_PER_DAY * dd"
    by (rule mod_less) (use assms dd in linarith)
  have w: "((w + dd) mod 7 + 1) mod 7 = (w + (dd + 1)) mod 7" by (simp add: mod_Suc_eq)
  have IH: "day_search mark now b ((w + (dd + 1)) mod 7) (dd + 1) =
    (case List.find (day_hit mark now b w) [dd + 1..<8] of None \<Rightarrow> b | Some k \<Rightarrow> b + SEC_PER_DAY * k)"
    by (rule Suc.hyps(1)) (use Suc.hyps(2) in simp)
  have u: "[dd..<8] = dd # [dd + 1..<8]" using dd by (simp add: upt_conv_Cons)
  show ?case
    using dd unfolding u day_search.simps [of mark now b "(w + dd) mod 7"] m w IH by (simp add: day_hit_def)
qed

lemma find_upt_least:
  assumes "P k" "dd \<le> k" "k < n"
  obtains j where "List.find P [dd..<n] = Some j" "P j" "dd \<le> j" "\<And>i. dd \<le> i \<Longrightarrow> P i \<Longrightarrow> j \<le> i"
proof -
  have "List.find P [dd..<n] \<noteq> None" using assms by (auto simp: find_None_iff)
  then obtain j where j: "List.find P [dd..<n] = Some j" by auto
  then obtain i where i: "i < n - dd" "P (dd + i)" "j = dd + i" "\<forall>h<i. \<not> P (dd + h)"
    by (auto simp: find_Some_iff)
  have "j \<le> h" if "dd \<le> h" "P h" for h
    using that i(4) unfolding i(3) by (metis le_iff_add not_less add_le_cancel_left)
  with i(2,3) show thesis by (intro that [OF j]) auto
qed

section \<open>The instants of an alarm\<close>

definition secs :: "event_time \<Rightarrow> nat" where
  "secs ev = nat (3600 * hour ev + 60 * minute ev + second ev)"

definition valid_event :: "event_time \<Rightarrow> bool" where
  "valid_event ev \<longleftrightarrow> 0 \<le> hour ev \<and> hour ev < 24 \<and> 0 \<le> minute ev \<and> minute ev < 60 \<and> 0 \<le> second ev \<and> second ev < 60"

text \<open>The event is due at the instant \<open>t\<close>, in seconds of the epoch, by the days and hours of Greenwich.\<close>

definition due :: "u8 \<Rightarrow> event_time \<Rightarrow> nat \<Rightarrow> bool" where
  "due mark ev t \<longleftrightarrow> en ev \<and> t mod SEC_PER_DAY = secs ev \<and> day_set mark ((t div SEC_PER_DAY + 4) mod 7)"

lemma secs_less: "valid_event ev \<Longrightarrow> secs ev < SEC_PER_DAY"
  by (auto simp: valid_event_def secs_def nat_less_iff)

lemma local_mktime:
  assumes "local_sec mw now < 2147483647" "localtime_r mw now = Some tm" "valid_event ev"
  shows "nat (qm_mktime (Some (tm\<lparr>tm_hour := hour ev, tm_min := minute ev, tm_sec := second ev\<rparr>)) mod 2 ^ 32)
    = SEC_PER_DAY * (local_sec mw now div SEC_PER_DAY) + secs ev"
    "nat (tm_wday tm) = (local_sec mw now div SEC_PER_DAY + 4) mod 7"
proof -
  define n where "n = local_sec mw now div SEC_PER_DAY"
  have "local_sec mw now < 4107542400" using assms(1) by simp
  then obtain tm' where "gmtime_r (local_sec mw now) = Some tm'" "tm_wday tm' = int ((n + 4) mod 7)"
    "gm_date n = (tm_year tm' + 1900, tm_mon tm', tm_mday tm')"
    unfolding n_def by (rule gmtime_r_civil)
  then have d: "gm_date n = (tm_year tm + 1900, tm_mon tm, tm_mday tm)" and w: "tm_wday tm = int ((n + 4) mod 7)"
    using assms(2) by (simp_all add: localtime_r_def)
  show "nat (tm_wday tm) = (local_sec mw now div SEC_PER_DAY + 4) mod 7" by (simp add: w n_def)
  have n: "n \<le> 24856" using assms(1) less_mult_imp_div_less [of "local_sec mw now" 24857 86400] by (simp add: n_def)
  have u: "hour ev mod 2 ^ 32 = hour ev" "minute ev mod 2 ^ 32 = minute ev" "second ev mod 2 ^ 32 = second ev"
    "(tm_year tm + 1900) mod 2 ^ 32 = tm_year tm + 1900" "(tm_mon tm + 1) mod 2 ^ 32 = tm_mon tm + 1"
    "tm_mday tm mod 2 ^ 32 = tm_mday tm"
    using gm_date_range [OF d] n assms(3) by (simp_all add: mod_pos_pos_trivial valid_event_def)
  have s: "((int n * 24 + hour ev) * 60 + minute ev) * 60 + second ev = int (86400 * n + secs ev)"
    using assms(3) by (simp add: secs_def valid_event_def)
  have "mktime (tm_year tm + 1900) (tm_mon tm + 1) (tm_mday tm) (hour ev) (minute ev) (second ev)
      = int (86400 * n + secs ev) mod 2 ^ 64"
    using mktime_days [OF _ d, of "hour ev" "minute ev" "second ev"] n unfolding s by simp
  then show "nat (qm_mktime (Some (tm\<lparr>tm_hour := hour ev, tm_min := minute ev, tm_sec := second ev\<rparr>)) mod 2 ^ 32)
    = SEC_PER_DAY * (local_sec mw now div SEC_PER_DAY) + secs ev"
    using secs_less [OF assms(3)] n unfolding n_def [symmetric] by (simp add: qm_mktime_def u [simplified])
qed

lemma nearest_loop_le: "fst (nearest_loop inst evs i n) \<le> fst n"
proof (induction evs arbitrary: i n)
  case (Cons ev evs)
  show ?case
    using Cons.IH [of "i + 1" "if en ev \<and> inst i ev < fst n then (inst i ev, i) else n"] by (auto split: if_splits)
qed simp

lemma nearest_loop_least:
  "j < length evs \<Longrightarrow> en (evs ! j) \<Longrightarrow> fst (nearest_loop inst evs i n) \<le> inst (i + j) (evs ! j)"
proof (induction evs arbitrary: i j n)
  case (Cons ev evs)
  let ?n = "if en ev \<and> inst i ev < fst n then (inst i ev, i) else n"
  show ?case
  proof (cases j)
    case 0
    then have "fst ?n \<le> inst i ev" using Cons.prems by auto
    then show ?thesis using nearest_loop_le [of inst evs "i + 1" ?n] 0 by simp
  next
    case (Suc k)
    then show ?thesis using Cons.IH [of k "i + 1" ?n] Cons.prems by simp
  qed
qed simp

lemma nearest_loop_from:
  "nearest_loop inst evs i n = n
   \<or> (\<exists>j < length evs. en (evs ! j) \<and> nearest_loop inst evs i n = (inst (i + j) (evs ! j), i + j))"
proof (induction evs arbitrary: i n)
  case (Cons ev evs)
  let ?n = "if en ev \<and> inst i ev < fst n then (inst i ev, i) else n"
  consider "nearest_loop inst evs (i + 1) ?n = ?n"
    | j where "j < length evs" "en (evs ! j)" "nearest_loop inst evs (i + 1) ?n = (inst (i + 1 + j) (evs ! j), i + 1 + j)"
    using Cons.IH [of "i + 1" ?n] by blast
  then show ?case
  proof cases
    case 1
    then show ?thesis by (auto intro: exI [of _ 0])
  next
    case (2 j)
    then show ?thesis by (intro disjI2 exI [of _ "Suc j"]) simp
  qed
qed simp

lemma nearest_loop_pick:
  assumes "\<And>i. i < length evs \<Longrightarrow> en (evs ! i) \<Longrightarrow> inst i (evs ! i) < TIMER_NEAREST_INF" "\<exists>ev \<in> set evs. en ev"
  obtains j where "j < length evs" "en (evs ! j)"
    "nearest_loop inst evs 0 (TIMER_NEAREST_INF, x) = (inst j (evs ! j), j)"
proof -
  obtain i where i: "i < length evs" "en (evs ! i)" using assms(2) by (auto simp: in_set_conv_nth)
  have "fst (nearest_loop inst evs 0 (TIMER_NEAREST_INF, x)) < TIMER_NEAREST_INF"
    using nearest_loop_least [OF i, of inst 0 "(TIMER_NEAREST_INF, x)"] assms(1) [OF i] by simp
  then show thesis
    using nearest_loop_from [of inst evs 0 "(TIMER_NEAREST_INF, x)"] that by auto
qed

lemma due_day_hit:
  assumes "secs ev < SEC_PER_DAY" "en ev"
  shows "due mark ev (SEC_PER_DAY * D + secs ev + SEC_PER_DAY * k) \<and> now < SEC_PER_DAY * D + secs ev + SEC_PER_DAY * k
    \<longleftrightarrow> day_hit mark now (SEC_PER_DAY * D + secs ev) (D + 4) k"
proof -
  have "(SEC_PER_DAY * D + secs ev + SEC_PER_DAY * k) mod SEC_PER_DAY = secs ev"
    "(SEC_PER_DAY * D + secs ev + SEC_PER_DAY * k) div SEC_PER_DAY = D + k"
    using assms(1) by simp_all
  then show ?thesis using assms(2) by (simp add: due_def day_hit_def ac_simps)
qed

lemma marked_day_ahead:
  fixes w d :: nat
  assumes "d < 7"
  shows "\<exists>k. 1 \<le> k \<and> k < 8 \<and> (w + k) mod 7 = d"
proof -
  define k where "k = (if w mod 7 < d then d - w mod 7 else d + 7 - w mod 7)"
  have "w mod 7 < 7" by simp
  then have k: "1 \<le> k" "k < 8" "w mod 7 + k = d \<or> w mod 7 + k = d + 7" using assms unfolding k_def by auto
  have "(w + k) mod 7 = (w mod 7 + k) mod 7" by (simp add: mod_add_left_eq)
  then have "(w + k) mod 7 = d" using k(3) assms by auto
  with k show ?thesis by blast
qed

lemma due_form:
  assumes "now < u" "due mark ev u"
  shows "\<exists>k. u = SEC_PER_DAY * (now div SEC_PER_DAY) + secs ev + SEC_PER_DAY * k"
proof -
  have "now div SEC_PER_DAY \<le> u div SEC_PER_DAY" using assms(1) by (intro div_le_mono) simp
  then obtain k where k: "u div SEC_PER_DAY = now div SEC_PER_DAY + k" using le_Suc_ex by blast
  have "SEC_PER_DAY * (u div SEC_PER_DAY) + u mod SEC_PER_DAY = u" by (rule mult_div_mod_eq)
  moreover have "u mod SEC_PER_DAY = secs ev" using assms(2) by (simp add: due_def)
  ultimately have "SEC_PER_DAY * (now div SEC_PER_DAY + k) + secs ev = u" unfolding k by simp
  then have "u = SEC_PER_DAY * (now div SEC_PER_DAY) + secs ev + SEC_PER_DAY * k" by (simp add: distrib_left)
  then show ?thesis by (rule exI)
qed

text \<open>
  With Greenwich as the zone, the instant computed for an event is the first one
  after \<open>now\<close> at which it is due.
\<close>

lemma event_instant_due:
  assumes now: "now < 2147483647 - 8 * SEC_PER_DAY" and tm: "localtime_r 0 now = Some tm"
    and ev: "valid_event ev" "en ev" and day: "\<exists>d<7. day_set mark d"
    and old: "i = old_idx \<Longrightarrow> secs ev \<le> now mod SEC_PER_DAY"
  shows "due mark ev (event_instant True mark old_idx now tm i ev) \<and> now < event_instant True mark old_idx now tm i ev
    \<and> event_instant True mark old_idx now tm i ev \<le> now + 8 * SEC_PER_DAY
    \<and> (\<forall>u>now. due mark ev u \<longrightarrow> event_instant True mark old_idx now tm i ev \<le> u)"
proof -
  define D b where "D = now div SEC_PER_DAY" and "b = SEC_PER_DAY * D + secs ev"
  have l: "local_sec 0 now = now" using now by (simp add: local_sec_def)
  have w: "nat (tm_wday tm) = (D + 4) mod 7"
    and m: "nat (qm_mktime (Some (tm\<lparr>tm_hour := hour ev, tm_min := minute ev, tm_sec := second ev\<rparr>)) mod 2 ^ 32) = b"
    using local_mktime [of 0 now tm ev] now tm ev(1) unfolding l D_def b_def by simp_all
  have s: "secs ev < SEC_PER_DAY" and nw: "now = SEC_PER_DAY * D + now mod SEC_PER_DAY"
    using secs_less [OF ev(1)] by (simp_all add: D_def)
  have bd: "b + SEC_PER_DAY * 7 < 2147483647"
    using now s nw unfolding b_def by linarith
  define dd where "dd = (if i = old_idx then 1 else 0 :: nat)"
  have inst: "event_instant True mark old_idx now tm i ev = day_search mark now b ((D + 4 + dd) mod 7) dd"
    unfolding event_instant_def Let_def m w dd_def by (simp add: mod_Suc_eq)
  note hit = due_day_hit [OF s ev(2), of mark D _ now, folded b_def]
  obtain k where k: "dd \<le> k" "k < 8" "day_hit mark now b (D + 4) k"
  proof -
    obtain d where d: "d < 7" "day_set mark d" using day by blast
    then obtain k where k: "1 \<le> k" "k < 8" "(D + 4 + k) mod 7 = d" using marked_day_ahead by blast
    have "SEC_PER_DAY * (D + 1) \<le> b + SEC_PER_DAY * k" using k(1) unfolding b_def by simp
    then have "now < b + SEC_PER_DAY * k" using nw mod_less_divisor [of SEC_PER_DAY now] by simp
    then show thesis using k d(2) by (intro that [of k]) (simp_all add: day_hit_def dd_def)
  qed
  obtain j where j: "List.find (day_hit mark now b (D + 4)) [dd..<8] = Some j" "day_hit mark now b (D + 4) j"
    "\<And>i. dd \<le> i \<Longrightarrow> day_hit mark now b (D + 4) i \<Longrightarrow> j \<le> i"
    by (rule find_upt_least [of "day_hit mark now b (D + 4)" k dd 8]) (use k in auto)
  have t: "event_instant True mark old_idx now tm i ev = b + SEC_PER_DAY * j"
    unfolding inst using day_search_find [of b mark now "D + 4" dd] j(1) bd by simp
  have "b + SEC_PER_DAY * j \<le> u" if u: "now < u" "due mark ev u" for u
  proof -
    obtain k where k: "u = b + SEC_PER_DAY * k" using due_form [OF u] unfolding b_def D_def by blast
    have "b \<le> now" if "i = old_idx" using old [OF that] nw unfolding b_def by linarith
    then have "dd \<le> k" using u(1) unfolding k dd_def by (cases k) auto
    then show ?thesis using u hit [of k] j(3) [of k] unfolding k by simp
  qed
  moreover have "j \<le> 7" using j(3) [of k] k by simp
  then have "b + SEC_PER_DAY * j \<le> now + 8 * SEC_PER_DAY" using s nw unfolding b_def by linarith
  ultimately show ?thesis using hit [of j] j(2) unfolding t by (intro conjI allI impI) simp_all
qed

lemma localtime_some:
  assumes "local_sec mw t < 4107542400"
  obtains tm where "localtime_r mw t = Some tm"
  by (rule gmtime_r_civil [OF assms]) (auto simp: localtime_r_def intro: that)

lemma get_nearest_weekly:
  assumes now: "unat now < 2147483647 - 8 * SEC_PER_DAY"
    and l: "weekly_loop l" "day_set (week_mark l) 7" "\<exists>d<7. day_set (week_mark l) d" "time_num l = length (time_group l)"
    and ev: "\<forall>ev \<in> set (time_group l). valid_event ev" "\<exists>ev \<in> set (time_group l). en ev"
    and old: "\<forall>i < length (time_group l). i = nearest_idx l \<longrightarrow> secs (time_group l ! i) \<le> unat now mod SEC_PER_DAY"
  obtains t j where "get_nearest 0 0 now l = Some (t, l\<lparr>nearest_tm := t, nearest_idx := j\<rparr>)"
    "j < length (time_group l)" "due (week_mark l) (time_group l ! j) t" "unat now < t" "t \<le> unat now + 8 * SEC_PER_DAY"
    "\<forall>u ev. unat now < u \<and> ev \<in> set (time_group l) \<and> due (week_mark l) ev u \<longrightarrow> t \<le> u"
proof -
  define mark evs where "mark = week_mark l" and "evs = time_group l"
  have "local_sec 0 (unat now) = unat now" using now by (simp add: local_sec_def)
  then obtain tm where tm: "localtime_r 0 (unat now) = Some tm"
    using localtime_some [of 0 "unat now"] now by auto
  define inst where "inst = event_instant True mark (nearest_idx l) (unat now) tm"
  have inst: "due mark (evs ! i) (inst i (evs ! i)) \<and> unat now < inst i (evs ! i)
    \<and> inst i (evs ! i) \<le> unat now + 8 * SEC_PER_DAY
    \<and> (\<forall>u>unat now. due mark (evs ! i) u \<longrightarrow> inst i (evs ! i) \<le> u)" if "i < length evs" "en (evs ! i)" for i
    unfolding inst_def using that ev(1) old l(3) by (intro event_instant_due [OF now tm]) (auto simp: evs_def mark_def)
  define r where "r = nearest_loop inst evs 0 (TIMER_NEAREST_INF, nearest_idx l)"
  note least = nearest_loop_least [of _ evs inst 0 "(TIMER_NEAREST_INF, nearest_idx l)", folded r_def, unfolded add_0]
  have "inst i (evs ! i) < TIMER_NEAREST_INF" if "i < length evs" "en (evs ! i)" for i
    using inst [OF that] now unfolding TIMER_NEAREST_INF_def by linarith
  then obtain j where j: "j < length evs" "en (evs ! j)" "r = (inst j (evs ! j), j)"
    unfolding r_def by (rule nearest_loop_pick) (use ev(2) in \<open>auto simp: evs_def\<close>)
  have "inst j (evs ! j) \<le> u" if u: "unat now < u" "ev \<in> set evs" "due mark ev u" for u ev
  proof -
    obtain i where i: "i < length evs" "evs ! i = ev" using u(2) by (auto simp: in_set_conv_nth)
    moreover have "en ev" using u(3) by (simp add: due_def)
    ultimately have "inst j (evs ! j) \<le> inst i ev" "inst i ev \<le> u" using least [of i] inst [of i] u j(3) by auto
    then show ?thesis by (rule order_trans)
  qed
  moreover have "get_nearest 0 0 now l = Some (inst j (evs ! j), l\<lparr>nearest_tm := inst j (evs ! j), nearest_idx := j\<rparr>)"
    using j(3) l unfolding r_def inst_def by (simp add: get_nearest_def tm mark_def evs_def)
  ultimately show thesis using inst [OF j(1,2)] j(1) by (intro that) (auto simp: evs_def mark_def)
qed

lemma sint_of_int_small: "0 \<le> x \<Longrightarrow> x < 2 ^ 31 \<Longrightarrow> sint (word_of_int x :: u32) = x"
  by (simp add: int_word_sint)

lemma alarm_delay:
  assumes "unat now < t" "t \<le> unat (now :: u32) + 8 * SEC_PER_DAY" "t < 2147483647"
  shows "sint ((of_nat t - now) * 1000 :: u32) = int (t - unat now) * 1000" "of_nat t - now \<noteq> 0"
proof -
  have d: "of_nat t - now = (of_nat (t - unat now) :: u32)" using assms(1) by (simp add: of_nat_diff)
  then have e: "(of_nat t - now) * 1000 = (word_of_int (int (t - unat now) * 1000) :: u32)" by simp
  show "sint ((of_nat t - now) * 1000 :: u32) = int (t - unat now) * 1000"
    unfolding e by (rule sint_of_int_small) (use assms in simp_all)
  show "of_nat t - now \<noteq> 0" using assms by (auto simp: unat_of_nat take_bit_nat_eq_self)
qed

lemma event_instant_form:
  assumes "local_sec mw now < 2147483647 - 8 * SEC_PER_DAY" "localtime_r mw now = Some tm" "valid_event ev"
  obtains k where "k < 8"
    "event_instant w mark old_idx g_now tm i ev = SEC_PER_DAY * (local_sec mw now div SEC_PER_DAY) + secs ev + SEC_PER_DAY * k"
proof -
  have lt: "local_sec mw now < 2147483647" using assms(1) by simp
  define b where "b = SEC_PER_DAY * (local_sec mw now div SEC_PER_DAY) + secs ev"
  have m: "nat (qm_mktime (Some (tm\<lparr>tm_hour := hour ev, tm_min := minute ev, tm_sec := second ev\<rparr>)) mod 2 ^ 32) = b"
    unfolding b_def by (rule local_mktime [OF lt assms(2,3)])
  have "SEC_PER_DAY * (local_sec mw now div SEC_PER_DAY) \<le> local_sec mw now" by simp
  then have "b + SEC_PER_DAY * 8 < 4294967296" using assms(1) secs_less [OF assms(3)] unfolding b_def by linarith
  then have b: "b + SEC_PER_DAY * 8 < 2 ^ 32" by simp
  have s: "\<exists>k<8. day_search mark g_now b ((x + dd) mod 7) dd = b + SEC_PER_DAY * k" for x dd
    unfolding day_search_find [OF b] by (auto split: option.split simp: find_Some_iff intro: exI [of _ 0])
  have "\<exists>k<8. event_instant w mark old_idx g_now tm i ev = b + SEC_PER_DAY * k"
    using s [of "local_sec mw now div SEC_PER_DAY + 4" 0] s [of "local_sec mw now div SEC_PER_DAY + 4" 1] b
    unfolding event_instant_def Let_def m local_mktime(2) [OF lt assms(2,3)]
    by (cases w) (auto simp: mod_Suc_eq intro: exI [of _ 0] exI [of _ 1])
  then show thesis using that unfolding b_def by blast
qed

section \<open>Properties\<close>





end
