(* ===== verification/Spec2Isabelle.thy ===== *)
theory Spec2Isabelle
  imports Ringbuf Eventbus Multi_Timer Tlv_Codec Virtual_Channel Crc Base64 Mqtt_Packet Sha256 Hmac_Totp Multi_Button Hashtable Weekly_Timer
begin

text \<open>
  A verification library for QUMIOS, a C framework for devices on microcontrollers. The framework is a set of
  components (\<^verbatim>\<open>src/components\<close>) over a set of utilities (\<^verbatim>\<open>src/utility\<close>), which call the operating system and the
  chip through the interfaces of \<^verbatim>\<open>src/include\<close>. The library models the components and utilities whose behaviour is
  computation on data: queues, timers, codecs, checksums, digests, text, tables, the calendar and two input drivers.

  \<^bold>\<open>How the code is modelled.\<close> A C structure is a record, an enumeration a datatype, a call a function from the state
  to the state and the result. Unsigned and narrow integers are words or carry their \<open>mod 2 ^ w\<close>; \<open>int\<close> is \<open>int\<close>.
  A pointer that the code compares with \<open>NULL\<close> is an option. Accesses outside an array and reads through \<open>NULL\<close> are
  outcomes of their own (\<open>None\<close>, \<open>Fault\<close>, \<open>Overrun\<close>), so that the properties show their absence, or their presence.
  The clock, allocation, callbacks, byte sources and operating-system calls are arguments. Error codes are those of
  \<^verbatim>\<open>include/common/qm_errno.h\<close>.

  \<^bold>\<open>Theories and sources.\<close>

  \<^item> \<open>QM_Prelude\<close>: integer types, error codes, segments of circular buffers, word arithmetic.
  \<^item> \<open>Ringbuf\<close>: \<^verbatim>\<open>utility/ringbuf/qm_ringbuf.c\<close>. Interface \<open>byte_fifo\<close>, interpreted on the ring buffer: any
    interleaving of reads and writes is a byte stream.
  \<^item> \<open>Circbuf_Var\<close>, \<open>Eventbus\<close>: \<^verbatim>\<open>components/qm_eventbus_static\<close>, \<^verbatim>\<open>circbuf_var.c\<close> and \<^verbatim>\<open>qm_eventbus_static.c\<close>. Interface
    \<open>elem_fifo\<close> of the queue, used by the bus: every queued event reaches its handlers once, emergency events first.
  \<^item> \<open>Multi_Timer\<close>: \<^verbatim>\<open>components/multi_timer/src/multi_timer.c\<close>, on a heap of linked cells: starting keeps the two lists
    ordered, a yield runs exactly the due timers; and where it does not end after a wrap of the clock.
  \<^item> \<open>Byte_Order\<close>, \<open>Tlv\<close>, \<open>Tlv_Codec\<close>: the conversions of \<^verbatim>\<open>include/common/qm_types.h\<close> and \<^verbatim>\<open>utility/tlv/qm_tlv.c\<close>. Interfaces
    \<open>tlv_codec\<close> and \<open>bounded_codec\<close>, interpreted on the wire formats: round trip, bounds, invariant, merge.
  \<^item> \<open>Virtual_Channel\<close>: \<^verbatim>\<open>components/virtual_channel/virtual_channel.c\<close>, over \<open>Ringbuf\<close>: connection, transfer, closing, and
    an invariant of the tables under every sequence of calls and every interference of other tasks.
  \<^item> \<open>Crc\<close>: \<^verbatim>\<open>utility/crc/qm_crc.c\<close>, \<^verbatim>\<open>utility/crc32/qm_utils_crc32.c\<close>. Interface \<open>crc_engine\<close>, interpreted for each width and
    direction: every routine is polynomial division over the field of two elements.
  \<^item> \<open>Base64\<close>: \<^verbatim>\<open>utility/base64/qm_utils_base64.c\<close>: lengths and round trip.
  \<^item> \<open>Mqtt_Packet\<close>: \<^verbatim>\<open>components/mqtt/MQTTPacket\<close>. Interface \<open>byte_source\<close>, interpreted on the buffer reader: a publish
    packet comes back as it was sent.
  \<^item> \<open>Hash_Stream\<close>, \<open>Sha1\<close>, \<open>Md5\<close>, \<open>Sha256\<close>: \<^verbatim>\<open>utility/sha1\<close>, \<^verbatim>\<open>utility/md5\<close>, \<^verbatim>\<open>utility/sha256\<close>. Interface \<open>hash_stream\<close>, interpreted
    on the three contexts: a message fed in any pieces gives the digest of the standard. The round constants of SHA-256
    are shown to be those of the roots of the first primes.
  \<^item> \<open>String_Utils\<close>, \<open>Hmac_Totp\<close>: \<^verbatim>\<open>utility/string\<close>, \<^verbatim>\<open>utility/hmac\<close>, \<^verbatim>\<open>utility/totp\<close>: text of numbers and bytes, JSON lookup, the
    formatter; HMAC of RFC 2104 and passwords of RFC 4226.
  \<^item> \<open>Multi_Button\<close>: \<^verbatim>\<open>components/multi_button/multi_button.c\<close>: the click machine and its linked work list.
  \<^item> \<open>Hashtable\<close>: \<^verbatim>\<open>utility/hashtable/qm_utils_hashtable.c\<close>. Interface \<open>fresh_store\<close>, interpreted on the table: it is a map as
    long as a key is deleted before it is stored again; and what happens otherwise.
  \<^item> \<open>Calendar\<close>: \<^verbatim>\<open>components/qm_time/src/qm_time.c\<close>: the date is that of the Gregorian calendar and converts back until
    1 March 2100; the fields that are wrong.
  \<^item> \<open>Weekly_Timer\<close>: \<^verbatim>\<open>components/weekly_timer/src/weekly_timer.c\<close>, over \<open>Calendar\<close>: the next alarm is the first instant an
    event is due in the zone of Greenwich, and late by the offset in a zone east of it.

  \<^bold>\<open>Loops and bounds.\<close> Loops over arrays and numbers are total functions. Loops over linked lists and loops the clock can
  keep alive are partial functions, where not returning is \<open>None\<close>; that they return is part of the properties. Only the event
  loop has fuel, since a handler may post again: more fuel than queued events is enough when the handlers leave the buses
  alone. The digests of SHA-1 and MD5 are proved for messages below 4 GiB, the calendar for seconds before 1 March 2100, the
  weekly alarm for clocks more than eight days before 19 January 2038: beyond these the code computes something else.

  \<^bold>\<open>Not modelled.\<close>

  \<^item> Drivers and connections, whose effects are those of pins, buses, radios and sockets: buzzer, relay, LED, software I2C,
    serial flash, audio, BLE, Wi-Fi, PPP, AT commands, DNS, HTTP, NTP and epoch time, low-power control, platforms and boards.
  \<^item> Layers over threads, semaphores and queues of the operating system: futures, thread pool, work queues, data channel, the
    client loop around the MQTT packets.
  \<^item> Libraries of third parties kept in the tree: BSON, HTTP parser, web server, flash databases, heatshrink, the cloud client's
    CBOR, COSE and JSON, and the formatted input and output.
  \<^item> Floating-point code, for which the source relies on the machine: sunrise and sunset, IEEE 754 encoding, dimming curves.
  \<^item> Two components that refer to types no file declares: delayed actions and soft dimming.
  \<^item> Parts that are computation on data and could be added: AES, the heap, the key-value store, the doubly linked list, the
    scanner of \<^verbatim>\<open>utility/json_parser\<close>, serial frames, the fixed-point step curves, the retry delay, the queues without operating
    system, the Code 128 bar code, and two further button drivers that vary the one modelled here.
  \<^item> Inside the modelled parts: the mutual exclusion around a call is taken as atomic, logging is left out, and callbacks are
    taken not to call back into the component where the theory says so.
\<close>

end
